(* ===== verification/Prelude.thy ===== *)
theory Prelude
  imports Complex_Main "HOL-Library.AList" "HOL-Library.Monad_Syntax"
begin

text \<open>
  Shared vocabulary of the development: JavaScript strings as lists of code units in the
  Latin-1 range, splitting and joining at a separator (\<open>String.prototype.split\<close> and
  \<open>Array.prototype.join\<close>), stripping and trimming (the anchored regular expressions the code
  uses), letter case, decimal printing, objects as association lists in insertion order, and
  the lemmas about them every component uses.
\<close>

named_theorems str_simps \<open>splitting, joining, trimming and case conversion\<close>
named_theorems obj_simps \<open>lookup and update of objects in insertion order\<close>

section \<open>Splitting and joining\<close>

text \<open>\<open>s.split(c)\<close> for a separator of one code unit; the empty string gives one empty piece.\<close>

fun split_on :: "'a \<Rightarrow> 'a list \<Rightarrow> 'a list list" where
  "split_on c [] = [[]]"
| "split_on c (x # xs) =
     (if x = c then [] # split_on c xs
      else (case split_on c xs of
              [] \<Rightarrow> [[x]]
            | p # ps \<Rightarrow> (x # p) # ps))"

text \<open>\<open>a.join(s)\<close> for an array of strings.\<close>

fun join_with :: "'a list \<Rightarrow> 'a list list \<Rightarrow> 'a list" where
  "join_with s [] = []"
| "join_with s [p] = p"
| "join_with s (p # q # ps) = p @ s @ join_with s (q # ps)"

lemma split_on_not_Nil [simp]: "split_on c xs \<noteq> []"
  by (induction xs) (auto split: list.splits)

lemma join_split_on [str_simps]: "join_with [c] (split_on c xs) = xs"
proof (induction xs)
  case Nil
  then show ?case by simp
next
  case (Cons x xs)
  obtain p ps where sp: "split_on c xs = p # ps"
    using split_on_not_Nil [of c xs] by (cases "split_on c xs") auto
  with Cons.IH show ?case by (cases ps) auto
qed

lemma split_on_no_sep [str_simps]: "c \<notin> set xs \<Longrightarrow> split_on c xs = [xs]"
  by (induction xs) auto

lemma split_on_append_sep [str_simps]:
  "c \<notin> set p \<Longrightarrow> split_on c (p @ c # xs) = p # split_on c xs"
  by (induction p) auto

lemma split_on_join [str_simps]:
  "ps \<noteq> [] \<Longrightarrow> (\<And>p. p \<in> set ps \<Longrightarrow> c \<notin> set p) \<Longrightarrow> split_on c (join_with [c] ps) = ps"
proof (induction "[c]" ps rule: join_with.induct)
  case 1
  then show ?case by simp
next
  case (2 p)
  then show ?case by (simp add: split_on_no_sep)
next
  case (3 p q ps)
  then show ?case by (simp add: split_on_append_sep)
qed

lemma split_on_pieces: "p \<in> set (split_on c xs) \<Longrightarrow> c \<notin> set p"
  by (induction xs arbitrary: p) (auto split: list.splits if_splits)

lemma set_join_with: "set (join_with s ps) \<subseteq> \<Union> (set ` set ps) \<union> set s"
  by (induction s ps rule: join_with.induct) auto

lemma join_with_eq_Nil:
  "s \<noteq> [] \<Longrightarrow> join_with s ps = [] \<longleftrightarrow> ps = [] \<or> ps = [[]]"
  by (induction s ps rule: join_with.induct) auto

lemma join_with_Cons:
  "join_with s (p # ps) = (if ps = [] then p else p @ s @ join_with s ps)"
  by (cases ps) auto

lemma join_with_append:
  "ps \<noteq> [] \<Longrightarrow> qs \<noteq> [] \<Longrightarrow> join_with s (ps @ qs) = join_with s ps @ s @ join_with s qs"
  by (induction ps) (auto simp: join_with_Cons)

section \<open>Stripping the ends of a string\<close>

text \<open>
  The code strips with anchored regular expressions, \<open>/^X*/\<close> and \<open>/X*$/\<close>.
\<close>

definition strip_left :: "('a \<Rightarrow> bool) \<Rightarrow> 'a list \<Rightarrow> 'a list" where
  "strip_left P xs = dropWhile P xs"

definition strip_right :: "('a \<Rightarrow> bool) \<Rightarrow> 'a list \<Rightarrow> 'a list" where
  "strip_right P xs = rev (dropWhile P (rev xs))"

lemma strip_left_id [str_simps]: "xs = [] \<or> \<not> P (hd xs) \<Longrightarrow> strip_left P xs = xs"
  by (cases xs) (auto simp: strip_left_def)

lemma strip_right_id [str_simps]: "xs = [] \<or> \<not> P (last xs) \<Longrightarrow> strip_right P xs = xs"
  by (cases xs rule: rev_cases) (auto simp: strip_right_def)

lemma strip_left_hd: "strip_left P xs \<noteq> [] \<Longrightarrow> \<not> P (hd (strip_left P xs))"
  unfolding strip_left_def by (rule hd_dropWhile)

lemma strip_right_last: "strip_right P xs \<noteq> [] \<Longrightarrow> \<not> P (last (strip_right P xs))"
  unfolding strip_right_def by (auto simp: last_rev hd_dropWhile)

lemma set_strip_left: "set (strip_left P xs) \<subseteq> set xs"
  by (auto simp: strip_left_def dest: set_dropWhileD)

lemma set_strip_right: "set (strip_right P xs) \<subseteq> set xs"
  by (auto simp: strip_right_def dest: set_dropWhileD)

lemma strip_left_replicate: "t = [] \<or> hd t \<noteq> c \<Longrightarrow> strip_left (\<lambda>x. x = c) (replicate n c @ t) = t"
  by (induction n) (cases t; simp add: strip_left_def)+

lemma strip_right_replicate: "b = [] \<or> last b \<noteq> c \<Longrightarrow> strip_right (\<lambda>x. x = c) (b @ replicate m c) = b"
  using strip_left_replicate [of "rev b" c m] by (auto simp: strip_left_def strip_right_def hd_rev)

lemma strip_right_decomp: "\<exists>t. xs = strip_right P xs @ t \<and> (\<forall>x \<in> set t. P x)"
proof -
  have "xs = rev (takeWhile P (rev xs) @ dropWhile P (rev xs))" by simp
  then have "xs = strip_right P xs @ rev (takeWhile P (rev xs))"
    unfolding strip_right_def rev_append .
  moreover have "\<forall>x \<in> set (rev (takeWhile P (rev xs))). P x"
    by (auto dest: set_takeWhileD)
  ultimately show ?thesis by blast
qed

text \<open>The code units \<open>\\s\<close> matches below 256.\<close>

definition is_space :: "char \<Rightarrow> bool" where
  "is_space c \<longleftrightarrow> (of_char c :: nat) \<in> {9, 10, 11, 12, 13, 32, 160}"

definition js_trim :: "string \<Rightarrow> string" where
  "js_trim s = strip_right is_space (strip_left is_space s)"

lemma js_trim_id [str_simps]:
  assumes "s = [] \<or> \<not> is_space (hd s) \<and> \<not> is_space (last s)"
  shows "js_trim s = s"
  using assms by (auto simp: js_trim_def strip_left_id strip_right_id)

lemma set_js_trim: "set (js_trim s) \<subseteq> set s"
  unfolding js_trim_def using set_strip_left set_strip_right by fastforce

section \<open>Letter case and decimal numbers\<close>

text \<open>
  \<open>toLowerCase\<close> and \<open>toUpperCase\<close> on the ASCII letters: the code applies them to HTTP
  method and header names, which are ASCII tokens.
\<close>

definition lower_char :: "char \<Rightarrow> char" where
  "lower_char c =
     (if 65 \<le> (of_char c :: nat) \<and> (of_char c :: nat) \<le> 90 then char_of ((of_char c :: nat) + 32) else c)"

definition upper_char :: "char \<Rightarrow> char" where
  "upper_char c =
     (if 97 \<le> (of_char c :: nat) \<and> (of_char c :: nat) \<le> 122 then char_of ((of_char c :: nat) - 32) else c)"

definition to_lower :: "string \<Rightarrow> string" where
  "to_lower s = map lower_char s"

definition to_upper :: "string \<Rightarrow> string" where
  "to_upper s = map upper_char s"

lemma lower_char_idem [simp]: "lower_char (lower_char c) = lower_char c"
  by (auto simp: lower_char_def of_char_of)

lemma to_lower_idem [simp]: "to_lower (to_lower s) = to_lower s"
  by (simp add: to_lower_def)

lemma upper_char_idem [simp]: "upper_char (upper_char c) = upper_char c"
  by (auto simp: upper_char_def of_char_of)

lemma to_upper_idem [simp]: "to_upper (to_upper s) = to_upper s"
  by (simp add: to_upper_def)

definition digit_char :: "nat \<Rightarrow> char" where
  "digit_char d = char_of (48 + d)"

text \<open>\<open>String(n)\<close> for a non-negative integer.\<close>

fun show_nat :: "nat \<Rightarrow> string" where
  "show_nat n = (if n < 10 then [digit_char n] else show_nat (n div 10) @ [digit_char (n mod 10)])"

declare show_nat.simps [simp del]

definition show_int :: "int \<Rightarrow> string" where
  "show_int i = (if i < 0 then CHR ''-'' # show_nat (nat (- i)) else show_nat (nat i))"

lemma show_nat_not_Nil [simp]: "show_nat n \<noteq> []"
  by (subst show_nat.simps) simp

lemma digit_char_inj: "a < 10 \<Longrightarrow> b < 10 \<Longrightarrow> digit_char a = digit_char b \<Longrightarrow> a = b"
proof -
  assume "a < 10" "b < 10" "digit_char a = digit_char b"
  then have "(of_char (char_of (48 + a)) :: nat) = of_char (char_of (48 + b))"
    by (simp add: digit_char_def)
  with \<open>a < 10\<close> \<open>b < 10\<close> show ?thesis by (simp add: of_char_of)
qed

lemma show_nat_inj: "show_nat m = show_nat n \<Longrightarrow> m = n"
proof (induction m arbitrary: n rule: show_nat.induct)
  case (1 m)
  show ?case
  proof (cases "m < 10 \<or> n < 10")
    case True
    note len = arg_cong [OF "1.prems", of length]
    from True len have "m < 10" and "n < 10"
      by (auto simp: show_nat.simps [of m] show_nat.simps [of n] split: if_splits)
    with "1.prems" show ?thesis using digit_char_inj
      by (auto simp: show_nat.simps [of m] show_nat.simps [of n])
  next
    case False
    with "1.prems" have "show_nat (m div 10) = show_nat (n div 10)"
      and "digit_char (m mod 10) = digit_char (n mod 10)"
      by (auto simp: show_nat.simps [of m] show_nat.simps [of n])
    with False "1.IH" have "m div 10 = n div 10" and "m mod 10 = n mod 10"
      by (auto intro: digit_char_inj)
    then show ?thesis by (metis div_mult_mod_eq)
  qed
qed

section \<open>Objects: own properties in insertion order\<close>

type_synonym 'v obj = "(string \<times> 'v) list"

abbreviation oget :: "'v obj \<Rightarrow> string \<Rightarrow> 'v option" where
  "oget ob k \<equiv> map_of ob k"

abbreviation oset :: "string \<Rightarrow> 'v \<Rightarrow> 'v obj \<Rightarrow> 'v obj" where
  "oset k v ob \<equiv> AList.update k v ob"

abbreviation odel :: "string \<Rightarrow> 'v obj \<Rightarrow> 'v obj" where
  "odel k ob \<equiv> AList.delete k ob"

abbreviation okeys :: "'v obj \<Rightarrow> string list" where
  "okeys ob \<equiv> map fst ob"

lemma oget_oset [obj_simps]: "oget (oset k v ob) j = (if j = k then Some v else oget ob j)"
  by (simp add: update_conv)

lemma oget_odel [obj_simps]: "oget (odel k ob) j = (if j = k then None else oget ob j)"
  by (simp add: delete_conv')

lemma distinct_oset [obj_simps]: "distinct (okeys ob) \<Longrightarrow> distinct (okeys (oset k v ob))"
  by (rule distinct_update)

lemma distinct_odel [obj_simps]: "distinct (okeys ob) \<Longrightarrow> distinct (okeys (odel k ob))"
  by (rule distinct_delete)

lemma okeys_oset [obj_simps]:
  "okeys (oset k v ob) = (if k \<in> set (okeys ob) then okeys ob else okeys ob @ [k])"
  by (simp add: update_keys)

lemma oset_fresh [obj_simps]: "k \<notin> set (okeys ob) \<Longrightarrow> oset k v ob = ob @ [(k, v)]"
  by (induction ob) auto

text \<open>The names a plain object inherits from \<open>Object.prototype\<close>.\<close>

definition inherited_names :: "string list" where
  "inherited_names =
     [''constructor'', ''hasOwnProperty'', ''isPrototypeOf'', ''propertyIsEnumerable'', ''toLocaleString'',
      ''toString'', ''valueOf'', ''__defineGetter__'', ''__defineSetter__'', ''__lookupGetter__'',
      ''__lookupSetter__'', ''__proto__'']"

section \<open>Lists\<close>

lemma take_drop_split: "i \<le> j \<Longrightarrow> take (j - i) (drop i xs) @ drop j xs = drop i xs"
  by (metis append_take_drop_id drop_drop le_add_diff_inverse2)

lemma takeWhile_sep [str_simps]: "c \<notin> set xs \<Longrightarrow> takeWhile (\<lambda>x. x \<noteq> c) (xs @ c # ys) = xs"
  by (induction xs) auto

lemma dropWhile_sep [str_simps]: "c \<notin> set xs \<Longrightarrow> dropWhile (\<lambda>x. x \<noteq> c) (xs @ c # ys) = c # ys"
  by (induction xs) auto

lemma filter_neq_id: "a \<notin> set xs \<Longrightarrow> filter (\<lambda>x. x \<noteq> a) xs = xs"
  by (induction xs) auto

lemma nth_split: "i < length xs \<Longrightarrow> xs = take i xs @ xs ! i # drop (Suc i) xs"
  by (rule id_take_nth_drop)

section \<open>Writing and reading back\<close>

text \<open>
  The interface of a pair of functions that write a value as text and read it: what was written
  is read again, for the values the writer can express. Clients rely on different values having
  different texts, and on reading sequences of texts.
\<close>

locale codec =
  fixes writable :: "'v \<Rightarrow> bool"
    and emit :: "'v \<Rightarrow> string"
    and parse :: "string \<Rightarrow> 'v option"
  assumes parse_emit: "writable x \<Longrightarrow> parse (emit x) = Some x"
begin

lemma emit_inj: "writable x \<Longrightarrow> writable y \<Longrightarrow> emit x = emit y \<longleftrightarrow> x = y"
  using parse_emit by (metis option.inject)

lemma parse_all: "\<forall>x \<in> set xs. writable x \<Longrightarrow> map parse (map emit xs) = map Some xs"
  by (induction xs) (simp_all add: parse_emit)

end

end
