(* ===== verification/JsValue.thy ===== *)
theory JsValue
  imports Prelude
begin

text \<open>
  The JavaScript values the front end's HTTP layer passes around, as plain data: objects are
  association lists in insertion order with distinct keys, functions are names that an
  environment interprets, numbers are integers (status codes, timeouts, row numbers). The
  utilities of axios (\<open>chunk-vendors.ddcb6f91.js\<close>, module \<open>c532\<close>) over them: \<open>isObject\<close>,
  \<open>forEach\<close>, \<open>merge\<close>, \<open>extend\<close> and \<open>trim\<close>, and what a deep merge computes key by key.
  The key \<open>__proto__\<close>, which JavaScript treats specially, is outside the model.
\<close>

datatype jv =
    Undef
  | Null
  | Bool bool
  | Num int
  | Str string
  | Fn nat
  | Date string
  | Arr "jv list"
  | Obj "(string \<times> jv) list"

abbreviation getp :: "jv obj \<Rightarrow> string \<Rightarrow> jv" where
  "getp ob k \<equiv> (case map_of ob k of Some v \<Rightarrow> v | None \<Rightarrow> Undef)"

text \<open>Property read \<open>e[k]\<close>; reading a property of \<open>undefined\<close> or \<open>null\<close> raises, which the
  callers below exclude by their own guards.\<close>

fun getv :: "jv \<Rightarrow> string \<Rightarrow> jv" where
  "getv (Obj ob) k = getp ob k"
| "getv _ k = Undef"

fun truthy :: "jv \<Rightarrow> bool" where
  "truthy Undef = False"
| "truthy Null = False"
| "truthy (Bool b) = b"
| "truthy (Num n) = (n \<noteq> 0)"
| "truthy (Str s) = (s \<noteq> [])"
| "truthy _ = True"

fun typeof_object :: "jv \<Rightarrow> bool" where
  "typeof_object Null = True"
| "typeof_object (Date _) = True"
| "typeof_object (Arr _) = True"
| "typeof_object (Obj _) = True"
| "typeof_object _ = False"

definition is_object :: "jv \<Rightarrow> bool" where
  "is_object v \<longleftrightarrow> v \<noteq> Null \<and> typeof_object v"

fun is_array :: "jv \<Rightarrow> bool" where
  "is_array (Arr _) = True"
| "is_array _ = False"

fun is_plain :: "jv \<Rightarrow> bool" where
  "is_plain (Obj _) = True"
| "is_plain _ = False"

text \<open>\<open>trim\<close> of the axios utilities: two anchored replacements.\<close>

definition util_trim :: "string \<Rightarrow> string" where
  "util_trim e = strip_right is_space (strip_left is_space e)"

lemma util_trim_eq: "util_trim e = js_trim e"
  by (simp add: util_trim_def js_trim_def)

text \<open>
  \<open>forEach(e, t)\<close> calls \<open>t\<close> with each value and its key: nothing for \<open>null\<close> and
  \<open>undefined\<close>, a value that is not an object as a one-element array, array elements with
  their index, and the own properties of any other object.
\<close>

definition enum_entries :: "jv list \<Rightarrow> (string \<times> jv) list" where
  "enum_entries xs = map (\<lambda>i. (show_nat i, xs ! i)) [0..<length xs]"

fun each :: "jv \<Rightarrow> (string \<times> jv) list" where
  "each Undef = []"
| "each Null = []"
| "each (Arr xs) = enum_entries xs"
| "each (Obj ob) = ob"
| "each (Date _) = []"
| "each v = enum_entries [v]"

lemma distinct_enum_entries [simp]: "distinct (okeys (enum_entries xs))"
  by (auto simp: enum_entries_def distinct_map inj_on_def dest: show_nat_inj)

text \<open>The weight of a value: it bounds the entries inside, for termination.\<close>

fun weight :: "jv \<Rightarrow> nat" where
  "weight (Arr xs) = Suc (sum_list (map (\<lambda>x. Suc (weight x)) xs))"
| "weight (Obj ob) = Suc (sum_list (map (\<lambda>p. Suc (weight (snd p))) ob))"
| "weight _ = 1"

definition entries_weight :: "(string \<times> jv) list \<Rightarrow> nat" where
  "entries_weight es = sum_list (map (\<lambda>p. Suc (weight (snd p))) es)"

lemma entries_weight_Cons [simp]:
  "entries_weight ((n, t) # es) = Suc (weight t) + entries_weight es"
  by (simp add: entries_weight_def)

lemma entries_weight_enum: "entries_weight (enum_entries xs) = sum_list (map (\<lambda>x. Suc (weight x)) xs)"
proof -
  have "map (\<lambda>p. Suc (weight (snd p))) (enum_entries xs) = map (\<lambda>x. Suc (weight x)) xs"
    by (auto simp: enum_entries_def o_def intro: nth_equalityI)
  then show ?thesis by (simp only: entries_weight_def)
qed

lemma entries_weight_each: "typeof_object v \<Longrightarrow> entries_weight (each v) \<le> weight v"
  by (cases v) (auto simp: entries_weight_enum, auto simp: entries_weight_def)

text \<open>
  \<open>merge\<close>: every argument's entries are written into one result. Where the result has an
  object already and the new value is an object too, the code writes \<open>merge(e[n], t)\<close>; the
  first of the two passes of that inner call finds every key of the fresh object undefined
  (an object has each key once), so it copies the entries.
\<close>

definition copy_entries :: "jv \<Rightarrow> jv obj" where
  "copy_entries v = fold (\<lambda>(k, x). oset k x) (each v) []"

function merge_into :: "jv obj \<Rightarrow> (string \<times> jv) list \<Rightarrow> jv obj" where
  "merge_into acc [] = acc"
| "merge_into acc ((n, t) # es) =
     merge_into
       (oset n (if typeof_object (getp acc n) \<and> typeof_object t
                then Obj (merge_into (copy_entries (getp acc n)) (each t))
                else t) acc)
       es"
  by pat_completeness auto
termination
  by (relation "measure (\<lambda>(acc, es). entries_weight es)")
     (auto dest: entries_weight_each)

definition merge :: "jv list \<Rightarrow> jv" where
  "merge args = Obj (foldl (\<lambda>acc a. merge_into acc (each a)) [] args)"

text \<open>\<open>extend(e, t)\<close> without a receiver: the entries of \<open>t\<close> overwrite those of \<open>e\<close>.\<close>

definition extend :: "jv obj \<Rightarrow> jv \<Rightarrow> jv obj" where
  "extend e t = fold (\<lambda>(k, v). oset k v) (each t) e"

section \<open>Well-formed values\<close>

text \<open>No object has a key twice.\<close>

fun wf_jv :: "jv \<Rightarrow> bool" where
  "wf_jv (Arr xs) = (\<forall>x \<in> set xs. wf_jv x)"
| "wf_jv (Obj ob) = (distinct (okeys ob) \<and> (\<forall>p \<in> set ob. wf_jv (snd p)))"
| "wf_jv _ = True"

definition wf_obj :: "jv obj \<Rightarrow> bool" where
  "wf_obj ob \<longleftrightarrow> wf_jv (Obj ob)"

lemma wf_obj_Nil [simp]: "wf_obj []"
  by (simp add: wf_obj_def)

lemma wf_getp: "wf_obj ob \<Longrightarrow> wf_jv (getp ob k)"
  by (auto simp: wf_obj_def split: option.splits dest!: map_of_SomeD)

lemma set_oset: "set (oset k v ob) \<subseteq> insert (k, v) (set ob)"
  by (induction ob) auto

lemma wf_oset [obj_simps]: "wf_obj ob \<Longrightarrow> wf_jv v \<Longrightarrow> wf_obj (oset k v ob)"
  using set_oset [of k v ob] by (fastforce simp: wf_obj_def distinct_update)

lemma wf_odel [obj_simps]: "wf_obj ob \<Longrightarrow> wf_obj (odel k ob)"
  using distinct_delete [of ob k] by (auto simp: wf_obj_def AList.delete_eq)

lemma wf_each: "wf_jv v \<Longrightarrow> wf_obj (each v)"
proof (cases v)
  case (Arr xs)
  assume "wf_jv v"
  with Arr have "\<forall>p \<in> set (enum_entries xs). wf_jv (snd p)" by (auto simp: enum_entries_def)
  then show ?thesis using Arr by (simp add: wf_obj_def)
next
  case (Obj ob)
  assume "wf_jv v"
  with Obj show ?thesis by (simp add: wf_obj_def)
qed (simp_all add: wf_obj_def enum_entries_def)

lemma fold_oset_fresh:
  "distinct (okeys (acc @ es)) \<Longrightarrow> fold (\<lambda>(k, x). oset k x) es acc = acc @ es"
proof (induction es arbitrary: acc)
  case Nil
  then show ?case by simp
next
  case (Cons e es)
  obtain k x where e: "e = (k, x)" by (cases e)
  with Cons.prems have "oset k x acc = acc @ [(k, x)]" by (intro oset_fresh) auto
  then show ?case using Cons e by simp
qed

lemma copy_entries_wf: "wf_jv v \<Longrightarrow> copy_entries v = each v"
  using wf_each [of v] by (simp add: copy_entries_def fold_oset_fresh wf_obj_def)

lemma wf_merge_into: "wf_obj acc \<Longrightarrow> wf_obj es \<Longrightarrow> wf_obj (merge_into acc es)"
proof (induction acc es rule: merge_into.induct)
  case (1 acc)
  then show ?case by simp
next
  case (2 acc n t es)
  let ?o = "typeof_object (getp acc n) \<and> typeof_object t"
  have t: "wf_jv t" and es: "wf_obj es" using "2.prems"(2) by (auto simp: wf_obj_def)
  have g: "wf_jv (getp acc n)" using "2.prems"(1) by (rule wf_getp)
  have "?o \<Longrightarrow> wf_obj (merge_into (copy_entries (getp acc n)) (each t))"
    using "2.IH"(1) g t by (simp add: copy_entries_wf wf_each)
  then have "wf_jv (if ?o then Obj (merge_into (copy_entries (getp acc n)) (each t)) else t)"
    using t by (auto simp: wf_obj_def)
  then show ?case using "2.IH"(2) "2.prems"(1) es by (simp add: wf_oset)
qed

section \<open>What a merge computes\<close>

text \<open>The value under a key both sides have.\<close>

definition merge_value :: "jv \<Rightarrow> jv \<Rightarrow> jv" where
  "merge_value a t =
     (if typeof_object a \<and> typeof_object t then Obj (merge_into (copy_entries a) (each t)) else t)"

lemma merge_into_Cons: "merge_into acc ((n, t) # es) = merge_into (oset n (merge_value (getp acc n) t) acc) es"
  by (simp add: merge_value_def)

lemma getp_oset: "getp (oset k v ob) j = (if j = k then v else getp ob j)"
  by (simp add: obj_simps)

lemma oget_merge_into:
  "distinct (okeys es) \<Longrightarrow>
     oget (merge_into acc es) k
       = (case oget es k of None \<Rightarrow> oget acc k | Some t \<Rightarrow> Some (merge_value (getp acc k) t))"
proof (induction es arbitrary: acc)
  case Nil
  then show ?case by simp
next
  case (Cons e es)
  obtain n t where e: "e = (n, t)" by (cases e)
  with Cons.prems have n: "oget es n = None" by (simp add: map_of_eq_None_iff)
  show ?case
    unfolding e merge_into_Cons
    using Cons.IH [of "oset n (merge_value (getp acc n) t) acc"] Cons.prems n e
    by (auto simp: obj_simps split: option.splits)
qed

lemma merge_into_fresh: "distinct (okeys es) \<Longrightarrow> merge_into [] es = es"
proof -
  have "distinct (okeys (acc @ es)) \<Longrightarrow> merge_into acc es = acc @ es" for acc
  proof (induction es arbitrary: acc)
    case Nil
    then show ?case by simp
  next
    case (Cons e es)
    obtain n t where e: "e = (n, t)" by (cases e)
    with Cons.prems have n: "n \<notin> set (okeys acc)" by auto
    then have "oget acc n = None" by (simp add: map_of_eq_None_iff)
    then have g: "getp acc n = Undef" by simp
    have "merge_into acc (e # es) = merge_into (acc @ [(n, t)]) es"
      unfolding e merge_into_Cons using n g by (simp add: merge_value_def oset_fresh)
    with Cons.IH [of "acc @ [(n, t)]"] Cons.prems e show ?case by simp
  qed
  from this [of "[]"] show "distinct (okeys es) \<Longrightarrow> merge_into [] es = es" by simp
qed

lemma merge_two:
  "wf_jv a \<Longrightarrow> merge [a, b] = Obj (merge_into (each a) (each b))"
  using wf_each [of a] by (simp add: merge_def merge_into_fresh wf_obj_def)

lemma oget_merge_two:
  assumes "wf_jv (Obj a)" and "wf_jv (Obj b)"
  shows "\<exists>c. merge [Obj a, Obj b] = Obj c \<and> wf_jv (Obj c) \<and>
    (\<forall>k. oget c k = (case oget b k of
                       None \<Rightarrow> oget a k
                     | Some t \<Rightarrow> Some (merge_value (getp a k) t)))"
proof (intro exI conjI allI)
  show "merge [Obj a, Obj b] = Obj (merge_into a b)" using assms(1) by (simp add: merge_two)
  show "wf_jv (Obj (merge_into a b))"
    using assms wf_merge_into [of a b] by (simp add: wf_obj_def)
  show "oget (merge_into a b) k = (case oget b k of None \<Rightarrow> oget a k
            | Some t \<Rightarrow> Some (merge_value (getp a k) t))" for k
    using assms(2) by (simp add: oget_merge_into)
qed

text \<open>The value at the end of a path of property names.\<close>

fun at_path :: "jv \<Rightarrow> string list \<Rightarrow> jv option" where
  "at_path v [] = Some v"
| "at_path (Obj ob) (k # ks) = (case oget ob k of None \<Rightarrow> None | Some v \<Rightarrow> at_path v ks)"
| "at_path _ (k # ks) = None"

lemma merge_value_plain:
  "wf_jv (Obj a) \<Longrightarrow> merge_value (Obj a) (Obj b) = Obj (merge_into a b)"
  by (simp add: merge_value_def copy_entries_wf)

lemma at_path_merge_into_right:
  assumes "wf_obj a" and "wf_obj b" and "ks \<noteq> []"
    and "at_path (Obj b) ks = Some v" and "\<not> typeof_object v"
  shows "at_path (Obj (merge_into a b)) ks = Some v"
  using assms
proof (induction ks arbitrary: a b)
  case Nil
  then show ?case by simp
next
  case (Cons k ks)
  then obtain t where t: "oget b k = Some t" and ks: "at_path t ks = Some v"
    by (auto split: option.splits)
  have m: "oget (merge_into a b) k = Some (merge_value (getp a k) t)"
    using Cons.prems(2) t by (simp add: oget_merge_into wf_obj_def)
  show ?case
  proof (cases "ks = []")
    case True
    then show ?thesis using ks m Cons.prems(5) by (simp add: merge_value_def)
  next
    case False
    then obtain b' where b': "t = Obj b'" using ks by (cases t; cases ks) auto
    have wb': "wf_obj b'" using Cons.prems(2) t b' wf_getp [of b k] by (simp add: wf_obj_def)
    have wa': "wf_jv (getp a k)" using Cons.prems(1) by (rule wf_getp)
    show ?thesis
    proof (cases "typeof_object (getp a k)")
      case True
      then have "merge_value (getp a k) t = Obj (merge_into (each (getp a k)) b')"
        using wa' b' by (simp add: merge_value_def copy_entries_wf)
      then show ?thesis
        using Cons.IH [of "each (getp a k)" b'] m wb' wa' ks b' False Cons.prems(5)
        by (simp add: wf_each)
    next
      case False
      then show ?thesis using m ks by (simp add: merge_value_def)
    qed
  qed
qed

lemma at_path_merge_into_left:
  assumes "wf_obj a" and "wf_obj b"
    and "at_path (Obj a) ks = Some v" and "ks \<noteq> []"
    and "at_path (Obj b) ks = None"
    and "\<And>ps qs. ks = ps @ qs \<Longrightarrow> at_path (Obj b) ps = None \<or> (\<exists>o'. at_path (Obj b) ps = Some (Obj o'))"
  shows "at_path (Obj (merge_into a b)) ks = Some v"
  using assms
proof (induction ks arbitrary: a b)
  case Nil
  then show ?case by simp
next
  case (Cons k ks)
  then obtain u where u: "oget a k = Some u" and ks: "at_path u ks = Some v"
    by (auto split: option.splits)
  show ?case
  proof (cases "oget b k")
    case None
    then show ?thesis using u ks Cons.prems(2) by (simp add: oget_merge_into wf_obj_def)
  next
    case (Some t)
    have "at_path (Obj b) [k] = None \<or> (\<exists>o'. at_path (Obj b) [k] = Some (Obj o'))"
      using Cons.prems(6) [of "[k]" ks] by simp
    then obtain b' where b': "t = Obj b'" using Some by auto
    have ne: "ks \<noteq> []" using Cons.prems(5) Some by auto
    then obtain a' where a': "u = Obj a'" using ks by (cases u; cases ks) auto
    have "wf_obj a'" using Cons.prems(1) u a' wf_getp [of a k] by (simp add: wf_obj_def)
    moreover have "wf_obj b'" using Cons.prems(2) Some b' wf_getp [of b k] by (simp add: wf_obj_def)
    moreover have "at_path (Obj b') ks = None" using Cons.prems(5) Some b' by simp
    moreover have "at_path (Obj b') ps = None \<or> (\<exists>o'. at_path (Obj b') ps = Some (Obj o'))"
      if "ks = ps @ qs" for ps qs
      using Cons.prems(6) [of "k # ps" qs] that Some b' by simp
    ultimately have "at_path (Obj (merge_into a' b')) ks = Some v"
      using Cons.IH [of a' b'] ks ne a' by blast
    moreover have "oget (merge_into a b) k = Some (Obj (merge_into a' b'))"
      using Cons.prems(1,2) Some u a' b' wf_getp [of a k]
      by (simp add: oget_merge_into wf_obj_def merge_value_plain)
    ultimately show ?thesis by simp
  qed
qed

end
