(* ===== verification/Json.thy ===== *)
theory Json
  imports JsValue
begin

text \<open>
  \<open>JSON.stringify\<close> and \<open>JSON.parse\<close>, the two functions of the standard library that carry
  data between the front end and its server, on the values of \<open>JsValue\<close>: integers as the
  only numbers and code units below 256. Parsing takes fuel; the length of the text is enough.
  The main lemma is that parsing gives back what was printed.
\<close>

section \<open>Printing\<close>

definition hex_char :: "nat \<Rightarrow> char" where
  "hex_char d = (if d < 10 then char_of (48 + d) else char_of (55 + d))"

definition hex_value :: "char \<Rightarrow> nat option" where
  "hex_value c =
     (let n = of_char c :: nat in
      if 48 \<le> n \<and> n \<le> 57 then Some (n - 48)
      else if 65 \<le> n \<and> n \<le> 70 then Some (n - 55)
      else if 97 \<le> n \<and> n \<le> 102 then Some (n - 87)
      else None)"

abbreviation dquote :: char where "dquote \<equiv> CHR 0x22"
abbreviation bslash :: char where "bslash \<equiv> CHR 0x5C"

definition quote_char :: "char \<Rightarrow> string" where
  "quote_char c =
     (let n = of_char c :: nat in
      if c = dquote \<or> c = bslash then [bslash, c]
      else if n = 8 then [bslash, CHR ''b'']
      else if n = 9 then [bslash, CHR ''t'']
      else if n = 10 then [bslash, CHR ''n'']
      else if n = 12 then [bslash, CHR ''f'']
      else if n = 13 then [bslash, CHR ''r'']
      else if n < 32 then [bslash, CHR ''u'', CHR ''0'', CHR ''0'', hex_char (n div 16), hex_char (n mod 16)]
      else [c])"

definition quote_str :: "string \<Rightarrow> string" where
  "quote_str s = dquote # concat (map quote_char s) @ [dquote]"

fun json_omitted :: "jv \<Rightarrow> bool" where
  "json_omitted Undef = True"
| "json_omitted (Fn _) = True"
| "json_omitted _ = False"

fun json_text :: "jv \<Rightarrow> string" where
  "json_text Undef = ''null''"
| "json_text (Fn _) = ''null''"
| "json_text Null = ''null''"
| "json_text (Bool b) = (if b then ''true'' else ''false'')"
| "json_text (Num n) = show_int n"
| "json_text (Str s) = quote_str s"
| "json_text (Date s) = quote_str s"
| "json_text (Arr xs) = ''['' @ join_with '','' (map json_text xs) @ '']''"
| "json_text (Obj ob) =
     ''{'' @ join_with '',''
       (map (\<lambda>(k, t). quote_str k @ '':'' @ t)
         (map (\<lambda>p. (fst p, json_text (snd p))) (filter (\<lambda>p. \<not> json_omitted (snd p)) ob))) @ ''}''"

text \<open>The call itself gives \<open>undefined\<close> for a value it omits.\<close>

definition json_stringify :: "jv \<Rightarrow> jv" where
  "json_stringify v = (if json_omitted v then Undef else Str (json_text v))"

section \<open>Parsing\<close>

definition json_space :: "char \<Rightarrow> bool" where
  "json_space c \<longleftrightarrow> (of_char c :: nat) \<in> {9, 10, 13, 32}"

definition skip_ws :: "string \<Rightarrow> string" where
  "skip_ws s = dropWhile json_space s"

definition is_digit :: "char \<Rightarrow> bool" where
  "is_digit c \<longleftrightarrow> 48 \<le> (of_char c :: nat) \<and> (of_char c :: nat) \<le> 57"

definition digits_value :: "string \<Rightarrow> nat" where
  "digits_value ds = foldl (\<lambda>n c. 10 * n + (of_char c - 48)) 0 ds"

text \<open>An integer literal; a leading zero stands alone, and a fraction or exponent is refused.\<close>

definition parse_nat :: "string \<Rightarrow> (nat \<times> string) option" where
  "parse_nat s =
     (let ds = takeWhile is_digit s; r = dropWhile is_digit s in
      if ds = [] \<or> (hd ds = CHR ''0'' \<and> tl ds \<noteq> []) then None
      else if r \<noteq> [] \<and> (hd r = CHR ''.'' \<or> hd r = CHR ''e'' \<or> hd r = CHR ''E'') then None
      else Some (digits_value ds, r))"

fun escape_value :: "char \<Rightarrow> nat option" where
  "escape_value c =
     (if c = dquote then Some 34 else if c = bslash then Some 92
      else if c = CHR ''/'' then Some 47 else if c = CHR ''b'' then Some 8
      else if c = CHR ''t'' then Some 9 else if c = CHR ''n'' then Some 10
      else if c = CHR ''f'' then Some 12 else if c = CHR ''r'' then Some 13 else None)"

declare escape_value.simps [simp del]

fun unescape :: "string \<Rightarrow> (char \<times> string) option" where
  "unescape [] = None"
| "unescape (c # s) =
     (if c = CHR ''u'' then
        (case s of
           a # b # d # e # s' \<Rightarrow>
             (case (hex_value a, hex_value b, hex_value d, hex_value e) of
                (Some 0, Some 0, Some x, Some y) \<Rightarrow> Some (char_of (16 * x + y), s')
              | _ \<Rightarrow> None)
         | _ \<Rightarrow> None)
      else map_option (\<lambda>n. (char_of n, s)) (escape_value c))"

fun parse_chars :: "nat \<Rightarrow> string \<Rightarrow> (string \<times> string) option" where
  "parse_chars 0 s = None"
| "parse_chars (Suc f) [] = None"
| "parse_chars (Suc f) (c # s) =
     (if c = dquote then Some ([], s)
      else if c = bslash then
        (case unescape s of
           None \<Rightarrow> None
         | Some (x, s') \<Rightarrow> map_option (\<lambda>(xs, r). (x # xs, r)) (parse_chars f s'))
      else if (of_char c :: nat) < 32 then None
      else map_option (\<lambda>(xs, r). (c # xs, r)) (parse_chars f s))"

fun after_char :: "char \<Rightarrow> string \<Rightarrow> string option" where
  "after_char c [] = None"
| "after_char c (x # s) = (if x = c then Some s else None)"

fun after_word :: "string \<Rightarrow> string \<Rightarrow> string option" where
  "after_word [] s = Some s"
| "after_word (c # w) s = Option.bind (after_char c s) (after_word w)"

fun parse_value :: "nat \<Rightarrow> string \<Rightarrow> (jv \<times> string) option"
  and parse_elems :: "nat \<Rightarrow> string \<Rightarrow> (jv list \<times> string) option"
  and parse_members :: "nat \<Rightarrow> jv obj \<Rightarrow> string \<Rightarrow> (jv obj \<times> string) option" where
  "parse_value 0 s = None"
| "parse_value (Suc f) s =
     (case skip_ws s of
        [] \<Rightarrow> None
      | c # r \<Rightarrow>
        if c = dquote then map_option (\<lambda>(x, r'). (Str x, r')) (parse_chars (Suc (length r)) r)
        else if c = CHR ''['' then
          (case after_char (CHR '']'') (skip_ws r) of
             Some r' \<Rightarrow> Some (Arr [], r')
           | None \<Rightarrow> map_option (\<lambda>(xs, r'). (Arr xs, r')) (parse_elems f r))
        else if c = CHR ''{'' then
          (case after_char (CHR ''}'') (skip_ws r) of
             Some r' \<Rightarrow> Some (Obj [], r')
           | None \<Rightarrow> map_option (\<lambda>(ob, r'). (Obj ob, r')) (parse_members f [] r))
        else if c = CHR ''-'' then map_option (\<lambda>(n, r'). (Num (- int n), r')) (parse_nat r)
        else if is_digit c then map_option (\<lambda>(n, r'). (Num (int n), r')) (parse_nat (c # r))
        else if c = CHR ''t'' then map_option (\<lambda>r'. (Bool True, r')) (after_word ''rue'' r)
        else if c = CHR ''f'' then map_option (\<lambda>r'. (Bool False, r')) (after_word ''alse'' r)
        else if c = CHR ''n'' then map_option (\<lambda>r'. (Null, r')) (after_word ''ull'' r)
        else None)"
| "parse_elems 0 s = None"
| "parse_elems (Suc f) s =
     (case parse_value f s of
        None \<Rightarrow> None
      | Some (v, r) \<Rightarrow>
        (case skip_ws r of
           [] \<Rightarrow> None
         | c # r' \<Rightarrow>
           if c = CHR '','' then map_option (\<lambda>(vs, q). (v # vs, q)) (parse_elems f r')
           else if c = CHR '']'' then Some ([v], r')
           else None))"
| "parse_members 0 ob s = None"
| "parse_members (Suc f) ob s =
     (case after_char dquote (skip_ws s) of
        None \<Rightarrow> None
      | Some q \<Rightarrow>
        (case parse_chars (Suc (length q)) q of
           None \<Rightarrow> None
         | Some (k, r) \<Rightarrow>
           (case after_char (CHR '':'') (skip_ws r) of
              None \<Rightarrow> None
            | Some r1 \<Rightarrow>
              (case parse_value f r1 of
                 None \<Rightarrow> None
               | Some (v, r2) \<Rightarrow>
                 (case skip_ws r2 of
                    [] \<Rightarrow> None
                  | c # r3 \<Rightarrow>
                    if c = CHR '','' then parse_members f (oset k v ob) r3
                    else if c = CHR ''}'' then Some (oset k v ob, r3)
                    else None)))))"

definition json_parse :: "string \<Rightarrow> jv option" where
  "json_parse s =
     (case parse_value (Suc (length s)) s of
        Some (v, r) \<Rightarrow> if skip_ws r = [] then Some v else None
      | None \<Rightarrow> None)"

section \<open>Parsing what was printed\<close>

text \<open>The values JSON carries.\<close>

fun json_value :: "jv \<Rightarrow> bool" where
  "json_value Null = True"
| "json_value (Bool _) = True"
| "json_value (Num _) = True"
| "json_value (Str _) = True"
| "json_value (Arr xs) = (\<forall>x \<in> set xs. json_value x)"
| "json_value (Obj ob) = (distinct (okeys ob) \<and> (\<forall>p \<in> set ob. json_value (snd p)))"
| "json_value _ = False"

lemma hex_value_char [simp]: "d < 16 \<Longrightarrow> hex_value (hex_char d) = Some d"
  by (auto simp: hex_value_def hex_char_def of_char_of Let_def)

lemma of_char_eqD: "of_char c = (of_char d :: nat) \<Longrightarrow> c = d"
  by (simp only: of_char_eq_iff)

lemma control_chars:
  "of_char c = (8::nat) \<Longrightarrow> c = CHR 0x08" "of_char c = (9::nat) \<Longrightarrow> c = CHR 0x09"
  "of_char c = (10::nat) \<Longrightarrow> c = CHR 0x0A" "of_char c = (12::nat) \<Longrightarrow> c = CHR 0x0C"
  "of_char c = (13::nat) \<Longrightarrow> c = CHR 0x0D"
  by (rule of_char_eqD; simp)+

lemma escape_values [simp]:
  "escape_value dquote = Some 34" "escape_value bslash = Some 92" "escape_value (CHR ''b'') = Some 8"
  "escape_value (CHR ''t'') = Some 9" "escape_value (CHR ''n'') = Some 10"
  "escape_value (CHR ''f'') = Some 12" "escape_value (CHR ''r'') = Some 13"
  by (simp_all add: escape_value.simps)

lemma char_of_controls [simp]:
  "char_of (34::nat) = dquote" "char_of (92::nat) = bslash" "char_of (8::nat) = CHR 0x08"
  "char_of (9::nat) = CHR 0x09" "char_of (10::nat) = CHR 0x0A" "char_of (12::nat) = CHR 0x0C"
  "char_of (13::nat) = CHR 0x0D"
  by code_simp+

lemma parse_chars_quote:
  "parse_chars (Suc f) (quote_char c @ t) = map_option (\<lambda>(xs, r). (c # xs, r)) (parse_chars f t)"
proof -
  let ?n = "of_char c :: nat"
  consider "c \<in> {dquote, bslash, CHR 0x08, CHR 0x09, CHR 0x0A, CHR 0x0C, CHR 0x0D}"
    | "?n < 32" "?n \<notin> {8, 9, 10, 12, 13}" "c \<noteq> dquote" "c \<noteq> bslash"
    | "32 \<le> ?n" "c \<noteq> dquote" "c \<noteq> bslash"
    using control_chars [of c] by (cases "?n < 32") auto
  then show ?thesis
  proof cases
    case 1
    then show ?thesis by (auto simp: quote_char_def Let_def)
  next
    case 2
    have "?n div 16 < 16" and "?n mod 16 < 16" using 2(1) by auto
    moreover have "hex_value (CHR ''0'') = Some 0" by (simp add: hex_value_def)
    moreover have "char_of (16 * (?n div 16) + ?n mod 16) = c" by simp
    ultimately show ?thesis using 2
      by (simp add: quote_char_def Let_def del: mult_div_mod_eq)
  next
    case 3
    then show ?thesis by (auto simp: quote_char_def Let_def)
  qed
qed

lemma parse_chars_quoted:
  "length s < f \<Longrightarrow> parse_chars f (concat (map quote_char s) @ dquote # r) = Some (s, r)"
proof (induction s arbitrary: f)
  case Nil
  then show ?case by (cases f) auto
next
  case (Cons c s)
  then obtain g where "f = Suc g" and "length s < g" by (cases f) auto
  then show ?case using Cons.IH [of g] by (simp add: parse_chars_quote)
qed

lemma length_quote: "length s \<le> length (concat (map quote_char s))"
  by (induction s) (auto simp: quote_char_def Let_def)

lemma parse_quoted: "parse_chars (Suc (length (concat (map quote_char s) @ dquote # r)))
    (concat (map quote_char s) @ dquote # r) = Some (s, r)"
  using length_quote [of s] by (intro parse_chars_quoted) simp

subsection \<open>Numbers\<close>

lemma of_digit_char [simp]: "d < 10 \<Longrightarrow> of_char (digit_char d) = (48 + d :: nat)"
  by (simp add: digit_char_def of_char_of)

lemma is_digit_digit_char [simp]: "d < 10 \<Longrightarrow> is_digit (digit_char d)"
  by (simp add: is_digit_def)

lemma show_nat_digits: "c \<in> set (show_nat n) \<Longrightarrow> is_digit c"
proof (induction n arbitrary: c rule: show_nat.induct)
  case (1 n)
  then show ?case by (subst (asm) show_nat.simps) (auto split: if_splits)
qed

lemma digits_value_show: "digits_value (show_nat n) = n"
proof (induction n rule: show_nat.induct)
  case (1 n)
  then show ?case by (subst show_nat.simps) (auto simp: digits_value_def)
qed

lemma digit_char_zero: "d < 10 \<Longrightarrow> digit_char d = CHR ''0'' \<Longrightarrow> d = 0"
proof -
  assume "d < 10" "digit_char d = CHR ''0''"
  then have "of_char (digit_char d) = (of_char (CHR ''0'') :: nat)" by simp
  with \<open>d < 10\<close> show ?thesis by simp
qed

lemma hd_show_nat: "0 < n \<Longrightarrow> hd (show_nat n) \<noteq> CHR ''0''"
proof (induction n rule: show_nat.induct)
  case (1 n)
  then show ?case using digit_char_zero [of n]
    by (subst show_nat.simps) (auto simp: hd_append)
qed

lemma show_nat_zero: "show_nat 0 = ''0''"
  by code_simp

definition ends_number :: "string \<Rightarrow> bool" where
  "ends_number r \<longleftrightarrow> r = [] \<or> \<not> is_digit (hd r) \<and> hd r \<notin> {CHR ''.'', CHR ''e'', CHR ''E''}"

lemma parse_nat_show:
  assumes "ends_number r"
  shows "parse_nat (show_nat n @ r) = Some (n, r)"
proof -
  have tw: "takeWhile is_digit (show_nat n @ r) = show_nat n"
    and dw: "dropWhile is_digit (show_nat n @ r) = r"
    using assms show_nat_digits
    by (cases r; auto simp: ends_number_def takeWhile_append2 dropWhile_append2)+
  have "\<not> (hd (show_nat n) = CHR ''0'' \<and> tl (show_nat n) \<noteq> [])"
    using hd_show_nat [of n] by (cases "n = 0") (auto simp: show_nat_zero)
  then show ?thesis using assms
    by (auto simp: parse_nat_def tw dw digits_value_show ends_number_def Let_def)
qed

subsection \<open>Values\<close>

definition plain_start :: "char \<Rightarrow> bool" where
  "plain_start c \<longleftrightarrow> \<not> json_space c \<and> c \<noteq> CHR '']'' \<and> c \<noteq> CHR ''}''"

lemma digit_plain_start: "is_digit c \<Longrightarrow> plain_start c \<and> c \<noteq> dquote \<and> c \<noteq> CHR ''['' \<and> c \<noteq> CHR ''{'' \<and> c \<noteq> CHR ''-''"
  by (auto simp: plain_start_def is_digit_def json_space_def )

lemma show_nat_start: "\<exists>c s. show_nat n = c # s \<and> is_digit c"
  using show_nat_digits [of _ n] by (cases "show_nat n") auto

lemma json_text_start:
  "json_value v \<Longrightarrow> \<exists>c s. json_text v = c # s \<and> plain_start c"
proof (cases v)
  case (Num n)
  then show ?thesis using show_nat_start [of "nat n"]
    by (auto simp: show_int_def dest: digit_plain_start) (auto simp: plain_start_def json_space_def)
qed (auto simp: plain_start_def json_space_def quote_str_def )

lemma skip_ws_text:
  "json_value v \<Longrightarrow> skip_ws (json_text v @ r) = json_text v @ r"
  using json_text_start [of v] by (auto simp: skip_ws_def plain_start_def)

lemma skip_ws_Cons [simp]: "\<not> json_space c \<Longrightarrow> skip_ws (c # s) = c # s"
  by (simp add: skip_ws_def)

lemma json_space_simps [simp]:
  "\<not> json_space (CHR '','')" "\<not> json_space (CHR '']'')" "\<not> json_space (CHR ''}'')"
  "\<not> json_space (CHR '':'')" "\<not> json_space dquote" "\<not> json_space (CHR ''['')" "\<not> json_space (CHR ''{'')"
  by (simp_all add: json_space_def )

lemma ends_number_simps [simp]:
  "ends_number []" "ends_number (CHR '','' # s)" "ends_number (CHR '']'' # s)" "ends_number (CHR ''}'' # s)"
  by (simp_all add: ends_number_def is_digit_def)

text \<open>A value parses back in every context that cannot be read as more of a number.\<close>

definition reparses :: "jv \<Rightarrow> bool" where
  "reparses v \<longleftrightarrow> (\<forall>f r. length (json_text v) \<le> f \<longrightarrow> ends_number r \<longrightarrow>
      parse_value f (json_text v @ r) = Some (v, r))"

lemma reparsesD:
  "reparses v \<Longrightarrow> length (json_text v) \<le> f \<Longrightarrow> ends_number r \<Longrightarrow>
     parse_value f (json_text v @ r) = Some (v, r)"
  by (auto simp: reparses_def)

lemma parse_elems_text:
  assumes "xs \<noteq> []" and "\<forall>x \<in> set xs. reparses x"
    and "length (join_with '','' (map json_text xs)) < f"
  shows "parse_elems f (join_with '','' (map json_text xs) @ CHR '']'' # r) = Some (xs, r)"
  using assms
proof (induction xs arbitrary: f)
  case Nil
  then show ?case by simp
next
  case (Cons x xs)
  from Cons.prems(3) obtain g where f: "f = Suc g" by (cases f) auto
  show ?case
  proof (cases "xs = []")
    case True
    with Cons.prems f show ?thesis by (simp add: reparsesD)
  next
    case False
    have j: "join_with '','' (map json_text (x # xs)) @ CHR '']'' # r
        = json_text x @ CHR '','' # (join_with '','' (map json_text xs) @ CHR '']'' # r)"
      using False by (simp add: join_with_Cons)
    have len: "length (json_text x) + Suc (length (join_with '','' (map json_text xs))) \<le> g"
      using Cons.prems(3) f False by (simp add: join_with_Cons)
    have "parse_value g (json_text x @ CHR '','' # (join_with '','' (map json_text xs) @ CHR '']'' # r))
        = Some (x, CHR '','' # (join_with '','' (map json_text xs) @ CHR '']'' # r))"
      using Cons.prems(2) len by (intro reparsesD) auto
    moreover have "parse_elems g (join_with '','' (map json_text xs) @ CHR '']'' # r) = Some (xs, r)"
      using Cons.IH [of g] Cons.prems(2) False len by simp
    ultimately show ?thesis unfolding j f by simp
  qed
qed

definition member_text :: "string \<times> jv \<Rightarrow> string" where
  "member_text p = quote_str (fst p) @ '':'' @ json_text (snd p)"

lemma json_text_Obj:
  "json_value (Obj ob) \<Longrightarrow> json_text (Obj ob) = ''{'' @ join_with '','' (map member_text ob) @ ''}''"
proof -
  assume v: "json_value (Obj ob)"
  have "json_value v \<Longrightarrow> \<not> json_omitted v" for v by (cases v) auto
  with v have "filter (\<lambda>p. \<not> json_omitted (snd p)) ob = ob" by (auto simp: filter_id_conv)
  moreover have "map (\<lambda>(k, t). quote_str k @ '':'' @ t) (map (\<lambda>p. (fst p, json_text (snd p))) ob)
      = map member_text ob"
    by (auto simp: member_text_def)
  ultimately show ?thesis by (simp only: json_text.simps)
qed

lemma parse_members_step:
  assumes "reparses v" and "length (json_text v) \<le> g" and "ends_number t"
  shows "parse_members (Suc g) ob (member_text (k, v) @ t)
    = (case skip_ws t of
         [] \<Rightarrow> None
       | c # r3 \<Rightarrow> if c = CHR '','' then parse_members g (oset k v ob) r3
                   else if c = CHR ''}'' then Some (oset k v ob, r3) else None)"
  using assms parse_quoted [of k "CHR '':'' # json_text v @ t"]
  by (simp add: member_text_def quote_str_def reparsesD)

lemma parse_members_text:
  assumes "ms \<noteq> []" and "\<forall>p \<in> set ms. reparses (snd p)" and "distinct (okeys (ob @ ms))"
    and "length (join_with '','' (map member_text ms)) < f"
  shows "parse_members f ob (join_with '','' (map member_text ms) @ CHR ''}'' # r) = Some (ob @ ms, r)"
  using assms
proof (induction ms arbitrary: f ob)
  case Nil
  then show ?case by simp
next
  case (Cons m ms)
  obtain k v where m: "m = (k, v)" by (cases m)
  from Cons.prems(4) obtain g where f: "f = Suc g" by (cases f) auto
  have fresh: "oset k v ob = ob @ [(k, v)]" using Cons.prems(3) m by (intro oset_fresh) auto
  have v: "reparses v" using Cons.prems(2) m by simp
  show ?case
  proof (cases "ms = []")
    case True
    with Cons.prems(4) f m have "length (json_text v) \<le> g" by (simp add: member_text_def)
    with v have "parse_members (Suc g) ob (member_text (k, v) @ CHR ''}'' # r) = Some (oset k v ob, r)"
      by (subst parse_members_step) simp_all
    with True show ?thesis by (simp add: m f fresh del: parse_members.simps)
  next
    case False
    let ?t = "join_with '','' (map member_text ms) @ CHR ''}'' # r"
    have "length (member_text (k, v)) + Suc (length (join_with '','' (map member_text ms))) < Suc g"
      using Cons.prems(4) f m False by (simp add: join_with_Cons)
    moreover have "length (json_text v) \<le> length (member_text (k, v))" by (simp add: member_text_def)
    ultimately have len: "length (json_text v) \<le> g"
      "length (join_with '','' (map member_text ms)) < g" by simp_all
    have j: "join_with '','' (map member_text (m # ms)) @ CHR ''}'' # r = member_text (k, v) @ CHR '','' # ?t"
      using False m by (simp add: join_with_Cons)
    have "parse_members g (oset k v ob) ?t = Some ((ob @ [(k, v)]) @ ms, r)"
      using Cons.IH [of "ob @ [(k, v)]" g] Cons.prems False len m fresh by simp
    with v len(1) have "parse_members (Suc g) ob (member_text (k, v) @ CHR '','' # ?t)
        = Some ((ob @ [(k, v)]) @ ms, r)"
      by (subst parse_members_step) simp_all
    then show ?thesis unfolding j unfolding f m by (simp del: parse_members.simps)
  qed
qed

lemma reparses_scalar:
  "reparses Null" "reparses (Bool b)" "reparses (Str s)"
proof -
  have pos: "\<exists>g. f = Suc g" if "length (c # s) \<le> f" for f and c :: char and s
    using that by (cases f) auto
  show "reparses Null" unfolding reparses_def
    by (auto simp: json_space_def is_digit_def dest!: pos [of "CHR ''n''" "''ull''", simplified])
  show "reparses (Bool b)" unfolding reparses_def
    by (auto simp: json_space_def is_digit_def dest!: pos [of "CHR ''t''" "''rue''", simplified]
        pos [of "CHR ''f''" "''alse''", simplified])
  show "reparses (Str s)" unfolding reparses_def
    using parse_quoted [of s] by (auto simp: quote_str_def dest!: Suc_le_D)
qed

lemma reparses_Num: "reparses (Num n)"
  unfolding reparses_def
proof (intro allI impI)
  fix f r
  assume f: "length (json_text (Num n)) \<le> f" and r: "ends_number r"
  then obtain g where g: "f = Suc g"
    using show_nat_start [of "nat n"] show_nat_start [of "nat (- n)"]
    by (cases f) (auto simp: show_int_def split: if_splits)
  show "parse_value f (json_text (Num n) @ r) = Some (Num n, r)"
  proof (cases "n < 0")
    case True
    then show ?thesis using r
      by (simp add: g show_int_def parse_nat_show  json_space_def)
  next
    case False
    obtain c s where cs: "show_nat (nat n) = c # s" "is_digit c" using show_nat_start by blast
    then have "\<not> json_space c" using digit_plain_start [of c] by (simp add: plain_start_def)
    then show ?thesis
      using False r cs digit_plain_start [of c] parse_nat_show [of r "nat n"]
      by (simp add: g show_int_def)
  qed
qed

lemma reparses_Arr:
  assumes "json_value (Arr xs)" and "\<forall>x \<in> set xs. reparses x"
  shows "reparses (Arr xs)"
  unfolding reparses_def
proof (intro allI impI)
  fix f r
  assume f: "length (json_text (Arr xs)) \<le> f"
  then obtain g where g: "f = Suc g" by (cases f) auto
  show "parse_value f (json_text (Arr xs) @ r) = Some (Arr xs, r)"
  proof (cases "xs = []")
    case True
    then show ?thesis by (simp add: g )
  next
    case False
    let ?t = "join_with '','' (map json_text xs)"
    obtain x ys where x: "xs = x # ys" using False by (cases xs) auto
    obtain c s where cs: "json_text x = c # s" "plain_start c" using json_text_start [of x] assms(1) x by auto
    then have "hd (?t @ CHR '']'' # r) = c" and "?t @ CHR '']'' # r \<noteq> []"
      using x by (simp_all add: join_with_Cons)
    then obtain s' where t: "?t @ CHR '']'' # r = c # s'" by (metis list.collapse)
    have "after_char (CHR '']'') (skip_ws (?t @ CHR '']'' # r)) = None"
      using cs(2) unfolding t by (simp add: plain_start_def)
    moreover have "parse_elems g (?t @ CHR '']'' # r) = Some (xs, r)"
      using parse_elems_text [OF False assms(2), of g r] f g by simp
    ultimately show ?thesis by (simp add: g )
  qed
qed

lemma reparses_Obj:
  assumes "json_value (Obj ob)" and "\<forall>p \<in> set ob. reparses (snd p)"
  shows "reparses (Obj ob)"
  unfolding reparses_def json_text_Obj [OF assms(1)]
proof (intro allI impI)
  fix f r
  let ?t = "join_with '','' (map member_text ob)"
  assume f: "length (''{'' @ ?t @ ''}'') \<le> f"
  then obtain g where g: "f = Suc g" by (cases f) auto
  show "parse_value f ((''{'' @ ?t @ ''}'') @ r) = Some (Obj ob, r)"
  proof (cases "ob = []")
    case True
    then show ?thesis by (simp add: g )
  next
    case False
    then have "hd (?t @ CHR ''}'' # r) = dquote" and "?t @ CHR ''}'' # r \<noteq> []"
      by (cases ob; simp add: join_with_Cons member_text_def quote_str_def)+
    then obtain s' where t: "?t @ CHR ''}'' # r = dquote # s'"
      by (metis list.collapse)
    have "after_char (CHR ''}'') (skip_ws (?t @ CHR ''}'' # r)) = None"
      unfolding t by simp
    moreover have "parse_members g [] (?t @ CHR ''}'' # r) = Some (ob, r)"
      using parse_members_text [OF False assms(2), of "[]" g r] f g assms(1) by simp
    ultimately show ?thesis by (simp add: g )
  qed
qed

lemma json_value_reparses: "json_value v \<Longrightarrow> reparses v"
proof (induction v)
  case (Arr xs)
  then show ?case by (intro reparses_Arr) auto
next
  case (Obj ob)
  have "\<forall>p \<in> set ob. reparses (snd p)"
  proof
    fix p
    assume p: "p \<in> set ob"
    then have "json_value (snd p)" using Obj.prems by simp
    then show "reparses (snd p)" using Obj.IH [OF p, of "snd p"] by (cases p) simp
  qed
  with Obj.prems show ?case by (rule reparses_Obj)
qed (simp_all add: reparses_scalar reparses_Num)

theorem json_parse_stringify:
  assumes "json_value v"
  shows "json_parse (json_text v) = Some v"
proof -
  have "parse_value (Suc (length (json_text v))) (json_text v @ []) = Some (v, [])"
    using json_value_reparses [OF assms] by (rule reparsesD) simp_all
  then show ?thesis by (simp add: json_parse_def skip_ws_def)
qed

interpretation json: codec json_value json_text json_parse
  by unfold_locales (rule json_parse_stringify)

end
