(* ===== verification/UriCodec.thy ===== *)
theory UriCodec
  imports Json
begin

text \<open>
  \<open>encodeURIComponent\<close>, \<open>decodeURIComponent\<close> and \<open>String.prototype.replace\<close> with a global
  pattern free of special characters, for code units below 256: the standard-library functions
  that the URL code of axios and vue-router builds on. Encoded text is a sequence of tokens
  (single units and percent triples); replacing a triple acts token by token, and decoding
  gives back what was encoded.
\<close>

section \<open>Percent encoding\<close>

definition is_alpha :: "char \<Rightarrow> bool" where
  "is_alpha c \<longleftrightarrow> (let n = of_char c :: nat in 65 \<le> n \<and> n \<le> 90 \<or> 97 \<le> n \<and> n \<le> 122)"

definition unreserved :: "char \<Rightarrow> bool" where
  "unreserved c \<longleftrightarrow> is_alpha c \<or> is_digit c \<or> c \<in> set ''-_.!~*()'' \<or> c = CHR 0x27"

definition pct_byte :: "nat \<Rightarrow> string" where
  "pct_byte b = [CHR ''%'', hex_char (b div 16), hex_char (b mod 16)]"

definition encode_unit :: "char \<Rightarrow> string" where
  "encode_unit c =
     (let n = of_char c :: nat in
      if unreserved c then [c]
      else if n < 128 then pct_byte n
      else pct_byte (192 + n div 64) @ pct_byte (128 + n mod 64))"

definition encode_uri_component :: "string \<Rightarrow> string" where
  "encode_uri_component s = concat (map encode_unit s)"

text \<open>\<open>s.replace(/p/gi, r)\<close> for a pattern without special characters; the flag \<open>i\<close> compares
  letters without case.\<close>

function replace_all :: "bool \<Rightarrow> string \<Rightarrow> string \<Rightarrow> string \<Rightarrow> string" where
  "replace_all ci p r s =
     (if p = [] \<or> s = [] then s
      else if (if ci then to_lower (take (length p) s) = to_lower p else take (length p) s = p)
      then r @ replace_all ci p r (drop (length p) s)
      else hd s # replace_all ci p r (tl s))"
  by pat_completeness auto
termination
  by (relation "measure (\<lambda>(ci, p, r, s). length s)") auto

declare replace_all.simps [simp del]

text \<open>Decoding; a malformed sequence raises \<open>URIError\<close>, which is \<open>None\<close>, as is a sequence
  for a code unit above 255.\<close>

definition hex_byte :: "char \<Rightarrow> char \<Rightarrow> nat option" where
  "hex_byte a b =
     (case (hex_value a, hex_value b) of (Some x, Some y) \<Rightarrow> Some (16 * x + y) | _ \<Rightarrow> None)"

fun decode_uri_component :: "string \<Rightarrow> string option" where
  "decode_uri_component [] = Some []"
| "decode_uri_component (c # s) =
     (if c \<noteq> CHR ''%'' then map_option ((#) c) (decode_uri_component s)
      else
        (case s of
           a # b # s' \<Rightarrow>
             (case hex_byte a b of
                None \<Rightarrow> None
              | Some n \<Rightarrow>
                if n < 128 then map_option ((#) (char_of n)) (decode_uri_component s')
                else if n = 194 \<or> n = 195 then
                  (case s' of
                     p # d # e # s'' \<Rightarrow>
                       (if p \<noteq> CHR ''%'' then None
                        else
                          (case hex_byte d e of
                             None \<Rightarrow> None
                           | Some z \<Rightarrow>
                             if 128 \<le> z \<and> z < 192
                             then map_option ((#) (char_of (64 * (n - 192) + (z - 128)))) (decode_uri_component s'')
                             else None))
                   | _ \<Rightarrow> None)
                else None)
         | _ \<Rightarrow> None))"

section \<open>The replacements act unit by unit\<close>

text \<open>Encoded text is a sequence of tokens: single units other than the percent sign, and
  percent triples whose hexadecimal digits are upper case.\<close>

definition is_single :: "string \<Rightarrow> bool" where
  "is_single t \<longleftrightarrow> (\<exists>c. t = [c] \<and> c \<noteq> CHR ''%'')"

definition is_hex :: "char \<Rightarrow> bool" where
  "is_hex c \<longleftrightarrow> (let n = of_char c :: nat in 48 \<le> n \<and> n \<le> 57 \<or> 65 \<le> n \<and> n \<le> 70)"

definition is_triple :: "string \<Rightarrow> bool" where
  "is_triple t \<longleftrightarrow> (\<exists>a b. t = [CHR ''%'', a, b] \<and> is_hex a \<and> is_hex b)"

definition is_token :: "string \<Rightarrow> bool" where
  "is_token t \<longleftrightarrow> is_single t \<or> is_triple t"

lemma of_lower_char:
  "(of_char (lower_char c) :: nat)
     = (if 65 \<le> (of_char c :: nat) \<and> (of_char c :: nat) \<le> 90 then of_char c + 32 else of_char c)"
  by (simp add: lower_char_def of_char_of)

lemma lower_eq_pct: "lower_char c = CHR ''%'' \<longleftrightarrow> c = CHR ''%''"
proof -
  have "(of_char (CHR ''%'') :: nat) = 37" by simp
  then have "of_char (lower_char c) = (of_char (CHR ''%'') :: nat) \<longleftrightarrow> of_char c = (of_char (CHR ''%'') :: nat)"
    unfolding of_lower_char by auto
  then show ?thesis by (simp only: of_char_eq_iff)
qed

lemma lower_pct [simp]: "lower_char (CHR ''%'') = CHR ''%''"
  by (simp add: lower_eq_pct)

lemma replace_all_skip:
  assumes "p = CHR ''%'' # q" and "c \<noteq> CHR ''%''"
  shows "replace_all ci p r (c # s) = c # replace_all ci p r s"
  using assms by (subst replace_all.simps) (auto simp: to_lower_def lower_eq_pct)

lemma hex_digit_not_pct: "is_hex a \<Longrightarrow> a \<noteq> CHR ''%''"
  by (auto simp: is_hex_def)

lemma lower_hex_inj:
  assumes "is_hex a" and "is_hex b" and "lower_char a = lower_char b"
  shows "a = b"
proof -
  have "(of_char (lower_char a) :: nat) = of_char (lower_char b)" using assms(3) by simp
  then have "(of_char a :: nat) = of_char b"
    using assms(1,2) unfolding of_lower_char is_hex_def Let_def by (auto split: if_splits)
  then show ?thesis by (simp only: of_char_eq_iff)
qed

lemma replace_all_triple:
  assumes p: "is_triple p" and t: "is_triple t"
  shows "replace_all ci p r (t @ s) = (if t = p then r else t) @ replace_all ci p r s"
proof -
  obtain a b where pa: "p = [CHR ''%'', a, b]" and ha: "is_hex a"
    and hb: "is_hex b" using p by (auto simp: is_triple_def)
  obtain d e where td: "t = [CHR ''%'', d, e]" and hd: "is_hex d"
    and he: "is_hex e" using t by (auto simp: is_triple_def)
  have eq: "(if ci then to_lower t = to_lower p else t = p) \<longleftrightarrow> t = p"
    using lower_hex_inj [OF hd ha] lower_hex_inj [OF he hb] by (auto simp: pa td to_lower_def)
  have "replace_all ci p r (t @ s)
      = (if t = p then r @ replace_all ci p r s
         else CHR ''%'' # replace_all ci p r (d # e # s))"
    using eq by (subst replace_all.simps) (auto simp: pa td)
  moreover have "replace_all ci p r (d # e # s) = d # e # replace_all ci p r s"
    using hex_digit_not_pct [OF hd] hex_digit_not_pct [OF he] pa by (simp add: replace_all_skip)
  ultimately show ?thesis by (simp add: td)
qed

lemma replace_all_tokens:
  assumes "is_triple p" and "\<forall>t \<in> set ts. is_token t"
  shows "replace_all ci p r (concat ts) = concat (map (\<lambda>t. if t = p then r else t) ts)"
  using assms(2)
proof (induction ts)
  case Nil
  then show ?case by (simp add: replace_all.simps)
next
  case (Cons t ts)
  show ?case
  proof (cases "is_triple t")
    case True
    then show ?thesis using Cons replace_all_triple [OF assms(1) True] by simp
  next
    case False
    then obtain c where c: "t = [c]" "c \<noteq> CHR ''%''" using Cons.prems by (auto simp: is_token_def is_single_def)
    moreover from assms(1) obtain q where "p = CHR ''%'' # q" by (auto simp: is_triple_def)
    moreover have "t \<noteq> p" using c assms(1) by (auto simp: is_triple_def)
    ultimately show ?thesis using Cons by (simp add: replace_all_skip)
  qed
qed

section \<open>Encoded text\<close>

definition unit_tokens :: "char \<Rightarrow> string list" where
  "unit_tokens c =
     (let n = of_char c :: nat in
      if unreserved c then [[c]]
      else if n < 128 then [pct_byte n]
      else [pct_byte (192 + n div 64), pct_byte (128 + n mod 64)])"

lemma encode_unit_tokens: "encode_unit c = concat (unit_tokens c)"
  by (simp add: encode_unit_def unit_tokens_def Let_def)

lemma hex_char_digit: "d < 16 \<Longrightarrow> is_hex (hex_char d)"
  by (auto simp: is_hex_def hex_char_def of_char_of Let_def)

lemma is_triple_pct_byte:
  assumes "b < 256"
  shows "is_triple (pct_byte b)"
proof -
  have "b div 16 < 16" and "b mod 16 < 16" using assms by auto
  then show ?thesis using hex_char_digit unfolding is_triple_def pct_byte_def by blast
qed

lemma unit_tokens_ok: "t \<in> set (unit_tokens c) \<Longrightarrow> is_token t"
proof -
  have "unreserved c \<Longrightarrow> c \<noteq> CHR ''%''"
    by (auto simp: unreserved_def is_alpha_def is_digit_def)
  moreover have "192 + (of_char c :: nat) div 64 < 256" "128 + (of_char c :: nat) mod 64 < 256"
    using nat_of_char_less_256 [of c] by linarith+
  ultimately show "t \<in> set (unit_tokens c) \<Longrightarrow> is_token t"
    by (auto simp: unit_tokens_def is_token_def is_single_def Let_def is_triple_pct_byte split: if_splits)
qed

definition str_tokens :: "string \<Rightarrow> string list" where
  "str_tokens s = concat (map unit_tokens s)"

lemma encode_tokens: "encode_uri_component s = concat (str_tokens s)"
  by (induction s) (simp_all add: encode_uri_component_def str_tokens_def encode_unit_tokens)

lemma str_tokens_ok: "\<forall>t \<in> set (str_tokens s). is_token t"
  by (auto simp: str_tokens_def dest: unit_tokens_ok)

lemma hex_byte_pct: "b < 256 \<Longrightarrow> hex_byte (hex_char (b div 16)) (hex_char (b mod 16)) = Some b"
  by (simp add: hex_byte_def)

lemma decode_pct_byte:
  "b < 128 \<Longrightarrow> decode_uri_component (pct_byte b @ t) = map_option ((#) (char_of b)) (decode_uri_component t)"
  by (simp add: pct_byte_def hex_byte_pct)

lemma decode_unit:
  "decode_uri_component (encode_unit c @ t) = map_option ((#) c) (decode_uri_component t)"
proof -
  let ?n = "of_char c :: nat"
  consider "unreserved c" | "\<not> unreserved c" "?n < 128" | "\<not> unreserved c" "128 \<le> ?n" by linarith
  then show ?thesis
  proof cases
    case 1
    then have "c \<noteq> CHR ''%''" by (auto simp: unreserved_def is_alpha_def is_digit_def)
    with 1 show ?thesis by (simp add: encode_unit_def)
  next
    case 2
    then show ?thesis by (simp add: encode_unit_def Let_def decode_pct_byte)
  next
    case 3
    have n: "?n < 256" by simp
    then have hi: "?n div 64 = 2 \<or> ?n div 64 = 3" using 3 by linarith
    have b: "192 + ?n div 64 < 256" "128 + ?n mod 64 < 256" using n by linarith+
    have "64 * (192 + ?n div 64 - 192) + (128 + ?n mod 64 - 128) = ?n" by simp
    then show ?thesis
      using 3 hi hex_byte_pct [OF b(1)] hex_byte_pct [OF b(2)]
      by (auto simp: encode_unit_def pct_byte_def Let_def simp del: mult_div_mod_eq)
  qed
qed

theorem decode_encode: "decode_uri_component (encode_uri_component s) = Some s"
  by (induction s) (simp_all add: encode_uri_component_def decode_unit)

interpretation uri: codec "\<lambda>_. True" encode_uri_component decode_uri_component
  by unfold_locales (rule decode_encode)

end
