(* ===== verification/AxiosUrl.thy ===== *)
theory AxiosUrl
  imports UriCodec
begin

text \<open>
  The URL functions of axios (\<open>chunk-vendors.ddcb6f91.js\<close>): \<open>isAbsoluteURL\<close> (module \<open>d925\<close>),
  \<open>combineURLs\<close> (\<open>e683\<close>) and \<open>buildURL\<close> with its encoder (\<open>30b5\<close>), over
  \<open>encodeURIComponent\<close> for code units below 256. The lemmas: the chain of replacements after
  encoding works unit by unit, an encoded part holds no delimiter, and a query string can be
  split back into the pairs it was built from.
\<close>

text \<open>The encoder \<open>r\<close> of the module: seven replacements, in the code's order.\<close>

definition encode_param :: "string \<Rightarrow> string" where
  "encode_param e =
     replace_all True ''%5D'' '']'' (
     replace_all True ''%5B'' ''['' (
     replace_all False ''%20'' ''+'' (
     replace_all True ''%2C'' '','' (
     replace_all False ''%24'' ''$'' (
     replace_all True ''%3A'' '':'' (
     replace_all True ''%40'' ''@'' (encode_uri_component e)))))))"

section \<open>Building, testing and joining URLs\<close>

definition scheme_char :: "char \<Rightarrow> bool" where
  "scheme_char c \<longleftrightarrow> is_alpha c \<or> is_digit c \<or> c \<in> set ''+-.''"

definition starts_with :: "'a list \<Rightarrow> 'a list \<Rightarrow> bool" where
  "starts_with p s \<longleftrightarrow> take (length p) s = p"

text \<open>The scheme's character class has no colon, so the greedy match is the only one.\<close>

fun is_absolute_url :: "string \<Rightarrow> bool" where
  "is_absolute_url [] = False"
| "is_absolute_url (c # s) =
     (starts_with ''//'' (c # s) \<or>
      is_alpha c \<and> starts_with ''://'' (dropWhile scheme_char s))"

definition is_slash :: "char \<Rightarrow> bool" where
  "is_slash c \<longleftrightarrow> c = CHR ''/''"

definition combine_urls :: "string \<Rightarrow> string \<Rightarrow> string" where
  "combine_urls base t =
     (if t \<noteq> [] then strip_right is_slash base @ ''/'' @ strip_left is_slash t else base)"

text \<open>\<open>String(e)\<close> for what reaches the encoder.\<close>

fun string_of :: "jv \<Rightarrow> string" where
  "string_of Undef = ''undefined''"
| "string_of Null = ''null''"
| "string_of (Bool b) = (if b then ''true'' else ''false'')"
| "string_of (Num n) = show_int n"
| "string_of (Str s) = s"
| "string_of (Date s) = s"
| "string_of v = json_text v"

text \<open>A date gives its ISO string and any other object its JSON text.\<close>

fun param_text :: "jv \<Rightarrow> string" where
  "param_text (Date t) = t"
| "param_text v = (if is_object v then json_text v else string_of v)"

definition param_pairs :: "string \<Rightarrow> jv \<Rightarrow> (string \<times> string) list" where
  "param_pairs k v =
     (if v = Null \<or> v = Undef then []
      else if is_array v then map (\<lambda>e. (k @ ''[]'', param_text (snd e))) (each v)
      else [(k, param_text v)])"

definition query_pairs :: "jv \<Rightarrow> (string \<times> string) list" where
  "query_pairs params = concat (map (\<lambda>(k, v). param_pairs k v) (each params))"

definition encode_pair :: "string \<times> string \<Rightarrow> string" where
  "encode_pair p = encode_param (fst p) @ ''='' @ encode_param (snd p)"

definition serialize_params :: "jv \<Rightarrow> string" where
  "serialize_params params = join_with ''&'' (map encode_pair (query_pairs params))"

definition build_url :: "string \<Rightarrow> jv \<Rightarrow> (jv \<Rightarrow> string) option \<Rightarrow> string" where
  "build_url url params serializer =
     (if \<not> truthy params then url
      else
        let q = (case serializer of Some f \<Rightarrow> f params | None \<Rightarrow> serialize_params params)
        in if q \<noteq> []
           then url @ (if CHR ''?'' \<notin> set url then ''?'' else ''&'') @ q
           else url)"

section \<open>The encoder, unit by unit\<close>

definition final_token :: "string \<Rightarrow> string" where
  "final_token t =
     (if t = ''%40'' then ''@'' else if t = ''%3A'' then '':'' else if t = ''%24'' then ''$''
      else if t = ''%2C'' then '','' else if t = ''%20'' then ''+'' else if t = ''%5B'' then ''[''
      else if t = ''%5D'' then '']'' else t)"

definition encode_param_unit :: "char \<Rightarrow> string" where
  "encode_param_unit c = concat (map final_token (unit_tokens c))"

lemma is_tripleI: "is_hex a \<Longrightarrow> is_hex b \<Longrightarrow> is_triple [CHR ''%'', a, b]"
  by (auto simp: is_triple_def)

lemma pattern_triples:
  "is_triple ''%40''" "is_triple ''%3A''" "is_triple ''%24''" "is_triple ''%2C''"
  "is_triple ''%20''" "is_triple ''%5B''" "is_triple ''%5D''"
  by (rule is_tripleI; simp add: is_hex_def)+

definition subst_token :: "string \<Rightarrow> string \<Rightarrow> string \<Rightarrow> string" where
  "subst_token p r t = (if t = p then r else t)"

definition all_tokens :: "string list \<Rightarrow> bool" where
  "all_tokens ts \<longleftrightarrow> (\<forall>t \<in> set ts. is_token t)"

lemma replace_tokens:
  "is_triple p \<Longrightarrow> all_tokens ts \<Longrightarrow> replace_all ci p r (concat ts) = concat (map (subst_token p r) ts)"
  unfolding subst_token_def all_tokens_def by (rule replace_all_tokens)

lemma subst_token_ok: "all_tokens ts \<Longrightarrow> is_token r \<Longrightarrow> all_tokens (map (subst_token p r) ts)"
  by (auto simp: subst_token_def all_tokens_def)

lemma single_ok: "c \<noteq> CHR ''%'' \<Longrightarrow> is_token [c]"
  by (simp add: is_token_def is_single_def)

lemma final_token_chain:
  "subst_token ''%5D'' '']'' (subst_token ''%5B'' ''['' (subst_token ''%20'' ''+''
     (subst_token ''%2C'' '','' (subst_token ''%24'' ''$'' (subst_token ''%3A'' '':''
       (subst_token ''%40'' ''@'' t)))))) = final_token t"
  by (simp add: subst_token_def final_token_def)

lemma concat_map_concat:
  "concat (map f (concat (map g xs))) = concat (map (\<lambda>x. concat (map f (g x))) xs)"
  by (induction xs) simp_all

lemma encode_param_units: "encode_param s = concat (map encode_param_unit s)"
proof -
  define ts where "ts = str_tokens s"
  have ok: "all_tokens ts" by (simp add: ts_def all_tokens_def str_tokens_ok)
  have "encode_param s = concat (map final_token ts)"
    unfolding encode_param_def encode_tokens ts_def [symmetric]
    by (simp add: replace_tokens pattern_triples ok subst_token_ok single_ok final_token_chain o_def
        del: map_map) (simp add: final_token_chain o_def)
  also have "\<dots> = concat (map encode_param_unit s)"
    by (simp add: ts_def str_tokens_def encode_param_unit_def [abs_def] concat_map_concat)
  finally show ?thesis .
qed

lemma hex_char_inj: "x < 16 \<Longrightarrow> y < 16 \<Longrightarrow> hex_char x = hex_char y \<longleftrightarrow> x = y"
  by (metis hex_value_char option.inject)

lemma pct_byte_inj: "a < 256 \<Longrightarrow> b < 256 \<Longrightarrow> pct_byte a = pct_byte b \<longleftrightarrow> a = b"
proof
  assume "a < 256" "b < 256" "pct_byte a = pct_byte b"
  then have "a div 16 = b div 16" and "a mod 16 = b mod 16"
    by (simp_all add: pct_byte_def hex_char_inj less_mult_imp_div_less)
  then show "a = b" by (metis div_mult_mod_eq)
qed simp

lemma pattern_bytes:
  "''%40'' = pct_byte 64" "''%3A'' = pct_byte 58" "''%24'' = pct_byte 36" "''%2C'' = pct_byte 44"
  "''%20'' = pct_byte 32" "''%5B'' = pct_byte 91" "''%5D'' = pct_byte 93"
  by code_simp+

lemma final_pct:
  "b < 256 \<Longrightarrow> final_token (pct_byte b) =
     (if b = 64 then ''@'' else if b = 58 then '':'' else if b = 36 then ''$''
      else if b = 44 then '','' else if b = 32 then ''+'' else if b = 91 then ''[''
      else if b = 93 then '']'' else pct_byte b)"
  unfolding final_token_def pattern_bytes by (simp add: pct_byte_inj)

lemma final_single: "final_token [c] = [c]"
  by (simp add: final_token_def)

lemma encode_param_unit_eq:
  "encode_param_unit c =
     (if c = CHR ''@'' \<or> c = CHR '':'' \<or> c = CHR ''$'' \<or> c = CHR '','' \<or> c = CHR ''['' \<or> c = CHR '']''
      then [c]
      else if c = CHR '' '' then ''+''
      else encode_unit c)"
proof -
  let ?n = "of_char c :: nat"
  have chars: "?n = of_char d \<longleftrightarrow> c = d" for d by (simp only: of_char_eq_iff)
  consider "unreserved c" | "\<not> unreserved c" "?n < 128" | "\<not> unreserved c" "128 \<le> ?n" by linarith
  then show ?thesis
  proof cases
    case 1
    then have "c \<notin> set ''@:$,[] ''" by (auto simp: unreserved_def is_alpha_def is_digit_def)
    with 1 show ?thesis
      by (auto simp: encode_param_unit_def unit_tokens_def encode_unit_def final_single)
  next
    case 2
    have "encode_param_unit c = final_token (pct_byte ?n)" using 2
      by (simp add: encode_param_unit_def unit_tokens_def Let_def)
    with 2 show ?thesis
      using chars [of "CHR ''@''"] chars [of "CHR '':''"] chars [of "CHR ''$''"] chars [of "CHR '',''"]
        chars [of "CHR '' ''"] chars [of "CHR ''[''"] chars [of "CHR '']''"]
      by (auto simp: final_pct encode_unit_def Let_def)
  next
    case 3
    have "192 + ?n div 64 < 256" "128 + ?n mod 64 < 256"
      using nat_of_char_less_256 [of c] by linarith+
    then have "encode_param_unit c = encode_unit c" using 3
      by (simp add: encode_param_unit_def unit_tokens_def encode_unit_def Let_def final_pct)
    moreover have "c \<notin> set ''@:$,[] ''" using 3(2) by auto
    ultimately show ?thesis by auto
  qed
qed

text \<open>What the server side of a query string does: plus signs are spaces, then percent decoding.\<close>

definition plus_to_space :: "string \<Rightarrow> string" where
  "plus_to_space s = map (\<lambda>c. if c = CHR ''+'' then CHR '' '' else c) s"

definition decode_param :: "string \<Rightarrow> string option" where
  "decode_param s = decode_uri_component (plus_to_space s)"

lemma plus_to_space_id: "CHR ''+'' \<notin> set s \<Longrightarrow> plus_to_space s = s"
  by (auto simp: plus_to_space_def intro: map_idI)

lemma set_encode_unit: "x \<in> set (encode_unit c) \<Longrightarrow> unreserved x \<or> x = CHR ''%'' \<or> is_hex x"
proof -
  assume x: "x \<in> set (encode_unit c)"
  have pct: "x \<in> set (pct_byte b) \<Longrightarrow> b < 256 \<Longrightarrow> x = CHR ''%'' \<or> is_hex x" for b
    by (auto simp: pct_byte_def hex_char_digit less_mult_imp_div_less)
  let ?n = "of_char c :: nat"
  have b: "?n < 256" "192 + ?n div 64 < 256" "128 + ?n mod 64 < 256"
    using nat_of_char_less_256 [of c] by linarith+
  consider "unreserved c" "x = c" | "x \<in> set (pct_byte ?n)"
    | "x \<in> set (pct_byte (192 + ?n div 64))" | "x \<in> set (pct_byte (128 + ?n mod 64))"
    using x by (auto simp: encode_unit_def Let_def split: if_splits)
  then show ?thesis using pct b by cases blast+
qed

lemma delims_not_encoded:
  assumes "d \<in> set ''&=#?+ /''"
  shows "d \<notin> set (encode_unit c)"
proof -
  have "\<not> unreserved d \<and> d \<noteq> CHR ''%'' \<and> \<not> is_hex d"
    using assms by (auto simp: unreserved_def is_alpha_def is_digit_def is_hex_def)
  then show ?thesis using set_encode_unit by blast
qed

lemma delims_not_in_param: "d \<in> set ''&=#? /'' \<Longrightarrow> d \<notin> set (encode_param s)"
  using delims_not_encoded [of d]
  by (auto simp: encode_param_units encode_param_unit_eq)

lemma decode_param_unit:
  "decode_uri_component (plus_to_space (encode_param_unit c) @ t) = map_option ((#) c) (decode_uri_component t)"
proof (cases "c \<in> set ''@:$,[] ''")
  case True
  then show ?thesis by (auto simp: encode_param_unit_eq plus_to_space_def)
next
  case False
  then have "encode_param_unit c = encode_unit c" by (auto simp: encode_param_unit_eq)
  moreover have "plus_to_space (encode_unit c) = encode_unit c"
    by (rule plus_to_space_id) (simp add: delims_not_encoded)
  ultimately show ?thesis by (simp add: decode_unit)
qed

lemma plus_to_space_append: "plus_to_space (s @ t) = plus_to_space s @ plus_to_space t"
  by (simp add: plus_to_space_def)

lemma decode_encode_param: "decode_param (encode_param s) = Some s"
  unfolding decode_param_def encode_param_units
proof (induction s)
  case Nil
  then show ?case by (simp add: plus_to_space_def)
next
  case (Cons c s)
  then show ?case by (simp add: plus_to_space_append decode_param_unit)
qed

section \<open>A query string splits back into its pairs\<close>

text \<open>Reading a query string: pieces between ampersands, each split at its first equals sign.\<close>

definition read_piece :: "string \<Rightarrow> (string \<times> string) option" where
  "read_piece p =
     (let k = takeWhile (\<lambda>c. c \<noteq> CHR ''='') p; v = tl (dropWhile (\<lambda>c. c \<noteq> CHR ''='') p) in
      case (decode_param k, decode_param v) of (Some k', Some v') \<Rightarrow> Some (k', v') | _ \<Rightarrow> None)"

definition read_query :: "string \<Rightarrow> (string \<times> string) option list" where
  "read_query q = (if q = [] then [] else map read_piece (split_on (CHR ''&'') q))"

lemma read_encode_pair: "read_piece (encode_pair p) = Some p"
proof -
  have "CHR ''='' \<notin> set (encode_param (fst p))" by (simp add: delims_not_in_param)
  then have "takeWhile (\<lambda>c. c \<noteq> CHR ''='') (encode_pair p) = encode_param (fst p)"
    and "dropWhile (\<lambda>c. c \<noteq> CHR ''='') (encode_pair p) = CHR ''='' # encode_param (snd p)"
    by (simp_all add: encode_pair_def str_simps)
  then show ?thesis by (simp add: read_piece_def decode_encode_param)
qed

lemma amp_not_in_pair: "CHR ''&'' \<notin> set (encode_pair p)"
  by (simp add: encode_pair_def delims_not_in_param)

lemma read_serialize: "read_query (serialize_params params) = map Some (query_pairs params)"
proof (cases "query_pairs params = []")
  case True
  then show ?thesis by (simp add: serialize_params_def read_query_def)
next
  case False
  let ?ps = "map encode_pair (query_pairs params)"
  have "serialize_params params \<noteq> []"
    using False by (cases "query_pairs params") (auto simp: serialize_params_def join_with_Cons encode_pair_def)
  moreover have "split_on (CHR ''&'') (serialize_params params) = ?ps"
    unfolding serialize_params_def using False amp_not_in_pair by (intro split_on_join) auto
  ultimately show ?thesis by (simp add: read_query_def read_encode_pair)
qed

section \<open>Properties of the URLs\<close>

lemma serialize_no_delims:
  assumes "d \<in> set ''#? /''"
  shows "d \<notin> set (serialize_params params)"
proof -
  have "d \<notin> set (encode_pair p)" for p
    using assms delims_not_in_param [of d] by (auto simp: encode_pair_def)
  moreover have "d \<noteq> CHR ''&''" using assms by auto
  ultimately show ?thesis
    using set_join_with [of "''&''" "map encode_pair (query_pairs params)"]
    by (auto simp: serialize_params_def)
qed

lemma serialize_not_Nil: "query_pairs params \<noteq> [] \<Longrightarrow> serialize_params params \<noteq> []"
  by (cases "query_pairs params") (auto simp: serialize_params_def join_with_Cons encode_pair_def)

lemma build_url_parts:
  assumes "truthy params" and "query_pairs params \<noteq> []"
  shows "build_url url params None
           = url @ (if CHR ''?'' \<in> set url then CHR ''&'' else CHR ''?'') # serialize_params params"
  using assms serialize_not_Nil by (simp add: build_url_def Let_def)

lemma strip_slashes:
  "t = [] \<or> hd t \<noteq> CHR ''/'' \<Longrightarrow> strip_left is_slash (replicate n (CHR ''/'') @ t) = t"
  "b = [] \<or> last b \<noteq> CHR ''/'' \<Longrightarrow> strip_right is_slash (b @ replicate n (CHR ''/'')) = b"
proof -
  have slash: "is_slash = (\<lambda>x. x = CHR ''/'')" by (simp add: fun_eq_iff is_slash_def)
  show "t = [] \<or> hd t \<noteq> CHR ''/'' \<Longrightarrow> strip_left is_slash (replicate n (CHR ''/'') @ t) = t"
    unfolding slash by (rule strip_left_replicate)
  show "b = [] \<or> last b \<noteq> CHR ''/'' \<Longrightarrow> strip_right is_slash (b @ replicate n (CHR ''/'')) = b"
    unfolding slash by (rule strip_right_replicate)
qed

interpretation param: codec "\<lambda>_. True" encode_param decode_param
  by unfold_locales (rule decode_encode_param)

end
