(* ===== verification/AxiosHeaders.thy ===== *)
theory AxiosHeaders
  imports JsValue
begin

text \<open>
  Header handling of axios (\<open>chunk-vendors.ddcb6f91.js\<close>): \<open>normalizeHeaderName\<close>
  (module \<open>c8af\<close>) and \<open>parseHeaders\<close> (\<open>c345\<close>). The lemmas give, for every header name, the
  value each function leaves: one spelling after normalisation; after parsing, the list of all
  values for \<open>set-cookie\<close>, the first value for the headers that must not be duplicated, and
  the comma-separated values for the others.
\<close>

section \<open>One spelling of a header name\<close>

text \<open>The loop runs over the properties the object had when it started; a property it adds is
  spelled like \<open>t\<close> and would be skipped.\<close>

definition normalize_step :: "string \<Rightarrow> string \<times> jv \<Rightarrow> jv obj \<Rightarrow> jv obj" where
  "normalize_step t p e =
     (if fst p \<noteq> t \<and> to_upper (fst p) = to_upper t then odel (fst p) (oset t (snd p) e) else e)"

definition normalize_header_name :: "jv obj \<Rightarrow> string \<Rightarrow> jv obj" where
  "normalize_header_name e t = fold (normalize_step t) e e"

definition same_name :: "string \<Rightarrow> string \<Rightarrow> bool" where
  "same_name i t \<longleftrightarrow> to_upper i = to_upper t"

lemma oget_normalize_step:
  "oget (normalize_step t (i, n) e) k =
     (if i \<noteq> t \<and> same_name i t then (if k = i then None else if k = t then Some n else oget e k)
      else oget e k)"
  by (simp add: normalize_step_def same_name_def obj_simps)

lemma normalize_fold_other:
  "\<not> same_name k t \<Longrightarrow> oget (fold (normalize_step t) es e) k = oget e k"
proof (induction es arbitrary: e)
  case Nil
  then show ?case by simp
next
  case (Cons p es)
  obtain i n where p: "p = (i, n)" by (cases p)
  have "same_name t t" by (simp add: same_name_def)
  with Cons.prems have "k \<noteq> t" by auto
  with Cons.prems p have "oget (normalize_step t p e) k = oget e k"
    by (auto simp: oget_normalize_step)
  with Cons show ?case by simp
qed

lemma normalize_fold_absent:
  "k \<noteq> t \<Longrightarrow> oget e k = None \<Longrightarrow> oget (fold (normalize_step t) es e) k = None"
proof (induction es arbitrary: e)
  case Nil
  then show ?case by simp
next
  case (Cons p es)
  obtain i n where p: "p = (i, n)" by (cases p)
  have "oget (normalize_step t p e) k = None"
    using Cons.prems p by (simp add: oget_normalize_step)
  with Cons show ?case by simp
qed

lemma normalize_fold_removed:
  "k \<noteq> t \<Longrightarrow> same_name k t \<Longrightarrow> k \<in> set (okeys es) \<Longrightarrow> oget (fold (normalize_step t) es e) k = None"
proof (induction es arbitrary: e)
  case Nil
  then show ?case by simp
next
  case (Cons p es)
  obtain i n where p: "p = (i, n)" by (cases p)
  show ?case
  proof (cases "k = i")
    case True
    with Cons.prems p have "oget (normalize_step t p e) k = None"
      by (simp add: oget_normalize_step)
    then show ?thesis using normalize_fold_absent [OF Cons.prems(1)] by simp
  next
    case False
    with Cons p show ?thesis by simp
  qed
qed

text \<open>The values spelled otherwise, in order; the last of them ends up under \<open>t\<close>.\<close>

definition variants :: "string \<Rightarrow> jv obj \<Rightarrow> jv list" where
  "variants t es = map snd (filter (\<lambda>p. fst p \<noteq> t \<and> same_name (fst p) t) es)"

lemma normalize_fold_target:
  "oget (fold (normalize_step t) es e) t
     = (if variants t es = [] then oget e t else Some (last (variants t es)))"
proof (induction es arbitrary: e)
  case Nil
  then show ?case by (simp add: variants_def)
next
  case (Cons p es)
  obtain i n where p: "p = (i, n)" by (cases p)
  then show ?case
    using Cons.IH [of "normalize_step t p e"]
    by (auto simp: variants_def oget_normalize_step)
qed

section \<open>Parsing the header block of a response\<close>

definition ignore_duplicates :: "string list" where
  "ignore_duplicates =
     [''age'', ''authorization'', ''content-length'', ''content-type'', ''etag'', ''expires'',
      ''from'', ''host'', ''if-modified-since'', ''if-unmodified-since'', ''last-modified'',
      ''location'', ''max-forwards'', ''proxy-authorization'', ''referer'', ''retry-after'',
      ''user-agent'']"

text \<open>
  \<open>o = e.indexOf(":")\<close>, \<open>e.substr(0, o)\<close> and \<open>e.substr(o + 1)\<close>. Without a colon \<open>o\<close> is -1:
  the name is empty (a negative length) and the value is the whole line.
\<close>

definition header_line :: "string \<Rightarrow> string \<times> string" where
  "header_line e =
     (let hasc = CHR '':'' \<in> set e;
          name = (if hasc then takeWhile (\<lambda>c. c \<noteq> CHR '':'') e else []);
          rest = (if hasc then tl (dropWhile (\<lambda>c. c \<noteq> CHR '':'') e) else e)
      in (to_lower (util_trim name), util_trim rest))"

fun concat_arr :: "jv \<Rightarrow> jv list \<Rightarrow> jv" where
  "concat_arr (Arr xs) ys = Arr (xs @ ys)"
| "concat_arr _ ys = Arr ys"

fun append_text :: "jv \<Rightarrow> string \<Rightarrow> jv" where
  "append_text (Str s) n = Str (s @ '', '' @ n)"
| "append_text _ n = Str n"

definition add_header :: "string \<times> string \<Rightarrow> jv obj \<Rightarrow> jv obj" where
  "add_header l a =
     (let t = fst l; n = snd l; old = getp a t in
      if t = [] then a
      else if truthy old \<and> t \<in> set ignore_duplicates then a
      else if t = ''set-cookie''
        then oset t (concat_arr (if truthy old then old else Arr []) [Str n]) a
      else oset t (if truthy old then append_text old n else Str n) a)"

definition newline :: char where
  "newline = CHR 0x0A"

definition parse_headers :: "string \<Rightarrow> jv obj" where
  "parse_headers e =
     (if e \<noteq> [] then fold (\<lambda>l. add_header (header_line l)) (split_on newline e) [] else [])"

section \<open>What parsing leaves under each name\<close>

text \<open>The values of one header, in the order of the lines.\<close>

definition header_values :: "string \<Rightarrow> (string \<times> string) list \<Rightarrow> string list" where
  "header_values k ls = map snd (filter (\<lambda>l. fst l = k) ls)"

text \<open>Empty values at the front are replaced by the next value.\<close>

fun from_first_nonempty :: "string list \<Rightarrow> string list" where
  "from_first_nonempty [] = []"
| "from_first_nonempty [v] = [v]"
| "from_first_nonempty (v # w # vs) = (if v = [] then from_first_nonempty (w # vs) else v # w # vs)"

definition header_result :: "string \<Rightarrow> string list \<Rightarrow> jv option" where
  "header_result k vs =
     (if k = [] \<or> vs = [] then None
      else if k = ''set-cookie'' then Some (Arr (map Str vs))
      else if k \<in> set ignore_duplicates then Some (Str (hd (from_first_nonempty vs)))
      else Some (Str (join_with '', '' (from_first_nonempty vs))))"

lemma from_first_nonempty_not_Nil: "from_first_nonempty vs = [] \<longleftrightarrow> vs = []"
  by (induction vs rule: from_first_nonempty.induct) auto

lemma from_first_nonempty_snoc:
  "vs \<noteq> [] \<Longrightarrow> from_first_nonempty (vs @ [v])
     = (if from_first_nonempty vs = [[]] then [v] else from_first_nonempty vs @ [v])"
  by (induction vs rule: from_first_nonempty.induct) (auto simp: from_first_nonempty_not_Nil)

lemma from_first_nonempty_hd:
  "vs \<noteq> [] \<Longrightarrow> hd (from_first_nonempty vs) = [] \<Longrightarrow> from_first_nonempty vs = [[]]"
  by (induction vs rule: from_first_nonempty.induct) (auto split: if_splits)

lemma join_with_snoc: "ps \<noteq> [] \<Longrightarrow> join_with s (ps @ [q]) = join_with s ps @ s @ q"
  by (induction ps) (auto simp: join_with_Cons)

lemma header_result_snoc:
  "header_result k (vs @ [v]) =
     (let old = (case header_result k vs of Some x \<Rightarrow> x | None \<Rightarrow> Undef) in
      if k = [] then None
      else if truthy old \<and> k \<in> set ignore_duplicates then Some old
      else if k = ''set-cookie''
        then Some (concat_arr (if truthy old then old else Arr []) [Str v])
      else Some (if truthy old then append_text old v else Str v))"
proof (cases "k = [] \<or> vs = []")
  case True
  then show ?thesis by (auto simp: header_result_def)
next
  case False
  define ws where "ws = from_first_nonempty vs"
  have ws: "ws \<noteq> []" using False by (simp add: ws_def from_first_nonempty_not_Nil)
  have snoc: "from_first_nonempty (vs @ [v]) = (if ws = [[]] then [v] else ws @ [v])"
    using False by (simp add: ws_def from_first_nonempty_snoc)
  have hd: "hd ws = [] \<longleftrightarrow> ws = [[]]"
    using False from_first_nonempty_hd [of vs] by (auto simp: ws_def)
  have join: "join_with '', '' ws = [] \<longleftrightarrow> ws = [[]]"
    using ws by (simp add: join_with_eq_Nil)
  consider "k = ''set-cookie''" | "k \<noteq> ''set-cookie''" "k \<in> set ignore_duplicates"
    | "k \<noteq> ''set-cookie''" "k \<notin> set ignore_duplicates" by blast
  then show ?thesis
  proof cases
    case 1
    moreover have "''set-cookie'' \<notin> set ignore_duplicates" by (simp add: ignore_duplicates_def)
    ultimately show ?thesis using False by (simp add: header_result_def Let_def)
  next
    case 2
    then show ?thesis using False ws hd
      by (simp add: header_result_def Let_def snoc ws_def [symmetric])
  next
    case 3
    then show ?thesis using False ws join
      by (simp add: header_result_def Let_def snoc ws_def [symmetric] join_with_snoc)
  qed
qed

lemma oget_add_header:
  "oget (add_header (t, n) a) k =
     (let old = getp a t in
      if t = [] \<or> k \<noteq> t \<or> truthy old \<and> t \<in> set ignore_duplicates then oget a k
      else if t = ''set-cookie''
        then Some (concat_arr (if truthy old then old else Arr []) [Str n])
      else Some (if truthy old then append_text old n else Str n))"
  by (auto simp: add_header_def obj_simps Let_def)

lemma truthy_getp: "truthy (getp a k) \<Longrightarrow> oget a k = Some (getp a k)"
  by (cases "oget a k") auto

lemma oget_fold_headers:
  "oget (fold add_header ls []) k = header_result k (header_values k ls)"
proof (induction ls rule: rev_induct)
  case Nil
  then show ?case by (simp add: header_values_def header_result_def)
next
  case (snoc l ls)
  obtain t n where l: "l = (t, n)" by (cases l)
  let ?a = "fold add_header ls []"
  have step: "oget (fold add_header (ls @ [l]) []) k = oget (add_header (t, n) ?a) k"
    by (simp add: l)
  show ?case
  proof (cases "t = k")
    case True
    have vs: "header_values k (ls @ [l]) = header_values k ls @ [n]"
      by (simp add: header_values_def l True)
    have g: "getp ?a k = (case header_result k (header_values k ls) of Some x \<Rightarrow> x | None \<Rightarrow> Undef)"
      using snoc.IH by simp
    show ?thesis
    proof (cases "k = []")
      case True
      with \<open>t = k\<close> snoc.IH show ?thesis unfolding step
        by (simp add: oget_add_header header_result_def)
    next
      case False
      then show ?thesis
        unfolding step vs header_result_snoc oget_add_header True Let_def g [symmetric]
        by (auto dest: truthy_getp)
    qed
  next
    case False
    then have "header_values k (ls @ [l]) = header_values k ls" by (simp add: header_values_def l)
    with False snoc.IH show ?thesis unfolding step by (simp add: oget_add_header)
  qed
qed

end
