(* ===== verification/AxiosCore.thy ===== *)
theory AxiosCore
  imports AxiosUrl AxiosHeaders
begin

text \<open>
  The request pipeline of axios (\<open>chunk-vendors.ddcb6f91.js\<close>): the interceptor registry
  (module \<open>f6b4\<close>), cancellation (\<open>7a77\<close>, \<open>2e67\<close>, \<open>8df4\<close>), the defaults with their
  transformations (\<open>2444\<close>, \<open>c401\<close>), \<open>dispatchRequest\<close> (\<open>5270\<close>), \<open>Axios.prototype.request\<close>
  and the method helpers (\<open>0a06\<close>, \<open>cee4\<close>), \<open>settle\<close> and \<open>createError\<close> (\<open>467f\<close>, \<open>2d83\<close>,
  \<open>387f\<close>), and the XMLHttpRequest adapter (\<open>b50d\<close>): what it sends and how the first event of
  the request settles its promise. Data kinds that are not plain values (form data, buffers,
  blobs) and HTTP authentication are outside the value model.
\<close>

section \<open>Interceptors\<close>

type_synonym 'h handlers = "'h option list"

definition im_use :: "'h \<Rightarrow> 'h handlers \<Rightarrow> nat \<times> 'h handlers" where
  "im_use h hs = (length (hs @ [Some h]) - 1, hs @ [Some h])"

definition im_eject :: "nat \<Rightarrow> 'h handlers \<Rightarrow> 'h handlers" where
  "im_eject i hs = (if i < length hs \<and> hs ! i \<noteq> None then hs[i := None] else hs)"

text \<open>\<open>forEach\<close> visits the handlers that are not \<open>null\<close>.\<close>

definition im_for_each :: "('h \<Rightarrow> 'a \<Rightarrow> 'a) \<Rightarrow> 'h handlers \<Rightarrow> 'a \<Rightarrow> 'a" where
  "im_for_each f hs a = fold (\<lambda>t. case t of None \<Rightarrow> id | Some h \<Rightarrow> f h) hs a"

definition active :: "'h handlers \<Rightarrow> 'h list" where
  "active hs = concat (map (\<lambda>t. case t of None \<Rightarrow> [] | Some h \<Rightarrow> [h]) hs)"

lemma active_Nil [simp]: "active [] = []"
  by (simp add: active_def)

lemma active_append: "active (hs @ ks) = active hs @ active ks"
  by (simp add: active_def)

lemma for_each_active: "im_for_each f hs a = fold f (active hs) a"
  by (induction hs arbitrary: a) (auto simp: im_for_each_def active_def split: option.splits)

text \<open>What a client of a registry relies on: registration appends and names the handler, and
  ejecting by that name removes this handler and no other.\<close>

locale registry =
  fixes register :: "'h \<Rightarrow> 'r \<Rightarrow> nat \<times> 'r"
    and eject :: "nat \<Rightarrow> 'r \<Rightarrow> 'r"
    and slot :: "'r \<Rightarrow> nat \<Rightarrow> 'h option"
    and live :: "'r \<Rightarrow> 'h list"
    and size_of :: "'r \<Rightarrow> nat"
  assumes register_live: "live (snd (register h r)) = live r @ [h]"
    and register_slot: "slot (snd (register h r)) i = (if i = size_of r then Some h else slot r i)"
    and register_id: "fst (register h r) = size_of r"
    and register_size: "size_of (snd (register h r)) = Suc (size_of r)"
    and eject_slot: "slot (eject i r) j = (if j = i then None else slot r j)"
    and eject_size: "size_of (eject i r) = size_of r"
    and live_slots: "live r = concat (map (\<lambda>i. case slot r i of None \<Rightarrow> [] | Some h \<Rightarrow> [h]) [0..<size_of r])"
begin

lemma eject_registered: "live (eject (size_of r) (snd (register h r))) = live r"
proof -
  have "live (eject (size_of r) (snd (register h r)))
      = concat (map (\<lambda>i. case slot (eject (size_of r) (snd (register h r))) i of
           None \<Rightarrow> [] | Some h \<Rightarrow> [h]) [0..<Suc (size_of r)])"
    by (simp add: live_slots [of "eject _ _"] eject_size register_size)
  also have "\<dots> = concat (map (\<lambda>i. case slot r i of None \<Rightarrow> [] | Some h \<Rightarrow> [h]) [0..<size_of r])"
    by (simp add: eject_slot register_slot)
       (rule arg_cong [where f = concat], rule map_cong, auto simp: register_slot)
  finally show ?thesis by (simp add: live_slots)
qed

lemma names_stable:
  "slot (snd (register h (eject i r))) (fst (register h (eject i r))) = Some h"
  by (simp add: register_slot register_id)

end

definition im_slot :: "'h handlers \<Rightarrow> nat \<Rightarrow> 'h option" where
  "im_slot hs i = (if i < length hs then hs ! i else None)"

lemma im_slot_eject: "im_slot (im_eject i hs) j = (if j = i then None else im_slot hs j)"
  by (auto simp: im_slot_def im_eject_def nth_list_update)

interpretation interceptors: registry im_use im_eject im_slot active length
proof unfold_locales
  fix r :: "'h handlers" and h i j
  show "active (snd (im_use h r)) = active r @ [h]"
    by (simp add: im_use_def active_append) (simp add: active_def)
  show "im_slot (snd (im_use h r)) i = (if i = length r then Some h else im_slot r i)"
    by (auto simp: im_slot_def im_use_def nth_append)
  show "im_slot (im_eject i r) j = (if j = i then None else im_slot r j)"
    by (rule im_slot_eject)
  show "active r = concat (map (\<lambda>i. case im_slot r i of None \<Rightarrow> [] | Some h \<Rightarrow> [h]) [0..<length r])"
  proof -
    have "map (\<lambda>i. case im_slot r i of None \<Rightarrow> [] | Some h \<Rightarrow> [h]) [0..<length r]
        = map (\<lambda>t. case t of None \<Rightarrow> [] | Some h \<Rightarrow> [h]) r"
      by (rule nth_equalityI) (simp_all add: im_slot_def)
    then show ?thesis by (simp add: active_def)
  qed
qed (simp_all add: im_use_def im_eject_def)

section \<open>Promise chains\<close>

text \<open>The eventual result of a promise and of \<open>then\<close> with callbacks that give such results.\<close>

datatype settled = Ok jv | Err jv

type_synonym callback = "jv \<Rightarrow> settled"
type_synonym link = "callback option \<times> callback option"

fun then_link :: "link \<Rightarrow> settled \<Rightarrow> settled" where
  "then_link (f, r) (Ok v) = (case f of None \<Rightarrow> Ok v | Some g \<Rightarrow> g v)"
| "then_link (f, r) (Err e) = (case r of None \<Rightarrow> Err e | Some g \<Rightarrow> g e)"

text \<open>The array \<open>t = [dispatch, undefined]\<close>, with \<open>unshift\<close> for request interceptors and \<open>push\<close>
  for response interceptors; the \<open>while\<close> loop takes two entries at a time.\<close>

definition build_chain :: "link handlers \<Rightarrow> callback \<Rightarrow> link handlers \<Rightarrow> callback option list" where
  "build_chain req dispatch resp =
     (let t0 = [Some dispatch, None];
          t1 = im_for_each (\<lambda>e t. fst e # snd e # t) req t0
      in im_for_each (\<lambda>e t. t @ [fst e, snd e]) resp t1)"

fun run_chain :: "callback option list \<Rightarrow> settled \<Rightarrow> settled" where
  "run_chain [] n = n"
| "run_chain [f] n = then_link (f, None) n"
| "run_chain (f # r # t) n = run_chain t (then_link (f, r) n)"

definition flat :: "link list \<Rightarrow> callback option list" where
  "flat ls = concat (map (\<lambda>l. [fst l, snd l]) ls)"

lemma flat_simps [simp]: "flat [] = []" "flat (l # ls) = fst l # snd l # flat ls"
  by (simp_all add: flat_def)

lemma flat_append [simp]: "flat (ls @ ms) = flat ls @ flat ms"
  by (simp add: flat_def)

lemma fold_unshift: "fold (\<lambda>e t. fst e # snd e # t) ls t = flat (rev ls) @ t"
  by (induction ls arbitrary: t) simp_all

lemma fold_push: "fold (\<lambda>e t. t @ [fst e, snd e]) ls t = t @ flat ls"
  by (induction ls arbitrary: t) simp_all

lemma build_chain_eq:
  "build_chain req d resp = flat (rev (active req) @ [(Some d, None)] @ active resp)"
  by (simp add: build_chain_def for_each_active fold_unshift fold_push Let_def)

lemma run_chain_flat: "run_chain (flat ls @ t) n = run_chain t (fold then_link ls n)"
  by (induction ls arbitrary: n) simp_all

lemma run_build_chain:
  "run_chain (build_chain req d resp) n
     = fold then_link (active resp) (then_link (Some d, None) (fold then_link (rev (active req)) n))"
  using run_chain_flat [of "rev (active req) @ [(Some d, None)] @ active resp" "[]" n]
  by (simp add: build_chain_eq)

section \<open>Cancellation\<close>

text \<open>A \<open>Cancel\<close> object carries its message and the mark \<open>__CANCEL__\<close> of its prototype.\<close>

definition new_cancel :: "jv \<Rightarrow> jv" where
  "new_cancel m = Obj [(''message'', m), (''__CANCEL__'', Bool True)]"

definition is_cancel :: "jv \<Rightarrow> bool" where
  "is_cancel e \<longleftrightarrow> truthy e \<and> truthy (getv e ''__CANCEL__'')"

text \<open>A token holds its reason once cancelled; only the first call sets it.\<close>

type_synonym token = "jv option"

definition token_cancel :: "jv \<Rightarrow> token \<Rightarrow> token" where
  "token_cancel m t = (case t of Some r \<Rightarrow> Some r | None \<Rightarrow> Some (new_cancel m))"

text \<open>\<open>e.cancelToken && e.cancelToken.throwIfRequested()\<close>; a request without a token is \<open>None\<close>.\<close>

definition throw_if_requested :: "token option \<Rightarrow> jv option" where
  "throw_if_requested tk = (case tk of None \<Rightarrow> None | Some r \<Rightarrow> r)"

section \<open>Defaults and transformations\<close>

abbreviation (input) fn_transform_request :: nat where "fn_transform_request \<equiv> 0"
abbreviation (input) fn_transform_response :: nat where "fn_transform_response \<equiv> 1"
abbreviation (input) fn_validate_status :: nat where "fn_validate_status \<equiv> 2"
abbreviation (input) fn_adapter :: nat where "fn_adapter \<equiv> 3"

definition set_content_type_if_unset :: "jv obj \<Rightarrow> string \<Rightarrow> jv obj" where
  "set_content_type_if_unset h v =
     (if getp h ''Content-Type'' = Undef then oset ''Content-Type'' (Str v) h else h)"

definition default_transform_request :: "jv \<Rightarrow> jv obj \<Rightarrow> jv \<times> jv obj" where
  "default_transform_request e t =
     (let t1 = normalize_header_name t ''Content-Type'' in
      if is_object e
      then (json_stringify e, set_content_type_if_unset t1 ''application/json;charset=utf-8'')
      else (e, t1))"

fun default_transform_response :: "jv \<Rightarrow> jv" where
  "default_transform_response (Str s) = (case json_parse s of Some v \<Rightarrow> v | None \<Rightarrow> Str s)"
| "default_transform_response e = e"

definition default_validate_status :: "int \<Rightarrow> bool" where
  "default_validate_status e \<longleftrightarrow> 200 \<le> e \<and> e < 300"

definition form_type :: jv where
  "form_type = Obj [(''Content-Type'', Str ''application/x-www-form-urlencoded'')]"

definition axios_defaults :: "jv obj" where
  "axios_defaults =
     [(''adapter'', Fn fn_adapter),
      (''transformRequest'', Arr [Fn fn_transform_request]),
      (''transformResponse'', Arr [Fn fn_transform_response]),
      (''timeout'', Num 0),
      (''xsrfCookieName'', Str ''XSRF-TOKEN''),
      (''xsrfHeaderName'', Str ''X-XSRF-TOKEN''),
      (''maxContentLength'', Num (-1)),
      (''validateStatus'', Fn fn_validate_status),
      (''headers'', Obj
         [(''common'', Obj [(''Accept'', Str ''application/json, text/plain, */*'')]),
          (''delete'', Obj []), (''get'', Obj []), (''head'', Obj []),
          (''post'', form_type), (''put'', form_type), (''patch'', form_type)])]"

text \<open>Functions a caller puts into a configuration are interpreted by the environment; the
  names below 3 are axios's own.\<close>

record environment =
  custom_transform :: "nat \<Rightarrow> jv \<Rightarrow> jv obj \<Rightarrow> jv \<times> jv obj"
  custom_validate :: "nat \<Rightarrow> int \<Rightarrow> bool"
  custom_serializer :: "nat \<Rightarrow> jv \<Rightarrow> string"
  cookie :: "string \<Rightarrow> string option"
  same_origin :: "string \<Rightarrow> bool"

definition apply_transform :: "environment \<Rightarrow> nat \<Rightarrow> jv \<Rightarrow> jv obj \<Rightarrow> jv \<times> jv obj" where
  "apply_transform env k e t =
     (if k = fn_transform_request then default_transform_request e t
      else if k = fn_transform_response then (default_transform_response e, t)
      else custom_transform env k e t)"

text \<open>\<open>transformData\<close>: each function in turn; an entry that is no function raises (\<open>None\<close>).\<close>

fun transform_entries :: "environment \<Rightarrow> (string \<times> jv) list \<Rightarrow> jv \<Rightarrow> jv obj \<Rightarrow> (jv \<times> jv obj) option" where
  "transform_entries env [] e t = Some (e, t)"
| "transform_entries env ((_, f) # fs) e t =
     (case f of
        Fn k \<Rightarrow> (let (e', t') = apply_transform env k e t in transform_entries env fs e' t')
      | _ \<Rightarrow> None)"

definition transform_data :: "environment \<Rightarrow> jv \<Rightarrow> jv obj \<Rightarrow> jv \<Rightarrow> (jv \<times> jv obj) option" where
  "transform_data env e t n = transform_entries env (each n) e t"

definition validates :: "environment \<Rightarrow> jv \<Rightarrow> int \<Rightarrow> bool" where
  "validates env f st =
     (case f of Fn k \<Rightarrow> (if k = fn_validate_status then default_validate_status st else custom_validate env k st)
              | _ \<Rightarrow> True)"

section \<open>Errors and settling\<close>

definition create_error :: "string \<Rightarrow> jv \<Rightarrow> jv \<Rightarrow> jv \<Rightarrow> jv \<Rightarrow> jv" where
  "create_error msg config code req resp =
     Obj ([(''message'', Str msg), (''config'', config)]
          @ (if truthy code then [(''code'', code)] else [])
          @ [(''request'', req), (''response'', resp)])"

definition error_message :: "jv \<Rightarrow> string" where
  "error_message e = (case getv e ''message'' of Str s \<Rightarrow> s | _ \<Rightarrow> [])"

text \<open>\<open>settle\<close>: a response is refused when it has a non-zero status, there is a validator, and
  the validator refuses the status.\<close>

definition settle_response :: "environment \<Rightarrow> jv \<Rightarrow> settled" where
  "settle_response env n =
     (let st = (case getv n ''status'' of Num i \<Rightarrow> i | _ \<Rightarrow> 0);
          v = getv (getv n ''config'') ''validateStatus'' in
      if st \<noteq> 0 \<and> truthy v \<and> \<not> validates env v st
      then Err (create_error (''Request failed with status code '' @ show_int st)
                  (getv n ''config'') Null (getv n ''request'') n)
      else Ok n)"

section \<open>Dispatching a request\<close>

definition method_names :: "string list" where
  "method_names = [''delete'', ''get'', ''head'', ''post'', ''put'', ''patch'', ''common'']"

text \<open>\<open>e.headers || {}\<close> and the like.\<close>

fun or_empty :: "jv \<Rightarrow> jv" where
  "or_empty v = (if truthy v then v else Obj [])"

fun entries_of :: "jv \<Rightarrow> jv obj" where
  "entries_of (Obj ob) = ob"
| "entries_of _ = []"

fun str_of :: "jv \<Rightarrow> string" where
  "str_of (Str s) = s"
| "str_of _ = []"

text \<open>The part of \<open>dispatchRequest\<close> before the adapter runs: \<open>Inl\<close> is what it throws.\<close>

definition dispatch_prepare :: "environment \<Rightarrow> token option \<Rightarrow> jv obj \<Rightarrow> jv + jv obj" where
  "dispatch_prepare env tk e =
     (case throw_if_requested tk of
        Some c \<Rightarrow> Inl c
      | None \<Rightarrow>
        let base = getp e ''baseURL''; url = getp e ''url'';
            e1 = (if truthy base \<and> \<not> is_absolute_url (str_of url)
                  then oset ''url'' (Str (combine_urls (str_of base) (str_of url))) e else e);
            hd0 = entries_of (or_empty (getp e1 ''headers'')) in
        (case transform_data env (getp e1 ''data'') hd0 (getp e1 ''transformRequest'') of
           None \<Rightarrow> Inl (Str ''TypeError'')
         | Some (d, hd1) \<Rightarrow>
           let meth = str_of (getp e1 ''method'');
               merged = entries_of (merge [or_empty (getp hd1 ''common''), or_empty (getp hd1 meth), Obj hd1]);
               final = fold odel method_names merged
           in Inr (oset ''headers'' (Obj final) (oset ''data'' d e1))))"

text \<open>The two callbacks on the adapter's promise.\<close>

definition transform_response_of :: "environment \<Rightarrow> jv obj \<Rightarrow> jv \<Rightarrow> jv option" where
  "transform_response_of env e resp =
     map_option (\<lambda>(d, h). Obj (oset ''data'' d (entries_of resp)))
       (transform_data env (getv resp ''data'') (entries_of (getv resp ''headers'')) (getp e ''transformResponse''))"

definition dispatch_fulfilled :: "environment \<Rightarrow> token option \<Rightarrow> jv obj \<Rightarrow> jv \<Rightarrow> settled" where
  "dispatch_fulfilled env tk e t =
     (case throw_if_requested tk of
        Some c \<Rightarrow> Err c
      | None \<Rightarrow>
        (case transform_response_of env e t of
           None \<Rightarrow> Err (Str ''TypeError'')
         | Some t' \<Rightarrow> Ok t'))"

definition dispatch_rejected :: "environment \<Rightarrow> token option \<Rightarrow> jv obj \<Rightarrow> jv \<Rightarrow> settled" where
  "dispatch_rejected env tk e t =
     (if is_cancel t then Err t
      else
        (case throw_if_requested tk of
           Some c \<Rightarrow> Err c
         | None \<Rightarrow>
           if truthy t \<and> truthy (getv t ''response'')
           then (case transform_response_of env e (getv t ''response'') of
                   None \<Rightarrow> Err (Str ''TypeError'')
                 | Some r \<Rightarrow> Err (Obj (oset ''response'' r (entries_of t))))
           else Err t))"

text \<open>\<open>dispatchRequest\<close>, given what the adapter's promise eventually does with the prepared
  configuration, and the state of the token before and after.\<close>

definition dispatch_request ::
  "environment \<Rightarrow> token option \<Rightarrow> token option \<Rightarrow> (jv obj \<Rightarrow> settled) \<Rightarrow> jv \<Rightarrow> settled" where
  "dispatch_request env tk0 tk1 adapter config =
     (case dispatch_prepare env tk0 (entries_of config) of
        Inl c \<Rightarrow> Err c
      | Inr e \<Rightarrow>
        (case adapter e of
           Ok r \<Rightarrow> dispatch_fulfilled env tk1 e r
         | Err r \<Rightarrow> dispatch_rejected env tk1 e r))"

section \<open>Instances and requests\<close>

record ax_instance =
  inst_defaults :: jv
  req_interceptors :: "link handlers"
  resp_interceptors :: "link handlers"

text \<open>\<open>l.create = function(e){return s(i.merge(a, e))}\<close>\<close>

definition axios_create :: "jv \<Rightarrow> ax_instance" where
  "axios_create e =
     \<lparr>inst_defaults = merge [Obj axios_defaults, e], req_interceptors = [], resp_interceptors = []\<rparr>"

text \<open>The configuration of \<open>request(e)\<close> for an object \<open>e\<close>: the method in lower case.\<close>

definition request_config :: "ax_instance \<Rightarrow> jv \<Rightarrow> jv" where
  "request_config ax e =
     (let c = entries_of (merge [Obj axios_defaults, Obj [(''method'', Str ''get'')], inst_defaults ax, e])
      in Obj (oset ''method'' (Str (to_lower (str_of (getp c ''method'')))) c))"

definition axios_request ::
  "environment \<Rightarrow> token option \<Rightarrow> token option \<Rightarrow> (jv obj \<Rightarrow> settled) \<Rightarrow> ax_instance \<Rightarrow> jv \<Rightarrow> settled" where
  "axios_request env tk0 tk1 adapter ax e =
     run_chain
       (build_chain (req_interceptors ax) (dispatch_request env tk0 tk1 adapter) (resp_interceptors ax))
       (Ok (request_config ax e))"

text \<open>\<open>axios.get(t, n)\<close> and \<open>delete\<close>; \<open>axios.post(t, n, i)\<close> and \<open>put\<close>.\<close>

definition bodyless_config :: "string \<Rightarrow> string \<Rightarrow> jv \<Rightarrow> jv" where
  "bodyless_config meth url n = merge [or_empty n, Obj [(''method'', Str meth), (''url'', Str url)]]"

definition body_config :: "string \<Rightarrow> string \<Rightarrow> jv \<Rightarrow> jv \<Rightarrow> jv" where
  "body_config meth url data i =
     merge [or_empty i, Obj [(''method'', Str meth), (''url'', Str url), (''data'', data)]]"

section \<open>The XMLHttpRequest adapter\<close>

text \<open>What is handed to the browser: \<open>open\<close>, \<open>setRequestHeader\<close> and \<open>send\<close>.\<close>

record http_request =
  rq_method :: string
  rq_url :: string
  rq_headers :: "(string \<times> string) list"
  rq_body :: "string option"

definition xsrf_header :: "environment \<Rightarrow> jv obj \<Rightarrow> jv obj \<Rightarrow> jv obj" where
  "xsrf_header env e d =
     (let u = str_of (getp e ''url''); name = str_of (getp e ''xsrfCookieName'') in
      if (truthy (getp e ''withCredentials'') \<or> same_origin env u) \<and> name \<noteq> []
      then (case cookie env name of
              Some v \<Rightarrow> if v \<noteq> [] then oset (str_of (getp e ''xsrfHeaderName'')) (Str v) d else d
            | None \<Rightarrow> d)
      else d)"

text \<open>Headers are set one by one; without a body the content type is dropped instead.\<close>

definition send_headers :: "jv \<Rightarrow> jv obj \<Rightarrow> (string \<times> string) list" where
  "send_headers u d =
     map (\<lambda>(t, v). (t, string_of v))
       (filter (\<lambda>(t, v). \<not> (u = Undef \<and> to_lower t = ''content-type'')) d)"

definition xhr_open :: "environment \<Rightarrow> jv obj \<Rightarrow> http_request" where
  "xhr_open env e =
     (let u = getp e ''data''; d = entries_of (getp e ''headers'');
          ser = (case getp e ''paramsSerializer'' of Fn k \<Rightarrow> Some (custom_serializer env k) | _ \<Rightarrow> None)
      in \<lparr>rq_method = to_upper (str_of (getp e ''method'')),
          rq_url = build_url (str_of (getp e ''url'')) (getp e ''params'') ser,
          rq_headers = send_headers u (xsrf_header env e d),
          rq_body = (case u of Undef \<Rightarrow> None | Null \<Rightarrow> None | _ \<Rightarrow> Some (string_of u))\<rparr>)"

text \<open>Events of the request object.\<close>

datatype xhr_event =
    ReadyState nat int string string string
  | NetworkError
  | TimeoutEvent
  | CancelEvent jv

text \<open>\<open>ReadyState readyState status statusText responseText rawHeaders\<close>. The adapter's state:
  whether \<open>h\<close> is still set, and what the promise was settled with.\<close>

record xhr =
  x_open :: bool
  x_aborted :: bool
  x_result :: "settled option"

definition xhr_init :: xhr where
  "xhr_init = \<lparr>x_open = True, x_aborted = False, x_result = None\<rparr>"

text \<open>The first call of the promise's resolving functions counts.\<close>

definition settle_once :: "settled \<Rightarrow> xhr \<Rightarrow> xhr" where
  "settle_once r x = x\<lparr>x_open := False, x_result := (case x_result x of None \<Rightarrow> Some r | Some q \<Rightarrow> Some q)\<rparr>"

definition xhr_response :: "jv obj \<Rightarrow> int \<Rightarrow> string \<Rightarrow> string \<Rightarrow> string \<Rightarrow> jv" where
  "xhr_response e st stext body raw =
     Obj [(''data'', Str body), (''status'', Num st), (''statusText'', Str stext),
          (''headers'', Obj (parse_headers raw)), (''config'', Obj e), (''request'', Undef)]"

fun xhr_handle :: "environment \<Rightarrow> jv obj \<Rightarrow> xhr_event \<Rightarrow> xhr \<Rightarrow> xhr" where
  "xhr_handle env e (ReadyState rs st stext body raw) x =
     (if x_open x \<and> rs = 4 \<and> st \<noteq> 0
      then settle_once (settle_response env (xhr_response e st stext body raw)) x
      else x)"
| "xhr_handle env e NetworkError x =
     settle_once (Err (create_error ''Network Error'' (Obj e) Null Undef Undef)) x"
| "xhr_handle env e TimeoutEvent x =
     settle_once (Err (create_error (''timeout of '' @ string_of (getp e ''timeout'') @ ''ms exceeded'')
        (Obj e) (Str ''ECONNABORTED'') Undef Undef)) x"
| "xhr_handle env e (CancelEvent c) x =
     (if x_open x then settle_once (Err c) (x\<lparr>x_aborted := True\<rparr>) else x)"

definition xhr_run :: "environment \<Rightarrow> jv obj \<Rightarrow> xhr_event list \<Rightarrow> xhr" where
  "xhr_run env e evs = fold (xhr_handle env e) evs xhr_init"

end
