(* ===== verification/JsArray.thy ===== *)
theory JsArray
  imports Prelude
begin

text \<open>
  The array operations of the core-js polyfills bundled with the front end
  (\<open>src/bubble/static/js/chunk-vendors.ddcb6f91.js\<close>): the number conversions \<open>ToInteger\<close>
  (module \<open>a691\<close>), \<open>ToAbsoluteIndex\<close> (\<open>23cb\<close>) and \<open>ToLength\<close> (\<open>50c4\<close>), and
  \<open>Array.prototype.splice\<close> (\<open>a434\<close>), loop by loop, on arrays with holes. The lemmas show that on
  dense arrays the loops compute the list function of the language standard.
\<close>

section \<open>Numbers and their conversions\<close>

datatype js_number = NaN | NegInf | PosInf | Fin rat

datatype js_integer = NegInfI | PosInfI | Integer int

datatype js_exn = TypeError string

fun to_integer :: "js_number \<Rightarrow> js_integer" where
  "to_integer NaN = Integer 0"
| "to_integer NegInf = NegInfI"
| "to_integer PosInf = PosInfI"
| "to_integer (Fin q) = Integer (if q > 0 then \<lfloor>q\<rfloor> else \<lceil>q\<rceil>)"

text \<open>\<open>r(n + t, 0)\<close> and \<open>o(n, t)\<close> are \<open>Math.max\<close> and \<open>Math.min\<close>; a length is finite.\<close>

fun to_absolute_index :: "js_number \<Rightarrow> nat \<Rightarrow> nat" where
  "to_absolute_index e t =
     (case to_integer e of
        NegInfI \<Rightarrow> 0
      | PosInfI \<Rightarrow> t
      | Integer n \<Rightarrow> if n < 0 then nat (max (n + int t) 0) else min (nat n) t)"

definition max_safe :: nat where
  "max_safe = 9007199254740991"

fun to_length :: "js_number \<Rightarrow> nat" where
  "to_length e =
     (case to_integer e of
        NegInfI \<Rightarrow> 0
      | PosInfI \<Rightarrow> max_safe
      | Integer n \<Rightarrow> min (nat n) max_safe)"

lemma to_absolute_index_le: "to_absolute_index e t \<le> t"
  by (auto split: js_integer.splits)

lemma to_length_le: "to_length e \<le> max_safe"
  by (auto split: js_integer.splits)

lemma to_integer_of_int [simp]: "to_integer (Fin (rat_of_int i)) = Integer i"
  by simp

lemma to_absolute_index_nat [simp]: "to_absolute_index (Fin (of_nat i)) t = min i t"
  by (auto simp del: of_nat_0_less_iff simp: ceiling_of_nat floor_of_nat)

section \<open>Arrays with holes\<close>

record 'a js_array =
  len :: nat
  elt :: "nat \<Rightarrow> 'a option"

text \<open>\<open>new Array(n)\<close>, \<open>b[i] = x\<close>, \<open>delete b[i]\<close> and \<open>b.length = n\<close>.\<close>

definition new_array :: "nat \<Rightarrow> 'a js_array" where
  "new_array n = \<lparr>len = n, elt = (\<lambda>_. None)\<rparr>"

definition put :: "nat \<Rightarrow> 'a \<Rightarrow> 'a js_array \<Rightarrow> 'a js_array" where
  "put i x b = b\<lparr>len := max (len b) (Suc i), elt := (elt b)(i := Some x)\<rparr>"

definition del :: "nat \<Rightarrow> 'a js_array \<Rightarrow> 'a js_array" where
  "del i b = b\<lparr>elt := (elt b)(i := None)\<rparr>"

definition set_length :: "nat \<Rightarrow> 'a js_array \<Rightarrow> 'a js_array" where
  "set_length n b = b\<lparr>len := n, elt := (\<lambda>i. if i < n then elt b i else None)\<rparr>"

text \<open>\<open>v in b ? b[g] = b[v] : delete b[g]\<close>\<close>

definition move_elt :: "nat \<Rightarrow> nat \<Rightarrow> 'a js_array \<Rightarrow> 'a js_array" where
  "move_elt v g b = (case elt b v of Some x \<Rightarrow> put g x b | None \<Rightarrow> del g b)"

text \<open>The loops of \<open>splice\<close>, with the names of the code: \<open>y\<close> the length, \<open>s\<close> the start
  (\<open>_\<close> in the code), \<open>i\<close> the number of removed and \<open>n\<close> the number of inserted elements.\<close>

definition copy_removed :: "nat \<Rightarrow> nat \<Rightarrow> 'a js_array \<Rightarrow> 'a js_array" where
  "copy_removed s i b =
     set_length i
       (fold (\<lambda>m u. case elt b (s + m) of Some x \<Rightarrow> put m x u | None \<Rightarrow> u) [0..<i] (new_array i))"

definition shift_down :: "nat \<Rightarrow> nat \<Rightarrow> nat \<Rightarrow> nat \<Rightarrow> 'a js_array \<Rightarrow> 'a js_array" where
  "shift_down y s i n b = fold (\<lambda>m. move_elt (m + i) (m + n)) [s..<y - i] b"

definition delete_tail :: "nat \<Rightarrow> nat \<Rightarrow> nat \<Rightarrow> 'a js_array \<Rightarrow> 'a js_array" where
  "delete_tail y i n b = fold (\<lambda>m. del (m - 1)) (rev [Suc (y - i + n)..<Suc y]) b"

definition shift_up :: "nat \<Rightarrow> nat \<Rightarrow> nat \<Rightarrow> nat \<Rightarrow> 'a js_array \<Rightarrow> 'a js_array" where
  "shift_up y s i n b = fold (\<lambda>m. move_elt (m + i - 1) (m + n - 1)) (rev [Suc s..<Suc (y - i)]) b"

definition write_items :: "nat \<Rightarrow> 'a list \<Rightarrow> 'a js_array \<Rightarrow> 'a js_array" where
  "write_items s items b = fold (\<lambda>m. put (m + s) (items ! m)) [0..<length items] b"

text \<open>The argument list of a call of \<open>splice\<close>.\<close>

datatype 'a splice_args =
    NoArgs
  | StartOnly js_number
  | StartCount js_number js_number "'a list"

fun splice_start :: "'a splice_args \<Rightarrow> nat \<Rightarrow> nat" where
  "splice_start NoArgs y = 0"
| "splice_start (StartOnly e) y = to_absolute_index e y"
| "splice_start (StartCount e _ _) y = to_absolute_index e y"

fun clamp_count :: "js_number \<Rightarrow> nat \<Rightarrow> nat" where
  "clamp_count t r =
     (case to_integer t of
        NegInfI \<Rightarrow> 0
      | PosInfI \<Rightarrow> r
      | Integer k \<Rightarrow> min (nat (max k 0)) r)"

fun splice_count :: "'a splice_args \<Rightarrow> nat \<Rightarrow> nat" where
  "splice_count NoArgs y = 0"
| "splice_count (StartOnly e) y = y - to_absolute_index e y"
| "splice_count (StartCount e t _) y = clamp_count t (y - to_absolute_index e y)"

fun splice_items :: "'a splice_args \<Rightarrow> 'a list" where
  "splice_items (StartCount _ _ items) = items"
| "splice_items _ = []"

definition js_splice :: "'a js_array \<Rightarrow> 'a splice_args \<Rightarrow> js_exn + ('a js_array \<times> 'a js_array)" where
  "js_splice b args =
     (let y = to_length (Fin (of_nat (len b)));
          s = splice_start args y;
          i = splice_count args y;
          items = splice_items args;
          n = length items
      in if y + n - i > max_safe then Inl (TypeError ''Maximum allowed length exceeded'')
         else
           let u = copy_removed s i b;
               b1 = (if n < i then delete_tail y i n (shift_down y s i n b)
                     else if n > i then shift_up y s i n b
                     else b);
               b2 = write_items s items b1
           in Inr (set_length (y - i + n) b2, u))"

section \<open>The loops on all arrays\<close>

lemma elt_put: "elt (put i x b) j = (if j = i then Some x else elt b j)"
  by (simp add: put_def)

lemma elt_del: "elt (del i b) j = (if j = i then None else elt b j)"
  by (simp add: del_def)

lemma elt_move_elt: "elt (move_elt v g b) j = (if j = g then elt b v else elt b j)"
  by (simp add: move_elt_def elt_put elt_del split: option.splits)

lemma elt_set_length: "elt (set_length n b) j = (if j < n then elt b j else None)"
  by (simp add: set_length_def)

lemma len_set_length [simp]: "len (set_length n b) = n"
  by (simp add: set_length_def)

lemmas elt_simps = elt_put elt_del elt_move_elt elt_set_length

lemma elt_copy_loop:
  "elt (fold (\<lambda>m u. case elt b (s + m) of Some x \<Rightarrow> put m x u | None \<Rightarrow> u) [0..<i] (new_array k)) j
     = (if j < i then elt b (s + j) else None)"
  by (induction i) (auto simp: new_array_def elt_put less_Suc_eq split: option.splits)

lemma elt_copy_removed: "elt (copy_removed s i b) j = (if j < i then elt b (s + j) else None)"
  by (simp add: copy_removed_def elt_set_length elt_copy_loop)

lemma len_copy_removed [simp]: "len (copy_removed s i b) = i"
  by (simp add: copy_removed_def)

lemma elt_move_loop_down:
  assumes "n < i" and "s \<le> e"
  shows "elt (fold (\<lambda>m. move_elt (m + i) (m + n)) [s..<e] b) j
           = (if s + n \<le> j \<and> j < e + n then elt b (j - n + i) else elt b j)"
  using assms(2)
proof (induction e arbitrary: j rule: dec_induct)
  case base
  then show ?case by auto
next
  case (step e)
  have "\<not> e + i < e + n" using assms(1) by simp
  then show ?case using step by (auto simp: elt_move_elt)
qed

lemma elt_shift_down:
  assumes "n < i" and "s + i \<le> y"
  shows "elt (shift_down y s i n b) j
           = (if s + n \<le> j \<and> j < y - i + n then elt b (j - n + i) else elt b j)"
  using elt_move_loop_down [OF assms(1), of s "y - i" b j] assms(2)
  by (simp add: shift_down_def)

lemma elt_delete_loop:
  "elt (fold (\<lambda>m. del (m - 1)) (rev [Suc lo..<Suc hi]) b) j
     = (if lo \<le> j \<and> j < hi then None else elt b j)"
proof (induction hi arbitrary: b)
  case 0
  then show ?case by simp
next
  case (Suc hi)
  show ?case
  proof (cases "lo \<le> hi")
    case True
    then have "[Suc lo..<Suc (Suc hi)] = [Suc lo..<Suc hi] @ [Suc hi]" by simp
    then show ?thesis using Suc.IH [of "del hi b"] True by (auto simp: elt_del)
  next
    case False
    then show ?thesis by auto
  qed
qed

lemma elt_delete_tail:
  "elt (delete_tail y i n b) j = (if y - i + n \<le> j \<and> j < y then None else elt b j)"
  unfolding delete_tail_def by (rule elt_delete_loop)

lemma elt_move_loop_up:
  assumes "i < n"
  shows "elt (fold (\<lambda>m. move_elt (m + i - 1) (m + n - 1)) (rev [Suc s..<Suc e]) b) j
           = (if s + n \<le> j \<and> j < e + n then elt b (j - n + i) else elt b j)"
proof (induction e arbitrary: b)
  case 0
  then show ?case by auto
next
  case (Suc e)
  show ?case
  proof (cases "s \<le> e")
    case True
    then have upt: "[Suc s..<Suc (Suc e)] = [Suc s..<Suc e] @ [Suc e]" by simp
    have "elt (fold (\<lambda>m. move_elt (m + i - 1) (m + n - 1)) (rev [Suc s..<Suc (Suc e)]) b) j
            = (if s + n \<le> j \<and> j < e + n then elt (move_elt (e + i) (e + n) b) (j - n + i)
               else elt (move_elt (e + i) (e + n) b) j)"
      unfolding upt using Suc.IH [of "move_elt (e + i) (e + n) b"] by simp
    moreover have "s + n \<le> j \<and> j < e + n \<Longrightarrow> j - n + i \<noteq> e + n" using assms by linarith
    ultimately show ?thesis using True assms by (auto simp: elt_move_elt)
  next
    case False
    then show ?thesis by auto
  qed
qed

lemma elt_shift_up:
  "i < n \<Longrightarrow> elt (shift_up y s i n b) j
     = (if s + n \<le> j \<and> j < y - i + n then elt b (j - n + i) else elt b j)"
  unfolding shift_up_def by (rule elt_move_loop_up)

lemma elt_write_items:
  "elt (write_items s items b) j
     = (if s \<le> j \<and> j < s + length items then Some (items ! (j - s)) else elt b j)"
proof -
  have "elt (fold (\<lambda>m. put (m + s) (items ! m)) [0..<k] b) j
          = (if s \<le> j \<and> j < s + k then Some (items ! (j - s)) else elt b j)" for k
    by (induction k) (auto simp: elt_put)
  then show ?thesis by (simp add: write_items_def)
qed

section \<open>Dense arrays\<close>

text \<open>The array that a list denotes: no holes, nothing beyond the length.\<close>

definition of_list :: "'a list \<Rightarrow> 'a js_array" where
  "of_list xs = \<lparr>len = length xs, elt = (\<lambda>i. if i < length xs then Some (xs ! i) else None)\<rparr>"

definition to_list :: "'a js_array \<Rightarrow> 'a list" where
  "to_list b = map (\<lambda>i. the (elt b i)) [0..<len b]"

definition dense :: "'a js_array \<Rightarrow> bool" where
  "dense b \<longleftrightarrow> b = of_list (to_list b)"

lemma len_of_list [simp]: "len (of_list xs) = length xs"
  by (simp add: of_list_def)

lemma elt_of_list: "elt (of_list xs) i = (if i < length xs then Some (xs ! i) else None)"
  by (simp add: of_list_def)

lemma to_of_list [simp]: "to_list (of_list xs) = xs"
  by (auto simp: to_list_def of_list_def intro: nth_equalityI)

lemma dense_of_list [simp]: "dense (of_list xs)"
  by (simp add: dense_def)

lemma dense_cases: "dense b \<Longrightarrow> (\<And>xs. b = of_list xs \<Longrightarrow> P) \<Longrightarrow> P"
  by (auto simp: dense_def)

lemma js_array_eqI: "len b = len c \<Longrightarrow> (\<And>i. elt b i = elt c i) \<Longrightarrow> b = (c :: 'a js_array)"
  by (cases b; cases c) auto

lemma splice_count_le: "splice_start args y + splice_count args y \<le> y"
proof (cases args)
  case (StartCount e t items)
  have "clamp_count t r \<le> r" for r by (auto split: js_integer.splits)
  then show ?thesis using StartCount to_absolute_index_le [of e y]
    by (simp del: clamp_count.simps to_absolute_index.simps)
       (metis add_le_mono1 le_add_diff_inverse nat_add_left_cancel_le)
qed (simp_all add: to_absolute_index_le del: to_absolute_index.simps)

lemma copy_removed_of_list:
  "s + i \<le> length xs \<Longrightarrow> copy_removed s i (of_list xs) = of_list (take i (drop s xs))"
  by (rule js_array_eqI) (auto simp: elt_copy_removed elt_of_list)

lemma to_length_of_nat: "n \<le> max_safe \<Longrightarrow> to_length (Fin (of_nat n)) = n"
  by (auto simp: ceiling_of_nat floor_of_nat)

lemma splice_body_of_list:
  fixes xs items :: "'a list"
  assumes le: "s + i \<le> length xs"
  defines "n \<equiv> length items" and "y \<equiv> length xs"
  shows "set_length (y - i + n)
           (write_items s items
             (if n < i then delete_tail y i n (shift_down y s i n (of_list xs))
              else if n > i then shift_up y s i n (of_list xs)
              else of_list xs))
         = of_list (take s xs @ items @ drop (s + i) xs)" (is "?lhs = ?rhs")
proof (rule js_array_eqI)
  show "len ?lhs = len ?rhs" using le by (simp add: n_def y_def)
next
  fix j
  show "elt ?lhs j = elt ?rhs j"
    using le
    by (auto simp: elt_set_length elt_write_items elt_delete_tail elt_shift_down elt_shift_up
        elt_of_list nth_append n_def y_def algebra_simps)
qed

theorem js_splice_dense:
  fixes args :: "'a splice_args"
  assumes "length xs + length (splice_items args) \<le> max_safe"
  defines "s \<equiv> splice_start args (length xs)" and "i \<equiv> splice_count args (length xs)"
  shows "js_splice (of_list xs) args
           = Inr (of_list (take s xs @ splice_items args @ drop (s + i) xs), of_list (take i (drop s xs)))"
proof -
  have le: "s + i \<le> length xs" by (simp add: s_def i_def splice_count_le)
  have y: "to_length (Fin (of_nat (length xs))) = length xs"
    using assms(1) by (intro to_length_of_nat) simp
  have "\<not> length xs + length (splice_items args) - i > max_safe" using assms(1) by simp
  then show ?thesis
    unfolding js_splice_def Let_def len_of_list y s_def [symmetric] i_def [symmetric]
    using splice_body_of_list [OF le, of "splice_items args"] copy_removed_of_list [OF le]
    by simp
qed

section \<open>Tables of rows\<close>

text \<open>
  What a client that shows a table relies on when it removes a row by its index: the interface
  of \<open>splice(i, 1)\<close> on the array behind the table.
\<close>

locale row_table =
  fixes rows :: "'t \<Rightarrow> 'a list"
    and remove_row :: "nat \<Rightarrow> 't \<Rightarrow> 't"
    and wf_table :: "'t \<Rightarrow> bool"
  assumes rows_remove: "wf_table t \<Longrightarrow> rows (remove_row i t) = take i (rows t) @ drop (Suc i) (rows t)"
    and wf_remove: "wf_table t \<Longrightarrow> wf_table (remove_row i t)"
begin

lemma remove_out_of_range: "wf_table t \<Longrightarrow> length (rows t) \<le> i \<Longrightarrow> rows (remove_row i t) = rows t"
  by (simp add: rows_remove)

lemma remove_length:
  "wf_table t \<Longrightarrow> i < length (rows t) \<Longrightarrow> Suc (length (rows (remove_row i t))) = length (rows t)"
  by (simp add: rows_remove)

lemma remove_set: "wf_table t \<Longrightarrow> set (rows (remove_row i t)) \<subseteq> set (rows t)"
  by (auto simp: rows_remove dest: in_set_takeD in_set_dropD)

lemma remove_distinct: "wf_table t \<Longrightarrow> distinct (rows t) \<Longrightarrow> distinct (rows (remove_row i t))"
  by (simp add: rows_remove set_take_disj_set_drop_if_distinct)

lemma remove_exact:
  assumes "wf_table t" and "distinct (rows t)" and "i < length (rows t)"
  shows "rows (remove_row i t) = filter (\<lambda>x. x \<noteq> rows t ! i) (rows t)"
proof -
  let ?xs = "rows t"
  have split: "?xs = take i ?xs @ ?xs ! i # drop (Suc i) ?xs" using assms(3) by (rule id_take_nth_drop)
  with assms(2) have d: "distinct (take i ?xs @ ?xs ! i # drop (Suc i) ?xs)" by simp
  then have "filter (\<lambda>x. x \<noteq> ?xs ! i) (take i ?xs @ ?xs ! i # drop (Suc i) ?xs)
               = take i ?xs @ drop (Suc i) ?xs"
    by (simp add: filter_neq_id)
  with split have "filter (\<lambda>x. x \<noteq> ?xs ! i) ?xs = take i ?xs @ drop (Suc i) ?xs" by simp
  with assms(1) show ?thesis by (simp add: rows_remove)
qed

end

text \<open>\<open>this.tableData.splice(i, 1)\<close>: the array afterwards.\<close>

definition splice_one :: "nat \<Rightarrow> 'a js_array \<Rightarrow> 'a js_array" where
  "splice_one i b =
     (case js_splice b (StartCount (Fin (of_nat i)) (Fin 1) []) of
        Inr (b', _) \<Rightarrow> b'
      | Inl _ \<Rightarrow> b)"

definition proper_array :: "'a js_array \<Rightarrow> bool" where
  "proper_array b \<longleftrightarrow> dense b \<and> len b \<le> max_safe"

lemma proper_of_list [simp]: "proper_array (of_list xs) \<longleftrightarrow> length xs \<le> max_safe"
  by (simp add: proper_array_def)

lemma clamp_count_one: "clamp_count (Fin 1) r = min 1 r"
  by simp

lemma splice_one_of_list:
  assumes "length xs \<le> max_safe"
  shows "splice_one i (of_list xs) = of_list (take i xs @ drop (Suc i) xs)"
proof -
  let ?args = "StartCount (Fin (of_nat i)) (Fin 1) []"
  have s: "splice_start ?args (length xs) = min i (length xs)"
    and c: "splice_count ?args (length xs) = min 1 (length xs - min i (length xs))"
    by (simp_all only: splice_start.simps splice_count.simps to_absolute_index_nat clamp_count_one)
  have "take (min i (length xs)) xs
          @ drop (min i (length xs) + min 1 (length xs - min i (length xs))) xs
        = take i xs @ drop (Suc i) xs"
    by (cases "i < length xs") (auto simp: min_def)
  then show ?thesis
    using js_splice_dense [of xs ?args] assms unfolding splice_one_def s c by simp
qed

interpretation js_rows: row_table to_list splice_one proper_array
proof unfold_locales
  fix t :: "'a js_array" and i
  assume t: "proper_array t"
  then obtain xs where xs: "t = of_list xs" "length xs \<le> max_safe"
    by (auto simp: proper_array_def elim: dense_cases)
  then show "to_list (splice_one i t) = take i (to_list t) @ drop (Suc i) (to_list t)"
    by (simp add: splice_one_of_list)
  have "length (take i xs @ drop (Suc i) xs) \<le> length xs" by simp
  with xs show "proper_array (splice_one i t)"
    by (simp add: splice_one_of_list del: length_append length_take length_drop)
qed

end
