(* ===== verification/TodoClient.thy ===== *)
theory TodoClient
  imports AxiosCore JsArray
begin

text \<open>
  The front end's own code, \<open>src/bubble/static/js/app.007f9690.js\<close> (module \<open>56d7\<close>): the axios
  instance with its two pass-through interceptors, and the \<open>TodoList\<close> component, its data, its
  \<open>mounted\<close> hook and its methods. Rows are objects in a heap, because a callback of \<open>handleEdit\<close>
  reads the row object the click captured and writes the row object the table holds when the
  reply comes; both may differ by then. A click gives the requests it sends, each with the
  continuation that its reply runs.
\<close>

section \<open>The axios instance of the application\<close>

text \<open>\<open>a.a.create({})\<close>, then \<open>use(e => e, e => Promise.reject(e))\<close> on both registries.\<close>

definition pass_through :: link where
  "pass_through = (Some Ok, Some Err)"

definition app_axios :: ax_instance where
  "app_axios =
     (let ax = axios_create (Obj []) in
      ax\<lparr>req_interceptors := snd (im_use pass_through (req_interceptors ax)),
         resp_interceptors := snd (im_use pass_through (resp_interceptors ax))\<rparr>)"

lemma then_pass_through [simp]: "then_link pass_through n = n"
  by (cases n) (simp_all add: pass_through_def)

lemma app_axios_fields [simp]:
  "active (req_interceptors app_axios) = [pass_through]"
  "active (resp_interceptors app_axios) = [pass_through]"
  "inst_defaults app_axios = merge [Obj axios_defaults, Obj []]"
  by (simp_all add: app_axios_def axios_create_def im_use_def active_def Let_def)

text \<open>The interceptors change nothing: a request is its dispatch.\<close>

lemma app_request_dispatch:
  "axios_request env tk0 tk1 adapter app_axios e
     = dispatch_request env tk0 tk1 adapter (request_config app_axios e)"
  by (simp add: axios_request_def run_build_chain)

section \<open>State of the component\<close>

text \<open>\<open>tableData\<close> starts as an array and becomes whatever the list request answers.\<close>

datatype table = Table "nat js_array" | NotArray jv

datatype toast = Added | Deleted | EmptyTitle | Marked jv bool

record client =
  tableData :: table
  newTitle :: string
  row_heap :: "nat \<Rightarrow> jv"
  next_row :: nat
  toasts :: "toast list"
  unhandled :: nat

definition init_client :: client where
  "init_client = \<lparr>tableData = Table (of_list []), newTitle = [], row_heap = (\<lambda>_. Undef),
     next_row = 0, toasts = [], unhandled = 0\<rparr>"

text \<open>What a reply runs: the callbacks passed to \<open>then\<close>, with the variables they capture.\<close>

datatype continuation =
    KList
  | KAdd
  | KEdit nat nat bool
  | KDelete nat

type_synonym sent = "jv \<times> continuation"

section \<open>Methods\<close>

definition todo_url :: string where
  "todo_url = ''/v1/todo''"

text \<open>\<open>getTodoList\<close>, also the body of \<open>mounted\<close>.\<close>

definition getTodoList :: sent where
  "getTodoList = (bodyless_config ''get'' todo_url Undef, KList)"

text \<open>\<open>tableRowClassName\<close>\<close>

definition tableRowClassName :: "jv \<Rightarrow> string" where
  "tableRowClassName row = (if truthy (getv row ''status'') then ''success-row'' else [])"

text \<open>\<open>handleEdit(e, t)\<close>: \<open>t\<close> is the row object. The wording of the message is fixed at the click,
  the title is read when the reply comes.\<close>

definition handleEdit :: "nat \<Rightarrow> nat \<Rightarrow> client \<Rightarrow> sent" where
  "handleEdit e t c =
     (let row = row_heap c t; st = truthy (getv row ''status'') in
      (body_config ''put'' (todo_url @ ''/'' @ string_of (getv row ''id'')) (Obj [(''status'', Bool (\<not> st))]) Undef,
       KEdit e t (\<not> st)))"

text \<open>\<open>handleDelete(e, t)\<close>: \<open>t\<close> is the row's id.\<close>

definition handleDelete :: "nat \<Rightarrow> jv \<Rightarrow> sent" where
  "handleDelete e t = (bodyless_config ''delete'' (todo_url @ ''/'' @ string_of t) Undef, KDelete e)"

text \<open>\<open>handleAdd()\<close>\<close>

definition handleAdd :: "client \<Rightarrow> client \<times> sent list" where
  "handleAdd c =
     (if newTitle c \<noteq> [] then
        (c\<lparr>newTitle := []\<rparr>,
         [(body_config ''post'' todo_url (Obj [(''title'', Str (newTitle c))]) Undef, KAdd)])
      else (c\<lparr>toasts := toasts c @ [EmptyTitle]\<rparr>, []))"

section \<open>Replies\<close>

text \<open>The objects of a JSON array are new objects.\<close>

fun alloc :: "jv list \<Rightarrow> nat \<Rightarrow> (nat \<Rightarrow> jv) \<Rightarrow> nat list \<times> nat \<times> (nat \<Rightarrow> jv)" where
  "alloc [] n h = ([], n, h)"
| "alloc (v # vs) n h = (let (as, n', h') = alloc vs (Suc n) (h(n := v)) in (n # as, n', h'))"

fun set_table :: "jv \<Rightarrow> client \<Rightarrow> client" where
  "set_table (Arr vs) c =
     (let (as, n, h) = alloc vs (next_row c) (row_heap c) in
      c\<lparr>tableData := Table (of_list as), next_row := n, row_heap := h\<rparr>)"
| "set_table v c = c\<lparr>tableData := NotArray v\<rparr>"

definition reject_unhandled :: "client \<Rightarrow> client" where
  "reject_unhandled c = c\<lparr>unhandled := Suc (unhandled c)\<rparr>"

text \<open>\<open>n.tableData[e].status = b\<close>; \<open>None\<close> where it raises a \<open>TypeError\<close>.\<close>

fun set_status :: "nat \<Rightarrow> bool \<Rightarrow> client \<Rightarrow> client option" where
  "set_status e b c =
     (case tableData c of
        Table arr \<Rightarrow>
          (case elt arr e of
             None \<Rightarrow> None
           | Some a \<Rightarrow>
             (case row_heap c a of
                Obj ob \<Rightarrow> Some (c\<lparr>row_heap := (row_heap c)(a := Obj (oset ''status'' (Bool b) ob))\<rparr>)
              | _ \<Rightarrow> None))
      | NotArray (Obj ob) \<Rightarrow>
          (case getp ob (show_nat e) of
             Obj r \<Rightarrow> Some (c\<lparr>tableData := NotArray (Obj (oset (show_nat e) (Obj (oset ''status'' (Bool b) r)) ob))\<rparr>)
           | _ \<Rightarrow> None)
      | NotArray _ \<Rightarrow> None)"

declare set_status.simps [simp del]

text \<open>Each callback runs on the fulfilled reply; a rejected one, and an exception in the callback,
  reject the promise \<open>then\<close> returned, which nobody handles.\<close>

fun on_reply :: "continuation \<Rightarrow> settled \<Rightarrow> client \<Rightarrow> client \<times> sent list" where
  "on_reply k (Err e) c = (reject_unhandled c, [])"
| "on_reply KList (Ok t) c = (set_table (getv t ''data'') c, [])"
| "on_reply KAdd (Ok t) c = (c\<lparr>toasts := toasts c @ [Added]\<rparr>, [getTodoList])"
| "on_reply (KEdit e a w) (Ok t) c =
     (let row = row_heap c a in
      case set_status e (\<not> truthy (getv row ''status'')) c of
        None \<Rightarrow> (reject_unhandled c, [])
      | Some c1 \<Rightarrow> (c1\<lparr>toasts := toasts c1 @ [Marked (getv (row_heap c1 a) ''title'') w]\<rparr>, []))"
| "on_reply (KDelete e) (Ok t) c =
     (case tableData c of
        Table arr \<Rightarrow>
          (c\<lparr>tableData := Table (splice_one e arr), toasts := toasts c @ [Deleted]\<rparr>, [])
      | NotArray _ \<Rightarrow> (reject_unhandled c, []))"

section \<open>Requests on the wire and replies from it\<close>

text \<open>What axios hands to the browser for a configuration of the application.\<close>

definition wire_request :: "environment \<Rightarrow> jv \<Rightarrow> http_request option" where
  "wire_request env cfg =
     (case dispatch_prepare env None (entries_of (request_config app_axios cfg)) of
        Inl _ \<Rightarrow> None
      | Inr e \<Rightarrow> Some (xhr_open env e))"

text \<open>What the promise of a request settles with after the events of its request object.\<close>

definition wire_settled :: "environment \<Rightarrow> jv \<Rightarrow> xhr_event list \<Rightarrow> settled option" where
  "wire_settled env cfg evs =
     (case dispatch_prepare env None (entries_of (request_config app_axios cfg)) of
        Inl c \<Rightarrow> Some (Err c)
      | Inr e \<Rightarrow>
        (case x_result (xhr_run env e evs) of
           None \<Rightarrow> None
         | Some r \<Rightarrow> Some (axios_request env None None (\<lambda>_. r) app_axios cfg)))"

section \<open>The requests of the page, on the wire\<close>

definition default_headers :: "jv obj" where
  "default_headers =
     [(''common'', Obj [(''Accept'', Str ''application/json, text/plain, */*'')]),
      (''delete'', Obj []), (''get'', Obj []), (''head'', Obj []),
      (''post'', form_type), (''put'', form_type), (''patch'', form_type)]"

text \<open>The configuration \<open>dispatchRequest\<close> gets: arrays became objects in the merge.\<close>

definition sent_config :: "string \<Rightarrow> string \<Rightarrow> jv obj \<Rightarrow> jv obj" where
  "sent_config meth url extra =
     [(''adapter'', Fn fn_adapter),
      (''transformRequest'', Obj [(''0'', Fn fn_transform_request)]),
      (''transformResponse'', Obj [(''0'', Fn fn_transform_response)]),
      (''timeout'', Num 0), (''xsrfCookieName'', Str ''XSRF-TOKEN''),
      (''xsrfHeaderName'', Str ''X-XSRF-TOKEN''), (''maxContentLength'', Num (-1)),
      (''validateStatus'', Fn fn_validate_status),
      (''headers'', Obj default_headers),
      (''method'', Str meth), (''url'', Str url)] @ extra"

lemma enum_entries_one: "enum_entries [v] = [(''0'', v)]"
proof -
  have "show_nat 0 = ''0''" by code_simp
  then show ?thesis by (simp add: enum_entries_def)
qed

lemma config_bodyless:
  "entries_of (request_config app_axios (bodyless_config meth url Undef)) = sent_config (to_lower meth) url []"
  by (simp add: request_config_def bodyless_config_def merge_def axios_defaults_def copy_entries_def
      form_type_def default_headers_def enum_entries_one sent_config_def)

lemma config_body:
  "entries_of (request_config app_axios (body_config meth url (Obj [(k, v)]) Undef))
     = sent_config (to_lower meth) url [(''data'', Obj [(k, v)])]"
  by (simp add: request_config_def body_config_def merge_def axios_defaults_def copy_entries_def
      form_type_def default_headers_def enum_entries_one sent_config_def)


lemma or_empty_Obj: "or_empty (Obj x) = Obj x"
  by simp

lemma default_headers_normal: "normalize_header_name default_headers ''Content-Type'' = default_headers"
  by code_simp

lemma default_headers_no_type: "getp default_headers ''Content-Type'' = Undef"
  by code_simp

text \<open>The headers that go out: those of all methods, those of the method, those of the request.\<close>

definition final_headers :: "string \<Rightarrow> jv obj \<Rightarrow> jv obj" where
  "final_headers meth hs =
     fold odel method_names
       (entries_of (merge [or_empty (getp hs ''common''), or_empty (getp hs meth), Obj hs]))"

abbreviation accept_header :: "string \<times> jv" where
  "accept_header \<equiv> (''Accept'', Str ''application/json, text/plain, */*'')"

abbreviation json_type_header :: "string \<times> jv" where
  "json_type_header \<equiv> (''Content-Type'', Str ''application/json;charset=utf-8'')"

lemma final_headers_bodyless:
  "final_headers ''get'' default_headers = [accept_header]"
  "final_headers ''delete'' default_headers = [accept_header]"
  by code_simp+

lemma final_headers_json:
  "final_headers ''post'' (oset ''Content-Type'' (snd json_type_header) default_headers) = [accept_header, json_type_header]"
  "final_headers ''put'' (oset ''Content-Type'' (snd json_type_header) default_headers) = [accept_header, json_type_header]"
  by code_simp+

definition prepared_config :: "string \<Rightarrow> string \<Rightarrow> jv obj \<Rightarrow> jv \<Rightarrow> jv obj" where
  "prepared_config meth url hs d =
     oset ''data'' d (oset ''headers'' (Obj hs) (sent_config meth url []))"

lemma prepare_no_data:
  "dispatch_prepare env None (sent_config meth url [])
     = Inr (prepared_config meth url (final_headers meth default_headers) Undef)"
  by (simp add: dispatch_prepare_def throw_if_requested_def transform_data_def apply_transform_def
      default_transform_request_def enum_entries_one is_object_def sent_config_def prepared_config_def
      default_headers_normal final_headers_def or_empty_Obj Let_def del: or_empty.simps)

lemma prepare_data:
  "dispatch_prepare env None (sent_config meth url [(''data'', Obj ob)])
     = Inr (prepared_config meth url
          (final_headers meth (oset ''Content-Type'' (snd json_type_header) default_headers)) (json_stringify (Obj ob)))"
  by (simp add: dispatch_prepare_def throw_if_requested_def transform_data_def apply_transform_def
      default_transform_request_def enum_entries_one is_object_def sent_config_def prepared_config_def
      default_headers_normal default_headers_no_type set_content_type_if_unset_def
      final_headers_def or_empty_Obj Let_def del: or_empty.simps)

lemma open_prepared:
  assumes "cookie env ''XSRF-TOKEN'' = None"
  shows "xhr_open env (prepared_config meth url hs d) =
    \<lparr>rq_method = to_upper meth, rq_url = url, rq_headers = send_headers d hs,
     rq_body = (case d of Undef \<Rightarrow> None | Null \<Rightarrow> None | _ \<Rightarrow> Some (string_of d))\<rparr>"
  using assms by (simp add: xhr_open_def prepared_config_def sent_config_def xsrf_header_def build_url_def Let_def)

text \<open>The four requests of the page.\<close>

abbreviation accept_line :: "string \<times> string" where
  "accept_line \<equiv> (''Accept'', ''application/json, text/plain, */*'')"

abbreviation json_line :: "string \<times> string" where
  "json_line \<equiv> (''Content-Type'', ''application/json;charset=utf-8'')"

lemma send_headers_accept: "send_headers d [accept_header] = [accept_line]"
  by (simp add: send_headers_def to_lower_def lower_char_def)

lemma send_headers_json: "send_headers (Str d) [accept_header, json_type_header] = [accept_line, json_line]"
  by (simp add: send_headers_def to_lower_def lower_char_def)

lemma stringify_pair:
  "\<not> json_omitted v \<Longrightarrow> json_stringify (Obj [(k, v)]) = Str (json_text (Obj [(k, v)]))"
  by (simp add: json_stringify_def del: json_text.simps)

lemma prepare_get:
  "dispatch_prepare env None (entries_of (request_config app_axios (bodyless_config ''get'' url Undef)))
     = Inr (prepared_config ''get'' url [accept_header] Undef)"
  and prepare_delete:
  "dispatch_prepare env None (entries_of (request_config app_axios (bodyless_config ''delete'' url Undef)))
     = Inr (prepared_config ''delete'' url [accept_header] Undef)"
  by (simp_all add: config_bodyless prepare_no_data final_headers_bodyless to_lower_def lower_char_def)

lemma prepare_post:
  "\<not> json_omitted v \<Longrightarrow>
   dispatch_prepare env None (entries_of (request_config app_axios (body_config ''post'' url (Obj [(k, v)]) Undef)))
     = Inr (prepared_config ''post'' url [accept_header, json_type_header] (Str (json_text (Obj [(k, v)]))))"
  and prepare_put:
  "\<not> json_omitted v \<Longrightarrow>
   dispatch_prepare env None (entries_of (request_config app_axios (body_config ''put'' url (Obj [(k, v)]) Undef)))
     = Inr (prepared_config ''put'' url [accept_header, json_type_header] (Str (json_text (Obj [(k, v)]))))"
  by (simp_all add: config_body prepare_data final_headers_json [simplified] to_lower_def lower_char_def stringify_pair
      del: json_text.simps)

lemma upper_methods:
  "to_upper ''get'' = ''GET''" "to_upper ''delete'' = ''DELETE''"
  "to_upper ''post'' = ''POST''" "to_upper ''put'' = ''PUT''"
  by code_simp+

lemma wire_get:
  "cookie env ''XSRF-TOKEN'' = None \<Longrightarrow>
   wire_request env (bodyless_config ''get'' url Undef)
     = Some \<lparr>rq_method = ''GET'', rq_url = url, rq_headers = [accept_line], rq_body = None\<rparr>"
  and wire_delete:
  "cookie env ''XSRF-TOKEN'' = None \<Longrightarrow>
   wire_request env (bodyless_config ''delete'' url Undef)
     = Some \<lparr>rq_method = ''DELETE'', rq_url = url, rq_headers = [accept_line], rq_body = None\<rparr>"
  by (simp_all add: wire_request_def prepare_get prepare_delete open_prepared send_headers_accept
      upper_methods)

lemma wire_post:
  "cookie env ''XSRF-TOKEN'' = None \<Longrightarrow> \<not> json_omitted v \<Longrightarrow>
   wire_request env (body_config ''post'' url (Obj [(k, v)]) Undef)
     = Some \<lparr>rq_method = ''POST'', rq_url = url, rq_headers = [accept_line, json_line],
          rq_body = Some (json_text (Obj [(k, v)]))\<rparr>"
  and wire_put:
  "cookie env ''XSRF-TOKEN'' = None \<Longrightarrow> \<not> json_omitted v \<Longrightarrow>
   wire_request env (body_config ''put'' url (Obj [(k, v)]) Undef)
     = Some \<lparr>rq_method = ''PUT'', rq_url = url, rq_headers = [accept_line, json_line],
          rq_body = Some (json_text (Obj [(k, v)]))\<rparr>"
  by (simp_all add: wire_request_def prepare_post prepare_put open_prepared send_headers_json
      upper_methods del: json_text.simps)


section \<open>How the promise of a request settles\<close>

text \<open>What an event settles the promise of an open request with, when it settles it.\<close>

fun event_result :: "environment \<Rightarrow> jv obj \<Rightarrow> xhr_event \<Rightarrow> settled option" where
  "event_result env e (ReadyState rs st stext body raw) =
     (if rs = 4 \<and> st \<noteq> 0 then Some (settle_response env (xhr_response e st stext body raw)) else None)"
| "event_result env e NetworkError = Some (Err (create_error ''Network Error'' (Obj e) Null Undef Undef))"
| "event_result env e TimeoutEvent =
     Some (Err (create_error (''timeout of '' @ string_of (getp e ''timeout'') @ ''ms exceeded'')
        (Obj e) (Str ''ECONNABORTED'') Undef Undef))"
| "event_result env e (CancelEvent c) = Some (Err c)"

definition xhr_wf :: "xhr \<Rightarrow> bool" where
  "xhr_wf x \<longleftrightarrow> (x_open x \<longleftrightarrow> x_result x = None)"

lemma xhr_handle_result:
  assumes "xhr_wf x"
  shows "xhr_wf (xhr_handle env e ev x)"
    and "x_result (xhr_handle env e ev x)
           = (case x_result x of Some r \<Rightarrow> Some r | None \<Rightarrow> event_result env e ev)"
  using assms
  by (cases ev; auto simp: xhr_wf_def settle_once_def split: option.splits)+

definition first_result :: "environment \<Rightarrow> jv obj \<Rightarrow> xhr_event list \<Rightarrow> settled option" where
  "first_result env e evs = (case List.map_filter (event_result env e) evs of [] \<Rightarrow> None | r # _ \<Rightarrow> Some r)"

lemma xhr_run_first: "x_result (xhr_run env e evs) = first_result env e evs"
proof -
  have "xhr_wf x \<Longrightarrow> x_result (fold (xhr_handle env e) evs x)
          = (case x_result x of Some r \<Rightarrow> Some r | None \<Rightarrow> first_result env e evs)" for x
  proof (induction evs arbitrary: x)
    case Nil
    then show ?case by (simp add: first_result_def map_filter_simps split: option.splits)
  next
    case (Cons ev evs)
    then show ?case
      by (simp add: xhr_handle_result first_result_def map_filter_simps split: option.splits)
  qed
  then show ?thesis by (simp add: xhr_run_def xhr_init_def xhr_wf_def)
qed

text \<open>A reply with status \<open>st\<close> and the given body, and a request that fails.\<close>

lemma prepared_fields:
  "getp (prepared_config meth url hs d) ''validateStatus'' = Fn fn_validate_status"
  "getp (prepared_config meth url hs d) ''transformResponse'' = Obj [(''0'', Fn fn_transform_response)]"
  by (simp_all add: prepared_config_def sent_config_def)

lemma settle_prepared:
  assumes "st \<noteq> 0"
  shows "settle_response env (xhr_response (prepared_config meth url hs d) st stext body raw) =
    (let r = xhr_response (prepared_config meth url hs d) st stext body raw in
     if 200 \<le> st \<and> st < 300 then Ok r
     else Err (create_error (''Request failed with status code '' @ show_int st)
            (Obj (prepared_config meth url hs d)) Null Undef r))"
  using assms
  by (auto simp: settle_response_def xhr_response_def prepared_fields validates_def default_validate_status_def Let_def)

lemma dispatch_reply:
  assumes "dispatch_prepare env None (entries_of cfg) = Inr (prepared_config meth url hs d)"
    and "200 \<le> st" and "st < 300"
  shows "\<exists>t. dispatch_request env None None
            (\<lambda>_. settle_response env (xhr_response (prepared_config meth url hs d) st stext body raw)) cfg = Ok t
         \<and> getv t ''data'' = default_transform_response (Str body)"
proof -
  let ?e = "prepared_config meth url hs d"
  have "settle_response env (xhr_response ?e st stext body raw) = Ok (xhr_response ?e st stext body raw)"
    using assms by (simp add: settle_prepared Let_def)
  moreover have "dispatch_fulfilled env None ?e (xhr_response ?e st stext body raw)
      = Ok (Obj (oset ''data'' (default_transform_response (Str body))
                   (entries_of (xhr_response ?e st stext body raw))))"
    by (simp add: dispatch_fulfilled_def throw_if_requested_def transform_response_of_def prepared_fields
        xhr_response_def transform_data_def apply_transform_def)
  ultimately show ?thesis using assms(1)
    by (simp add: dispatch_request_def obj_simps)
qed

lemma dispatch_refused:
  assumes "dispatch_prepare env None (entries_of cfg) = Inr (prepared_config meth url hs d)"
    and "r = Err x"
  shows "\<exists>t. dispatch_request env None None (\<lambda>_. r) cfg = Err t"
  using assms
  by (auto simp: dispatch_request_def dispatch_rejected_def throw_if_requested_def split: option.splits)

text \<open>The outcome of a request of the page, by its first settling event.\<close>

lemma wire_settled_first:
  assumes "dispatch_prepare env None (entries_of (request_config app_axios cfg)) = Inr (prepared_config meth url hs d)"
  shows "wire_settled env cfg evs =
    map_option (\<lambda>r. dispatch_request env None None (\<lambda>_. r) (request_config app_axios cfg))
      (first_result env (prepared_config meth url hs d) evs)"
  using assms by (simp add: wire_settled_def xhr_run_first app_request_dispatch split: option.splits)

end
