(* ===== verification/TodoServer.thy ===== *)
theory TodoServer
  imports Json
begin

text \<open>
  The back end of the todo list, \<open>src/bubble/main.go\<close>: the \<open>Todo\<close> model, and the handlers of the
  routes under \<open>/v1/todo\<close> as functions from the database and the request to the database and the
  reply. The database library (gorm) is not part of the repository: its operations are a record
  of functions that every handler takes, and \<open>store_laws\<close> names the documented behaviour the
  properties use. Decoding a JSON body into a \<open>Todo\<close> follows Go's \<open>encoding/json\<close>; a reply is the
  status first written and the JSON values written after it. String constants are UTF-8 bytes.
\<close>

section \<open>The model and its JSON form\<close>

record todo =
  ID :: int
  Title :: string
  Status :: bool

definition zero_todo :: todo where
  "zero_todo = \<lparr>ID = 0, Title = [], Status = False\<rparr>"

text \<open>The struct tags \<open>json:"id"\<close>, \<open>json:"title"\<close> and \<open>json:"status"\<close>.\<close>

definition todo_json :: "todo \<Rightarrow> jv" where
  "todo_json t = Obj [(''id'', Num (ID t)), (''title'', Str (Title t)), (''status'', Bool (Status t))]"

text \<open>Decoding: field names match without case, \<open>null\<close> leaves a field alone, a value of the wrong
  type is an error, unknown fields are ignored, absent fields keep their value.\<close>

definition int64_range :: "int \<Rightarrow> bool" where
  "int64_range n \<longleftrightarrow> - (2 ^ 63) \<le> n \<and> n < 2 ^ 63"

fun bind_field :: "string \<times> jv \<Rightarrow> todo \<Rightarrow> todo option" where
  "bind_field (k, v) t =
     (let f = to_lower k in
      if v = Null then Some t
      else if f = ''id'' then
        (case v of Num n \<Rightarrow> if int64_range n then Some (t\<lparr>ID := n\<rparr>) else None | _ \<Rightarrow> None)
      else if f = ''title'' then (case v of Str s \<Rightarrow> Some (t\<lparr>Title := s\<rparr>) | _ \<Rightarrow> None)
      else if f = ''status'' then (case v of Bool b \<Rightarrow> Some (t\<lparr>Status := b\<rparr>) | _ \<Rightarrow> None)
      else Some t)"

fun bind_fields :: "jv obj \<Rightarrow> todo \<Rightarrow> todo option" where
  "bind_fields [] t = Some t"
| "bind_fields (p # ps) t = Option.bind (bind_field p t) (bind_fields ps)"

fun bind_value :: "jv \<Rightarrow> todo \<Rightarrow> todo option" where
  "bind_value (Obj ob) t = bind_fields ob t"
| "bind_value Null t = Some t"
| "bind_value _ t = None"

text \<open>\<open>c.BindJSON(&todo)\<close>; a request without a body is an error.\<close>

definition bind_json :: "string option \<Rightarrow> todo \<Rightarrow> todo option" where
  "bind_json body t =
     (case body of None \<Rightarrow> None | Some s \<Rightarrow> Option.bind (json_parse s) (\<lambda>v. bind_value v t))"

section \<open>Replies\<close>

record reply =
  rp_status :: "int option"
  rp_body :: "jv list"

definition no_reply :: reply where
  "no_reply = \<lparr>rp_status = None, rp_body = []\<rparr>"

text \<open>\<open>c.JSON(st, v)\<close>: the first status written stays.\<close>

definition write_json :: "int \<Rightarrow> jv \<Rightarrow> reply \<Rightarrow> reply" where
  "write_json st v r =
     r\<lparr>rp_status := (case rp_status r of None \<Rightarrow> Some st | Some s \<Rightarrow> Some s), rp_body := rp_body r @ [v]\<rparr>"

text \<open>A failing \<open>BindJSON\<close> aborts with status 400 before it returns the error.\<close>

definition abort_bad_request :: "reply \<Rightarrow> reply" where
  "abort_bad_request r = r\<lparr>rp_status := (case rp_status r of None \<Rightarrow> Some 400 | Some s \<Rightarrow> Some s)\<rparr>"

definition error_json :: "string \<Rightarrow> jv" where
  "error_json m = Obj [(''error'', Str m)]"

definition msg_no_id :: string where
  "msg_no_id = ''id'' @ [CHR 0xE4, CHR 0xB8, CHR 0x8D, CHR 0xE5, CHR 0xAD, CHR 0x98, CHR 0xE5, CHR 0x9C, CHR 0xA8]"

definition msg_invalid :: "string \<Rightarrow> string" where
  "msg_invalid w = [CHR 0xE6, CHR 0x97, CHR 0xA0, CHR 0xE6, CHR 0x95, CHR 0x88, CHR 0xE7, CHR 0x9A, CHR 0x84, CHR '' ''] @ w"

section \<open>The database interface\<close>

text \<open>An operation fails with an error message.\<close>

record 'd store =
  db_create :: "todo \<Rightarrow> 'd \<Rightarrow> string + (todo \<times> 'd)"
  db_find :: "'d \<Rightarrow> string + todo list"
  db_first :: "string \<Rightarrow> 'd \<Rightarrow> string + todo"
  db_save :: "todo \<Rightarrow> 'd \<Rightarrow> string + 'd"
  db_delete :: "string \<Rightarrow> 'd \<Rightarrow> string + 'd"

section \<open>Handlers\<close>

text \<open>\<open>POST /v1/todo\<close>\<close>

definition post_todo :: "'d store \<Rightarrow> string option \<Rightarrow> 'd \<Rightarrow> reply \<times> 'd" where
  "post_todo g body d =
     (case bind_json body zero_todo of
        None \<Rightarrow> (abort_bad_request no_reply, d)
      | Some t \<Rightarrow>
        (case db_create g t d of
           Inl e \<Rightarrow> (write_json 200 (error_json e) no_reply, d)
         | Inr (t', d') \<Rightarrow> (write_json 200 (todo_json t') no_reply, d')))"

text \<open>\<open>GET /v1/todo\<close>; an empty slice from the library is written as an empty array.\<close>

definition get_todos :: "'d store \<Rightarrow> 'd \<Rightarrow> reply" where
  "get_todos g d =
     (case db_find g d of
        Inl e \<Rightarrow> write_json 200 (error_json e) no_reply
      | Inr ts \<Rightarrow> write_json 200 (Arr (map todo_json ts)) no_reply)"

text \<open>\<open>GET /v1/todo/:id\<close> has an empty body.\<close>

definition get_todo :: "string option \<Rightarrow> 'd \<Rightarrow> reply" where
  "get_todo i d = no_reply"

text \<open>\<open>PUT /v1/todo/:id\<close>: when the parameter is missing the error is written, but the handler goes
  on with an empty id, because there is no \<open>return\<close>.\<close>

definition put_todo :: "'d store \<Rightarrow> string option \<Rightarrow> string option \<Rightarrow> 'd \<Rightarrow> reply \<times> 'd" where
  "put_todo g ident body d =
     (let r0 = (case ident of None \<Rightarrow> write_json 200 (error_json msg_no_id) no_reply | Some _ \<Rightarrow> no_reply);
          i = (case ident of None \<Rightarrow> [] | Some x \<Rightarrow> x)
      in case db_first g i d of
           Inl e \<Rightarrow> (write_json 200 (error_json e) r0, d)
         | Inr t \<Rightarrow>
           (case bind_json body t of
              None \<Rightarrow> (write_json 200 (error_json (msg_invalid ''variable'')) (abort_bad_request r0), d)
            | Some t' \<Rightarrow>
              (case db_save g t' d of
                 Inl e \<Rightarrow> (write_json 200 (error_json e) r0, d)
               | Inr d' \<Rightarrow> (write_json 200 (todo_json t') r0, d'))))"

text \<open>\<open>DELETE /v1/todo/:id\<close>\<close>

definition delete_todo :: "'d store \<Rightarrow> string option \<Rightarrow> 'd \<Rightarrow> reply \<times> 'd" where
  "delete_todo g ident d =
     (case ident of
        None \<Rightarrow> (write_json 200 (error_json (msg_invalid ''id'')) no_reply, d)
      | Some i \<Rightarrow>
        (case db_delete g i d of
           Inl e \<Rightarrow> (write_json 200 (error_json e) no_reply, d)
         | Inr d' \<Rightarrow> (write_json 200 (Obj [(i, Str ''deleted'')]) no_reply, d')))"

section \<open>Routing\<close>

text \<open>The group \<open>v1\<close>: method and path select the handler; \<open>:id\<close> matches one non-empty segment.
  Anything else is not found.\<close>

definition todo_prefix :: string where
  "todo_prefix = ''/v1/todo''"

definition path_id :: "string \<Rightarrow> string option" where
  "path_id path =
     (let n = length todo_prefix; i = drop (Suc n) path in
      if take n path = todo_prefix \<and> drop n path \<noteq> [] \<and> path ! n = CHR ''/''
         \<and> i \<noteq> [] \<and> CHR ''/'' \<notin> set i
      then Some i else None)"

definition serve :: "'d store \<Rightarrow> string \<Rightarrow> string \<Rightarrow> string option \<Rightarrow> 'd \<Rightarrow> reply \<times> 'd" where
  "serve g meth path body d =
     (if path = todo_prefix then
        (if meth = ''POST'' then post_todo g body d
         else if meth = ''GET'' then (get_todos g d, d)
         else (no_reply\<lparr>rp_status := Some 404\<rparr>, d))
      else
        (case path_id path of
           None \<Rightarrow> (no_reply\<lparr>rp_status := Some 404\<rparr>, d)
         | Some i \<Rightarrow>
           if meth = ''GET'' then (get_todo (Some i) d, d)
           else if meth = ''PUT'' then put_todo g (Some i) body d
           else if meth = ''DELETE'' then delete_todo g (Some i) d
           else (no_reply\<lparr>rp_status := Some 404\<rparr>, d)))"

section \<open>The documented behaviour of the store\<close>

text \<open>
  \<open>rows\<close> is the content of the table in the order \<open>Find\<close> lists it, and \<open>ok\<close> holds of the
  database states the connection can be in. Any operation may fail, and then changes nothing.
  A successful \<open>Create\<close> of a row with key zero assigns a fresh key and appends the row; \<open>First\<close>
  finds the row with the key; \<open>Save\<close> of an existing row replaces it; \<open>Delete\<close> removes the row
  with the key. Keys reach the store as decimal text. A table holds no more rows than a
  JavaScript array can.
\<close>

definition table_limit :: nat where
  "table_limit = 2 ^ 53 - 1"

definition ids :: "todo list \<Rightarrow> int list" where
  "ids ts = map ID ts"

definition replace_row :: "todo \<Rightarrow> todo list \<Rightarrow> todo list" where
  "replace_row t ts = map (\<lambda>u. if ID u = ID t then t else u) ts"

definition remove_row_id :: "int \<Rightarrow> todo list \<Rightarrow> todo list" where
  "remove_row_id i ts = filter (\<lambda>u. ID u \<noteq> i) ts"

definition store_laws :: "'d store \<Rightarrow> ('d \<Rightarrow> todo list) \<Rightarrow> ('d \<Rightarrow> bool) \<Rightarrow> bool" where
  "store_laws g rows ok \<longleftrightarrow>
     (\<forall>d. ok d \<longrightarrow>
        distinct (ids (rows d)) \<and> length (rows d) \<le> table_limit \<and>
        (\<forall>ts. db_find g d = Inr ts \<longrightarrow> ts = rows d) \<and>
        (\<forall>t t' d'. ID t = 0 \<longrightarrow> db_create g t d = Inr (t', d') \<longrightarrow>
           ok d' \<and> ID t' \<notin> set (ids (rows d)) \<and> t' = t\<lparr>ID := ID t'\<rparr> \<and> rows d' = rows d @ [t']) \<and>
        (\<forall>i t. db_first g (show_int i) d = Inr t \<longrightarrow> t \<in> set (rows d) \<and> ID t = i) \<and>
        (\<forall>t d'. ID t \<in> set (ids (rows d)) \<longrightarrow> db_save g t d = Inr d' \<longrightarrow>
           ok d' \<and> rows d' = replace_row t (rows d)) \<and>
        (\<forall>i d'. db_delete g (show_int i) d = Inr d' \<longrightarrow>
           ok d' \<and> rows d' = remove_row_id i (rows d)))"

lemma store_lawsD:
  assumes "store_laws g rows ok" and "ok d"
  shows "distinct (ids (rows d))" and "length (rows d) \<le> table_limit"
    and "db_find g d = Inr ts \<Longrightarrow> ts = rows d"
    and "ID t = 0 \<Longrightarrow> db_create g t d = Inr (t', d') \<Longrightarrow> ok d'"
    and "ID t = 0 \<Longrightarrow> db_create g t d = Inr (t', d') \<Longrightarrow> rows d' = rows d @ [t']"
    and "ID t = 0 \<Longrightarrow> db_create g t d = Inr (t', d') \<Longrightarrow> Title t' = Title t \<and> Status t' = Status t"
    and "db_first g (show_int i) d = Inr t \<Longrightarrow> t \<in> set (rows d) \<and> ID t = i"
    and "ID t \<in> set (ids (rows d)) \<Longrightarrow> db_save g t d = Inr d' \<Longrightarrow> ok d'"
    and "ID t \<in> set (ids (rows d)) \<Longrightarrow> db_save g t d = Inr d' \<Longrightarrow> rows d' = replace_row t (rows d)"
    and "db_delete g (show_int i) d = Inr d' \<Longrightarrow> ok d'"
    and "db_delete g (show_int i) d = Inr d' \<Longrightarrow> rows d' = remove_row_id i (rows d)"
proof -
  note laws = assms(1) [unfolded store_laws_def, rule_format, OF assms(2)]
  show "distinct (ids (rows d))" using laws by (rule conjunct1)
  show "length (rows d) \<le> table_limit" using laws by blast
  show "db_find g d = Inr ts \<Longrightarrow> ts = rows d" using laws by blast
  show "ID t = 0 \<Longrightarrow> db_create g t d = Inr (t', d') \<Longrightarrow> ok d'" using laws by blast
  show "ID t = 0 \<Longrightarrow> db_create g t d = Inr (t', d') \<Longrightarrow> rows d' = rows d @ [t']" using laws by blast
  show "Title t' = Title t \<and> Status t' = Status t" if "ID t = 0" "db_create g t d = Inr (t', d')"
  proof -
    have "t' = t\<lparr>ID := ID t'\<rparr>" using laws that by blast
    then have "Title t' = Title (t\<lparr>ID := ID t'\<rparr>)" "Status t' = Status (t\<lparr>ID := ID t'\<rparr>)" by simp_all
    then show ?thesis by simp
  qed
  show "db_first g (show_int i) d = Inr t \<Longrightarrow> t \<in> set (rows d) \<and> ID t = i" using laws by blast
  show "ID t \<in> set (ids (rows d)) \<Longrightarrow> db_save g t d = Inr d' \<Longrightarrow> ok d'" using laws by blast
  show "ID t \<in> set (ids (rows d)) \<Longrightarrow> db_save g t d = Inr d' \<Longrightarrow> rows d' = replace_row t (rows d)"
    using laws by blast
  show "db_delete g (show_int i) d = Inr d' \<Longrightarrow> ok d'" using laws by blast
  show "db_delete g (show_int i) d = Inr d' \<Longrightarrow> rows d' = remove_row_id i (rows d)" using laws by blast
qed

section \<open>What the handlers do to the table\<close>

definition is_error_reply :: "reply \<Rightarrow> bool" where
  "is_error_reply r \<longleftrightarrow> rp_status r = Some 400 \<or> (\<exists>m. error_json m \<in> set (rp_body r))"

lemma todo_json_not_error: "todo_json t \<noteq> error_json m"
  by (simp add: todo_json_def error_json_def)

lemma path_id_show: "path_id (todo_prefix @ ''/'' @ i) = (if i \<noteq> [] \<and> CHR ''/'' \<notin> set i then Some i else None)"
  by (simp add: path_id_def todo_prefix_def Let_def)

lemma show_int_no_slash: "CHR ''/'' \<notin> set (show_int i)" and show_int_not_Nil: "show_int i \<noteq> []"
proof -
  have "\<not> is_digit (CHR ''/'')" by (simp add: is_digit_def)
  then have "CHR ''/'' \<notin> set (show_nat n)" for n using show_nat_digits by blast
  then show "CHR ''/'' \<notin> set (show_int i)" by (simp add: show_int_def)
  show "show_int i \<noteq> []" by (simp add: show_int_def)
qed

lemma path_id_int [simp]: "path_id (todo_prefix @ ''/'' @ show_int i) = Some (show_int i)"
  by (subst path_id_show) (simp add: show_int_no_slash show_int_not_Nil)

lemma serve_item:
  "serve g meth (todo_prefix @ ''/'' @ show_int i) body d =
     (if meth = ''GET'' then (no_reply, d)
      else if meth = ''PUT'' then put_todo g (Some (show_int i)) body d
      else if meth = ''DELETE'' then delete_todo g (Some (show_int i)) d
      else (no_reply\<lparr>rp_status := Some 404\<rparr>, d))"
proof -
  have "todo_prefix @ ''/'' @ show_int i \<noteq> todo_prefix" by simp
  then show ?thesis unfolding serve_def by (simp only: path_id_int option.simps if_False get_todo_def)
qed

lemma serve_list:
  "serve g ''GET'' todo_prefix body d = (get_todos g d, d)"
  "serve g ''POST'' todo_prefix body d = post_todo g body d"
  by (simp_all add: serve_def)

lemma bind_status_body:
  "bind_json (Some (json_text (Obj [(''status'', Bool b)]))) t = Some (t\<lparr>Status := b\<rparr>)"
  using json_parse_stringify [of "Obj [(''status'', Bool b)]"]
  by (simp add: bind_json_def to_lower_def lower_char_def del: json_text.simps)

lemma bind_title_body:
  "bind_json (Some (json_text (Obj [(''title'', Str s)]))) t = Some (t\<lparr>Title := s\<rparr>)"
  using json_parse_stringify [of "Obj [(''title'', Str s)]"]
  by (simp add: bind_json_def to_lower_def lower_char_def del: json_text.simps)

lemma replace_row_ids [simp]: "ids (replace_row t ts) = ids ts"
  by (auto simp: ids_def replace_row_def)

lemma serve_put_status:
  assumes laws: "store_laws g rows ok" and ok: "ok d"
    and s: "serve g ''PUT'' (todo_prefix @ ''/'' @ show_int i)
              (Some (json_text (Obj [(''status'', Bool b)]))) d = (r, d')"
  shows "(is_error_reply r \<and> d' = d) \<or>
    (\<exists>t \<in> set (rows d). ID t = i \<and> ok d' \<and> rows d' = replace_row (t\<lparr>Status := b\<rparr>) (rows d)
       \<and> r = write_json 200 (todo_json (t\<lparr>Status := b\<rparr>)) no_reply)"
proof -
  note put = s [unfolded serve_item]
  have err: "is_error_reply (write_json 200 (error_json e) no_reply)" for e
    by (auto simp: is_error_reply_def write_json_def no_reply_def)
  show ?thesis
  proof (cases "db_first g (show_int i) d")
    case (Inl e)
    with put err show ?thesis by (auto simp: put_todo_def Let_def)
  next
    case (Inr t)
    note t = store_lawsD(7) [OF laws ok Inr]
    show ?thesis
    proof (cases "db_save g (t\<lparr>Status := b\<rparr>) d")
      case (Inl e)
      with put err Inr show ?thesis
        by (auto simp: put_todo_def bind_status_body Let_def simp del: json_text.simps)
    next
      case (Inr d2)
      have "ID (t\<lparr>Status := b\<rparr>) \<in> set (ids (rows d))" using t by (auto simp: ids_def)
      with store_lawsD(8,9) [OF laws ok this Inr] t put Inr \<open>db_first g (show_int i) d = Inr t\<close>
      show ?thesis
        by (auto simp: put_todo_def bind_status_body Let_def simp del: json_text.simps)
    qed
  qed
qed

lemma serve_delete:
  assumes laws: "store_laws g rows ok" and ok: "ok d"
    and s: "serve g ''DELETE'' (todo_prefix @ ''/'' @ show_int i) body d = (r, d')"
  shows "(is_error_reply r \<and> d' = d) \<or> (ok d' \<and> rows d' = remove_row_id i (rows d))"
proof -
  note del = s [unfolded serve_item]
  show ?thesis
  proof (cases "db_delete g (show_int i) d")
    case (Inl e)
    with del show ?thesis
      by (auto simp: delete_todo_def is_error_reply_def write_json_def no_reply_def)
  next
    case (Inr d2)
    with store_lawsD(10,11) [OF laws ok Inr] del show ?thesis
      by (auto simp: delete_todo_def)
  qed
qed

lemma serve_post:
  assumes laws: "store_laws g rows ok" and ok: "ok d"
    and s: "serve g ''POST'' todo_prefix (Some (json_text (Obj [(''title'', Str ti)]))) d = (r, d')"
  shows "(is_error_reply r \<and> d' = d) \<or>
    (\<exists>t. Title t = ti \<and> \<not> Status t \<and> ok d' \<and> rows d' = rows d @ [t]
       \<and> r = write_json 200 (todo_json t) no_reply)"
proof -
  let ?t = "zero_todo\<lparr>Title := ti\<rparr>"
  have z: "ID ?t = 0" by (simp add: zero_todo_def)
  show ?thesis
  proof (cases "db_create g ?t d")
    case (Inl e)
    with s show ?thesis
      by (auto simp: serve_list post_todo_def bind_title_body is_error_reply_def write_json_def no_reply_def
          simp del: json_text.simps)
  next
    case (Inr x)
    obtain t' d2 where x: "x = (t', d2)" by (cases x)
    note l = store_lawsD(4-6) [OF laws ok z Inr [unfolded x]]
    from l s Inr x show ?thesis
      by (auto simp: serve_list post_todo_def bind_title_body zero_todo_def simp del: json_text.simps)
  qed
qed

lemma serve_get_list:
  assumes "store_laws g rows ok" and "ok d"
  shows "(is_error_reply (get_todos g d)) \<or>
    get_todos g d = write_json 200 (Arr (map todo_json (rows d))) no_reply"
  using store_lawsD(3) [OF assms]
  by (auto simp: get_todos_def is_error_reply_def write_json_def no_reply_def split: sum.splits)

section \<open>A store that keeps the laws\<close>

lemma show_int_inj: "show_int i = show_int j \<Longrightarrow> i = j"
proof -
  assume eq: "show_int i = show_int j"
  have nd: "\<not> is_digit (CHR ''-'')" by (simp add: is_digit_def)
  have hd: "hd (show_nat n) \<noteq> CHR ''-''" for n
    using nd show_nat_digits [of "hd (show_nat n)" n] by auto
  show "i = j"
  proof (cases "i < 0 \<longleftrightarrow> j < 0")
    case True
    with eq show ?thesis by (auto simp: show_int_def split: if_splits dest!: show_nat_inj)
  next
    case False
    with eq hd [of "nat i"] hd [of "nat j"] show ?thesis
      by (auto simp: show_int_def split: if_splits dest: arg_cong [where f = hd])
  qed
qed

text \<open>A table in memory, with keys counted up; creating fails when it is full.\<close>

definition next_key :: "todo list \<Rightarrow> int" where
  "next_key d = 1 + fold max (ids d) 0"

definition list_store :: "todo list store" where
  "list_store =
     \<lparr>db_create = (\<lambda>t d. let t' = t\<lparr>ID := next_key d\<rparr> in if length d < table_limit then Inr (t', d @ [t']) else Inl ''table full''),
      db_find = (\<lambda>d. Inr d),
      db_first = (\<lambda>s d. case filter (\<lambda>t. show_int (ID t) = s) d of
                          [] \<Rightarrow> Inl ''record not found'' | t # _ \<Rightarrow> Inr t),
      db_save = (\<lambda>t d. Inr (if ID t \<in> set (ids d) then replace_row t d else d @ [t])),
      db_delete = (\<lambda>s d. Inr (filter (\<lambda>t. show_int (ID t) \<noteq> s) d))\<rparr>"

definition ids_distinct :: "todo list \<Rightarrow> bool" where
  "ids_distinct d \<longleftrightarrow> distinct (ids d) \<and> length d \<le> table_limit"

lemma fold_max_ge: "x \<in> set xs \<or> x \<le> a \<Longrightarrow> (x :: int) \<le> fold max xs a"
  by (induction xs arbitrary: a) (auto simp: max_def)

lemma next_key_fresh: "next_key d \<notin> set (ids d)"
  using fold_max_ge [of _ "ids d" 0] by (fastforce simp: next_key_def)

lemma list_store_laws: "store_laws list_store (\<lambda>d. d) ids_distinct"
  unfolding store_laws_def
proof (intro allI impI conjI)
  fix d :: "todo list" and t t' :: todo and d' ts i
  assume d: "ids_distinct d"
  show "distinct (ids d)" and "length d \<le> table_limit" using d by (simp_all add: ids_distinct_def)
  show "db_find list_store d = Inr ts \<Longrightarrow> ts = d" by (simp add: list_store_def)
  {
    assume "db_create list_store t d = Inr (t', d')"
    then have t': "t' = t\<lparr>ID := next_key d\<rparr>" and d': "d' = d @ [t']"
      and l: "length d < table_limit"
      by (auto simp: list_store_def Let_def split: if_splits)
    show "ID t' \<notin> set (ids d)" using next_key_fresh [of d] t' by simp
    then show "ids_distinct d'" using d d' l by (simp add: ids_distinct_def ids_def)
    show "t' = t\<lparr>ID := ID t'\<rparr>" using t' by simp
    show "d' = d @ [t']" by (rule d')
  }
  {
    assume "db_first list_store (show_int i) d = Inr t"
    then obtain us where "filter (\<lambda>t. show_int (ID t) = show_int i) d = t # us"
      by (auto simp: list_store_def split: list.splits)
    then have "t \<in> set (filter (\<lambda>t. show_int (ID t) = show_int i) d)" by simp
    then show "t \<in> set d" and "ID t = i" by (auto dest: show_int_inj)
  }
  {
    assume "ID t \<in> set (ids d)" and "db_save list_store t d = Inr d'"
    then show "d' = replace_row t d" by (simp add: list_store_def)
    then show "ids_distinct d'" using d by (simp add: ids_distinct_def) (simp add: replace_row_def)
  }
  {
    assume "db_delete list_store (show_int i) d = Inr d'"
    then have "d' = filter (\<lambda>t. show_int (ID t) \<noteq> show_int i) d" by (simp add: list_store_def)
    then show "d' = remove_row_id i d"
      by (auto simp: remove_row_id_def intro!: filter_cong dest: show_int_inj)
    then show "ids_distinct d'" using d
      by (auto simp: ids_distinct_def ids_def remove_row_id_def distinct_map_filter
          intro: order_trans [OF length_filter_le])
  }
qed

end
