(* ===== verification/TodoSystem.thy ===== *)
theory TodoSystem
  imports TodoClient TodoServer
begin

text \<open>
  The todo list as a whole: the page (\<open>TodoClient\<close>), the server with its database
  (\<open>TodoServer\<close>), and the requests in flight between them. A request is on the wire until the
  server handles it, then answered until its reply arrives; requests are handled and delivered
  in any order, and any of them can be lost, before or after the server has handled it. The
  first part runs these events; the second shows what every interleaving keeps; the third that
  the page shows the database when each gesture settles before the next one, and the last what
  happens when it does not.
\<close>

section \<open>Worlds and events\<close>

datatype phase = OnWire | Answered reply

record flight =
  fl_config :: jv
  fl_then :: continuation
  fl_phase :: phase

record 'd world =
  page :: client
  db :: 'd
  flights :: "flight list"

definition launch :: "sent list \<Rightarrow> flight list" where
  "launch ss = map (\<lambda>(cfg, k). \<lparr>fl_config = cfg, fl_then = k, fl_phase = OnWire\<rparr>) ss"

text \<open>\<open>mounted\<close> asks for the list.\<close>

definition open_page :: "'d \<Rightarrow> 'd world" where
  "open_page d = \<lparr>page = init_client, db = d, flights = launch [getTodoList]\<rparr>"

datatype action = TypeTitle string | ClickAdd | ClickEdit nat | ClickDelete nat

text \<open>The row rendered at an index: its button passes the index and the row, or the row's id.\<close>

definition rendered_row :: "client \<Rightarrow> nat \<Rightarrow> nat option" where
  "rendered_row c i = (case tableData c of Table arr \<Rightarrow> (if i < len arr then elt arr i else None) | NotArray _ \<Rightarrow> None)"

fun act :: "action \<Rightarrow> client \<Rightarrow> (client \<times> sent list) option" where
  "act (TypeTitle s) c = Some (c\<lparr>newTitle := s\<rparr>, [])"
| "act ClickAdd c = Some (handleAdd c)"
| "act (ClickEdit i) c = map_option (\<lambda>a. (c, [handleEdit i a c])) (rendered_row c i)"
| "act (ClickDelete i) c =
     map_option (\<lambda>a. (c, [handleDelete i (getv (row_heap c a) ''id'')])) (rendered_row c i)"

definition reply_status :: "reply \<Rightarrow> int" where
  "reply_status r = (case rp_status r of None \<Rightarrow> 200 | Some s \<Rightarrow> s)"

definition reply_text :: "reply \<Rightarrow> string" where
  "reply_text r = concat (map json_text (rp_body r))"

datatype event = Act action | Serve nat | Deliver nat | Lose nat

text \<open>The reply of flight \<open>k\<close>, or its loss, settles its promise and runs its callback.\<close>

definition settle_flight :: "environment \<Rightarrow> nat \<Rightarrow> xhr_event list \<Rightarrow> 'd world \<Rightarrow> 'd world option" where
  "settle_flight env k evs w =
     (let f = flights w ! k in
      case wire_settled env (fl_config f) evs of
        None \<Rightarrow> None
      | Some s \<Rightarrow>
        (let (c, more) = on_reply (fl_then f) s (page w) in
         Some (w\<lparr>page := c, flights := take k (flights w) @ drop (Suc k) (flights w) @ launch more\<rparr>)))"

fun step_world :: "environment \<Rightarrow> 'd store \<Rightarrow> event \<Rightarrow> 'd world \<Rightarrow> 'd world option" where
  "step_world env g (Act a) w =
     map_option (\<lambda>(c, ss). w\<lparr>page := c, flights := flights w @ launch ss\<rparr>) (act a (page w))"
| "step_world env g (Serve k) w =
     (if k < length (flights w) \<and> fl_phase (flights w ! k) = OnWire then
        (case wire_request env (fl_config (flights w ! k)) of
           None \<Rightarrow> None
         | Some q \<Rightarrow>
           (let (r, d) = serve g (rq_method q) (rq_url q) (rq_body q) (db w) in
            Some (w\<lparr>db := d, flights := (flights w)[k := (flights w ! k)\<lparr>fl_phase := Answered r\<rparr>]\<rparr>)))
      else None)"
| "step_world env g (Deliver k) w =
     (if k < length (flights w) then
        (case fl_phase (flights w ! k) of
           OnWire \<Rightarrow> None
         | Answered r \<Rightarrow> settle_flight env k [ReadyState 4 (reply_status r) [] (reply_text r) []] w)
      else None)"
| "step_world env g (Lose k) w =
     (if k < length (flights w) then settle_flight env k [NetworkError] w else None)"

fun run_world :: "environment \<Rightarrow> 'd store \<Rightarrow> event list \<Rightarrow> 'd world \<Rightarrow> 'd world option" where
  "run_world env g [] w = Some w"
| "run_world env g (ev # evs) w = Option.bind (step_world env g ev w) (run_world env g evs)"

inductive reachable :: "environment \<Rightarrow> 'd store \<Rightarrow> 'd \<Rightarrow> 'd world \<Rightarrow> bool"
  for env g d0 where
  reach_open: "reachable env g d0 (open_page d0)"
| reach_step: "reachable env g d0 w \<Longrightarrow> step_world env g ev w = Some w' \<Longrightarrow> reachable env g d0 w'"

lemma reachable_run: "reachable env g d0 w \<Longrightarrow> run_world env g evs w = Some w' \<Longrightarrow> reachable env g d0 w'"
  by (induction evs arbitrary: w) (auto split: bind_splits intro: reach_step)

section \<open>What the requests of the page ask for\<close>

datatype intent =
    AskList
  | AskAdd string
  | AskEdit nat nat int bool
  | AskDelete nat int

fun sent_for :: "intent \<Rightarrow> sent" where
  "sent_for AskList = getTodoList"
| "sent_for (AskAdd s) = (body_config ''post'' todo_url (Obj [(''title'', Str s)]) Undef, KAdd)"
| "sent_for (AskEdit e a i b) =
     (body_config ''put'' (todo_url @ ''/'' @ show_int i) (Obj [(''status'', Bool b)]) Undef, KEdit e a b)"
| "sent_for (AskDelete e i) = (bodyless_config ''delete'' (todo_url @ ''/'' @ show_int i) Undef, KDelete e)"

fun request_for :: "intent \<Rightarrow> http_request" where
  "request_for AskList = \<lparr>rq_method = ''GET'', rq_url = todo_prefix, rq_headers = [accept_line], rq_body = None\<rparr>"
| "request_for (AskAdd s) =
     \<lparr>rq_method = ''POST'', rq_url = todo_prefix, rq_headers = [accept_line, json_line],
      rq_body = Some (json_text (Obj [(''title'', Str s)]))\<rparr>"
| "request_for (AskEdit e a i b) =
     \<lparr>rq_method = ''PUT'', rq_url = todo_prefix @ ''/'' @ show_int i, rq_headers = [accept_line, json_line],
      rq_body = Some (json_text (Obj [(''status'', Bool b)]))\<rparr>"
| "request_for (AskDelete e i) =
     \<lparr>rq_method = ''DELETE'', rq_url = todo_prefix @ ''/'' @ show_int i, rq_headers = [accept_line], rq_body = None\<rparr>"

lemma todo_url_prefix: "todo_url = todo_prefix"
  by (simp add: todo_url_def todo_prefix_def)

lemma wire_intent:
  assumes "cookie env ''XSRF-TOKEN'' = None"
  shows "wire_request env (fst (sent_for it)) = Some (request_for it)"
  using assms
  by (cases it)
     (simp_all add: getTodoList_def wire_get wire_delete wire_post wire_put todo_url_prefix json_omitted.simps
       del: json_text.simps append.simps)

text \<open>The promise of a request: refused when lost, otherwise the parsed body of a 2xx reply.\<close>

lemma prepared_intent:
  "\<exists>meth url hs d. dispatch_prepare env None (entries_of (request_config app_axios (fst (sent_for it))))
     = Inr (prepared_config meth url hs d)"
  by (cases it)
     (auto simp: getTodoList_def prepare_get prepare_delete prepare_post prepare_put simp del: json_text.simps)

lemma settled_lost: "\<exists>t. wire_settled env (fst (sent_for it)) [NetworkError] = Some (Err t)"
proof -
  obtain meth url hs d where p:
    "dispatch_prepare env None (entries_of (request_config app_axios (fst (sent_for it))))
       = Inr (prepared_config meth url hs d)" using prepared_intent by blast
  show ?thesis
    using dispatch_refused [OF p refl]
    by (simp add: wire_settled_first [OF p] first_result_def map_filter_simps)
qed

lemma settled_reply:
  assumes "200 \<le> st" and "st < 300"
  shows "\<exists>t. wire_settled env (fst (sent_for it)) [ReadyState 4 st m body raw] = Some (Ok t)
         \<and> getv t ''data'' = default_transform_response (Str body)"
proof -
  obtain meth url hs d where p:
    "dispatch_prepare env None (entries_of (request_config app_axios (fst (sent_for it))))
       = Inr (prepared_config meth url hs d)" using prepared_intent by blast
  show ?thesis
    using dispatch_reply [OF p assms, of m body raw] assms
    by (auto simp: wire_settled_first [OF p] first_result_def map_filter_simps)
qed

lemma settled_refused:
  assumes "st \<noteq> 0" and "\<not> (200 \<le> st \<and> st < 300)"
  shows "\<exists>t. wire_settled env (fst (sent_for it)) [ReadyState 4 st m body raw] = Some (Err t)"
proof -
  obtain meth url hs d where p:
    "dispatch_prepare env None (entries_of (request_config app_axios (fst (sent_for it))))
       = Inr (prepared_config meth url hs d)" using prepared_intent by blast
  show ?thesis
    using dispatch_refused [OF p refl] assms
    by (auto simp: wire_settled_first [OF p] first_result_def map_filter_simps settle_prepared Let_def)
qed

section \<open>What every interleaving keeps\<close>

text \<open>Row objects the page holds are rows of the server, with the status possibly toggled; the
  table lists distinct row objects.\<close>

definition client_ok :: "client \<Rightarrow> bool" where
  "client_ok c \<longleftrightarrow>
     (\<forall>a < next_row c. \<exists>t. row_heap c a = todo_json t) \<and>
     (\<forall>arr. tableData c = Table arr \<longrightarrow>
        (\<exists>as. arr = of_list as \<and> distinct as \<and> length as \<le> max_safe \<and> (\<forall>a \<in> set as. a < next_row c)))"

text \<open>An intent names a row object of the page.\<close>

fun intent_ok :: "client \<Rightarrow> intent \<Rightarrow> bool" where
  "intent_ok c (AskEdit e a i b) = (a < next_row c \<and> getv (row_heap c a) ''id'' = Num i)"
| "intent_ok c (AskDelete e i) = (\<exists>a < next_row c. getv (row_heap c a) ''id'' = Num i)"
| "intent_ok c _ = True"

definition list_reply :: "reply \<Rightarrow> bool" where
  "list_reply r \<longleftrightarrow>
     (\<exists>m. r = write_json 200 (error_json m) no_reply) \<or>
     (\<exists>ts. r = write_json 200 (Arr (map todo_json ts)) no_reply \<and> length ts \<le> max_safe)"

fun phase_ok :: "intent \<Rightarrow> phase \<Rightarrow> bool" where
  "phase_ok AskList (Answered r) = list_reply r"
| "phase_ok _ _ = True"

definition flight_ok :: "client \<Rightarrow> flight \<Rightarrow> bool" where
  "flight_ok c f \<longleftrightarrow>
     (\<exists>it. (fl_config f, fl_then f) = sent_for it \<and> intent_ok c it \<and> phase_ok it (fl_phase f))"

definition world_ok :: "('d \<Rightarrow> bool) \<Rightarrow> 'd world \<Rightarrow> bool" where
  "world_ok ok w \<longleftrightarrow> ok (db w) \<and> client_ok (page w) \<and> (\<forall>f \<in> set (flights w). flight_ok (page w) f)"

text \<open>The page may learn of rows and toggle a status; it keeps the identity of each row object.\<close>

definition page_grows :: "client \<Rightarrow> client \<Rightarrow> bool" where
  "page_grows c c' \<longleftrightarrow>
     next_row c \<le> next_row c' \<and>
     (\<forall>a < next_row c. getv (row_heap c' a) ''id'' = getv (row_heap c a) ''id''
        \<and> getv (row_heap c' a) ''title'' = getv (row_heap c a) ''title'')"

lemma page_grows_refl [simp]: "page_grows c c"
  by (simp add: page_grows_def)

lemma page_grows_eqI: "next_row c' = next_row c \<Longrightarrow> row_heap c' = row_heap c \<Longrightarrow> page_grows c c'"
  by (simp add: page_grows_def)

lemma page_grows_trans: "page_grows c1 c2 \<Longrightarrow> page_grows c2 c3 \<Longrightarrow> page_grows c1 c3"
  by (auto simp: page_grows_def)

lemma intent_ok_grows: "page_grows c c' \<Longrightarrow> intent_ok c it \<Longrightarrow> intent_ok c' it"
  by (cases it) (auto simp: page_grows_def, metis less_le_trans)

lemma flight_ok_grows: "page_grows c c' \<Longrightarrow> flight_ok c f \<Longrightarrow> flight_ok c' f"
  by (auto simp: flight_ok_def intro: intent_ok_grows)

lemma alloc_spec:
  "alloc vs n h = (as, n', h') \<Longrightarrow>
     as = [n..<n + length vs] \<and> n' = n + length vs \<and> map h' as = vs \<and> (\<forall>a < n. h' a = h a)"
proof (induction vs arbitrary: n h as n' h')
  case Nil
  then show ?case by simp
next
  case (Cons v vs)
  obtain bs m k where r: "alloc vs (Suc n) (h(n := v)) = (bs, m, k)" by (metis prod_cases3)
  with Cons.prems have eqs: "as = n # bs" "n' = m" "h' = k" by auto
  from Cons.IH [OF r] have ih: "bs = [Suc n..<Suc n + length vs]" "m = Suc n + length vs"
    "map k bs = vs" "\<forall>a < Suc n. k a = (h(n := v)) a" by auto
  from ih(4) have "k n = v" "\<forall>a < n. k a = h a" by auto
  then show ?case using eqs ih by (simp add: upt_conv_Cons del: upt_Suc)
qed

lemma todo_json_inj: "todo_json t = todo_json u \<Longrightarrow> t = u"
  by (simp add: todo_json_def)

lemma todo_json_get [simp]:
  "getv (todo_json t) ''id'' = Num (ID t)"
  "getv (todo_json t) ''title'' = Str (Title t)"
  "getv (todo_json t) ''status'' = Bool (Status t)"
  by (simp_all add: todo_json_def)

lemma todo_json_value [simp]: "json_value (todo_json t)"
  by (simp add: todo_json_def)

lemma set_table_rows:
  assumes "client_ok c" and "length ts \<le> max_safe"
  shows "client_ok (set_table (Arr (map todo_json ts)) c)"
    and "page_grows c (set_table (Arr (map todo_json ts)) c)"
proof -
  let ?vs = "map todo_json ts"
  obtain as n h where al: "alloc ?vs (next_row c) (row_heap c) = (as, n, h)" by (metis prod_cases3)
  note s = alloc_spec [OF al]
  have "\<exists>t. h a = todo_json t" if "a < n" for a
  proof (cases "a < next_row c")
    case True
    then show ?thesis using s assms(1) by (auto simp: client_ok_def)
  next
    case False
    with that s have "a \<in> set as" by auto
    then have "h a \<in> set (map h as)" by simp
    also have "map h as = ?vs" using s by blast
    finally show ?thesis by auto
  qed
  with s assms(2) show "client_ok (set_table (Arr ?vs) c)" and "page_grows c (set_table (Arr ?vs) c)"
    by (auto simp: al client_ok_def page_grows_def)
qed

lemma set_table_other:
  "client_ok c \<Longrightarrow> (\<And>vs. v \<noteq> Arr vs) \<Longrightarrow> client_ok (set_table v c) \<and> page_grows c (set_table v c)"
  by (cases v) (auto simp: client_ok_def page_grows_def)

lemma set_status_todo: "Obj (oset ''status'' (Bool b) [(''id'', x), (''title'', y), (''status'', z)])
    = Obj [(''id'', x), (''title'', y), (''status'', Bool b)]"
  by simp

lemma set_status_ok:
  assumes "client_ok c" and "set_status e b c = Some c'"
  shows "client_ok c' \<and> page_grows c c'"
proof (cases "tableData c")
  case (Table arr)
  then obtain a ob where a: "elt arr e = Some a" and ob: "row_heap c a = Obj ob"
    and c': "c' = c\<lparr>row_heap := (row_heap c)(a := Obj (oset ''status'' (Bool b) ob))\<rparr>"
    using assms(2) by (auto simp: set_status.simps split: option.splits jv.splits)
  obtain as where as: "arr = of_list as" "\<forall>x \<in> set as. x < next_row c"
    using assms(1) Table by (auto simp: client_ok_def)
  then have "a < next_row c" using a by (auto simp: elt_of_list split: if_splits)
  then obtain t where t: "row_heap c a = todo_json t" using assms(1) by (auto simp: client_ok_def)
  then have "Obj (oset ''status'' (Bool b) ob) = todo_json (t\<lparr>Status := b\<rparr>)"
    using ob by (auto simp: todo_json_def)
  then show ?thesis using assms(1) c' t by (auto simp: client_ok_def page_grows_def)
next
  case (NotArray v)
  then show ?thesis using assms
    by (auto simp: set_status.simps client_ok_def page_grows_def split: option.splits jv.splits)
qed


lemma splice_page_ok:
  assumes "client_ok c" and "tableData c = Table arr"
  shows "client_ok (c\<lparr>tableData := Table (splice_one e arr), toasts := ts\<rparr>)"
proof -
  obtain as where as: "arr = of_list as" "distinct as" "length as \<le> max_safe" "\<forall>a \<in> set as. a < next_row c"
    using assms by (auto simp: client_ok_def)
  let ?bs = "take e as @ drop (Suc e) as"
  have "distinct ?bs" using js_rows.remove_distinct [of arr e] as by (simp add: js_rows.rows_remove)
  moreover have "length ?bs \<le> max_safe" using as(3) by simp
  moreover have "\<forall>a \<in> set ?bs. a < next_row c" using as(4) by (auto dest: in_set_takeD in_set_dropD)
  moreover have "splice_one e arr = of_list ?bs" using as by (simp add: splice_one_of_list)
  ultimately have "\<exists>as. splice_one e arr = of_list as \<and> distinct as \<and> length as \<le> max_safe
      \<and> (\<forall>a \<in> set as. a < next_row c)" by blast
  then show ?thesis using assms(1) unfolding client_ok_def by simp
qed

lemma client_ok_cong:
  "client_ok c \<Longrightarrow> tableData c' = tableData c \<Longrightarrow> row_heap c' = row_heap c \<Longrightarrow> next_row c' = next_row c
     \<Longrightarrow> client_ok c' \<and> page_grows c c'"
  by (simp add: client_ok_def page_grows_def)

lemma list_data:
  assumes "list_reply r" and "getv t ''data'' = default_transform_response (Str (reply_text r))"
  shows "(\<exists>ts. getv t ''data'' = Arr (map todo_json ts) \<and> length ts \<le> max_safe) \<or> (\<exists>m. getv t ''data'' = error_json m)"
proof -
  have parsed: "default_transform_response (Str (reply_text (write_json 200 v no_reply))) = v"
    if "json_value v" for v
    using json_parse_stringify [OF that] by (simp add: reply_text_def write_json_def no_reply_def)
  have "json_value (error_json m)" for m by (simp add: error_json_def)
  moreover have "json_value (Arr (map todo_json ts))" for ts by simp
  ultimately show ?thesis using assms parsed by (auto simp: list_reply_def)
qed

lemma on_reply_ok:
  assumes "client_ok c" and "on_reply k s c = (c', ss)"
    and "\<And>t. k = KList \<Longrightarrow> s = Ok t \<Longrightarrow>
           (\<exists>ts. getv t ''data'' = Arr (map todo_json ts) \<and> length ts \<le> max_safe) \<or> (\<exists>m. getv t ''data'' = error_json m)"
  shows "client_ok c' \<and> page_grows c c' \<and> (ss = [] \<or> ss = [getTodoList])"
proof (cases s)
  case (Err x)
  with assms(2) client_ok_cong [OF assms(1), of c'] show ?thesis by (auto simp: reject_unhandled_def)
next
  case (Ok t)
  show ?thesis
  proof (cases k)
    case KList
    have c': "c' = set_table (getv t ''data'') c" "ss = []" using assms(2) Ok KList by simp_all
    from assms(3) [OF KList Ok] show ?thesis
    proof (elim disjE exE conjE)
      fix ts assume "getv t ''data'' = Arr (map todo_json ts)" "length ts \<le> max_safe"
      then show ?thesis using c' set_table_rows [OF assms(1), of ts] by simp
    next
      fix m assume "getv t ''data'' = error_json m"
      then show ?thesis using c' set_table_other [OF assms(1), of "error_json m"]
        by (simp add: error_json_def)
    qed
  next
    case KAdd
    with assms(2) Ok client_ok_cong [OF assms(1), of c'] show ?thesis by auto
  next
    case (KEdit e a b)
    show ?thesis
    proof (cases "set_status e (\<not> truthy (getv (row_heap c a) ''status'')) c")
      case None
      with KEdit Ok assms(2) client_ok_cong [OF assms(1), of c'] show ?thesis
        by (auto simp: reject_unhandled_def Let_def)
    next
      case (Some c1)
      note g = set_status_ok [OF assms(1) Some]
      have "client_ok c' \<and> page_grows c1 c'"
        using client_ok_cong [of c1 c'] g KEdit Ok assms(2) Some by (auto simp: Let_def)
      then show ?thesis using g KEdit Ok assms(2) Some page_grows_trans by (auto simp: Let_def)
    qed
  next
    case (KDelete e)
    show ?thesis
    proof (cases "tableData c")
      case (Table arr)
      with KDelete Ok assms(2) splice_page_ok [OF assms(1) Table, where e = e] show ?thesis
        by (auto simp: page_grows_def)
    next
      case (NotArray v)
      with KDelete Ok assms(2) client_ok_cong [OF assms(1), of c'] show ?thesis
        by (auto simp: reject_unhandled_def)
    qed
  qed
qed


text \<open>What a gesture sends.\<close>

lemma edit_intent:
  assumes "row_heap c a = todo_json t"
  shows "handleEdit e a c = sent_for (AskEdit e a (ID t) (\<not> Status t))"
  using assms by (simp add: handleEdit_def Let_def)

lemma delete_intent: "handleDelete e (Num i) = sent_for (AskDelete e i)"
  by (simp add: handleDelete_def)

lemma rendered_row_ok:
  assumes "client_ok c" and "rendered_row c i = Some a"
  shows "a < next_row c \<and> (\<exists>t. row_heap c a = todo_json t)"
  using assms by (auto simp: client_ok_def rendered_row_def elt_of_list split: table.splits if_splits)

lemma act_ok:
  assumes "client_ok c" and "act x c = Some (c', ss)"
  shows "client_ok c' \<and> page_grows c c' \<and> (\<forall>s \<in> set ss. \<exists>it. s = sent_for it \<and> intent_ok c' it)"
proof (cases x)
  case (TypeTitle y)
  with assms client_ok_cong [OF assms(1), of c'] show ?thesis by auto
next
  case ClickAdd
  have "\<forall>s \<in> set ss. s = sent_for (AskAdd (newTitle c))"
    using assms(2) ClickAdd by (auto simp: handleAdd_def split: if_splits)
  then have "\<forall>s \<in> set ss. \<exists>it. s = sent_for it \<and> intent_ok c' it" using intent_ok.simps(4) by metis
  moreover have "tableData c' = tableData c" "row_heap c' = row_heap c" "next_row c' = next_row c"
    using assms(2) ClickAdd by (auto simp: handleAdd_def split: if_splits)
  ultimately show ?thesis using client_ok_cong [OF assms(1), of c'] by blast
next
  case (ClickEdit i)
  then obtain a where a: "rendered_row c i = Some a" and c': "c' = c" "ss = [handleEdit i a c]"
    using assms(2) by auto
  from rendered_row_ok [OF assms(1) a] obtain t where t: "a < next_row c" "row_heap c a = todo_json t" by blast
  then have "handleEdit i a c = sent_for (AskEdit i a (ID t) (\<not> Status t))" by (simp only: edit_intent)
  moreover have "intent_ok c (AskEdit i a (ID t) (\<not> Status t))" using t by simp
  ultimately show ?thesis using c' assms(1) by (metis empty_iff empty_set page_grows_refl set_ConsD)
next
  case (ClickDelete i)
  then obtain a where a: "rendered_row c i = Some a"
    and c': "c' = c" "ss = [handleDelete i (getv (row_heap c a) ''id'')]"
    using assms(2) by auto
  from rendered_row_ok [OF assms(1) a] obtain t where t: "a < next_row c" "row_heap c a = todo_json t" by blast
  then have "handleDelete i (getv (row_heap c a) ''id'') = sent_for (AskDelete i (ID t))"
    by (simp only: todo_json_get delete_intent)
  moreover have "intent_ok c (AskDelete i (ID t))" using t by auto
  ultimately show ?thesis using c' assms(1) by (metis empty_iff empty_set page_grows_refl set_ConsD)
qed

lemma flight_ok_launch:
  "\<forall>s \<in> set ss. \<exists>it. s = sent_for it \<and> intent_ok c it \<Longrightarrow> f \<in> set (launch ss) \<Longrightarrow> flight_ok c f"
proof -
  assume a: "\<forall>s \<in> set ss. \<exists>it. s = sent_for it \<and> intent_ok c it" and "f \<in> set (launch ss)"
  then obtain cfg k where s: "(cfg, k) \<in> set ss" and f: "f = \<lparr>fl_config = cfg, fl_then = k, fl_phase = OnWire\<rparr>"
    by (auto simp: launch_def)
  from a s obtain it where "(cfg, k) = sent_for it" "intent_ok c it" by blast
  moreover have "phase_ok it OnWire" by (cases it) simp_all
  ultimately show ?thesis using f by (auto simp: flight_ok_def)
qed

lemma settle_flight_ok:
  assumes "world_ok ok w" and "k < length (flights w)" and "settle_flight env k evs w = Some w'"
    and "\<And>it t. (fl_config (flights w ! k), fl_then (flights w ! k)) = sent_for it \<Longrightarrow> it = AskList \<Longrightarrow>
           wire_settled env (fl_config (flights w ! k)) evs = Some (Ok t) \<Longrightarrow>
           (\<exists>ts. getv t ''data'' = Arr (map todo_json ts) \<and> length ts \<le> max_safe) \<or> (\<exists>m. getv t ''data'' = error_json m)"
  shows "world_ok ok w'"
proof -
  let ?f = "flights w ! k"
  from assms(3) obtain s c ss where s: "wire_settled env (fl_config ?f) evs = Some s"
    and r: "on_reply (fl_then ?f) s (page w) = (c, ss)"
    and w': "w' = w\<lparr>page := c, flights := take k (flights w) @ drop (Suc k) (flights w) @ launch ss\<rparr>"
    by (auto simp: settle_flight_def Let_def split: option.splits prod.splits)
  have fs: "\<forall>f \<in> set (flights w). flight_ok (page w) f" and cl: "client_ok (page w)" and ok: "ok (db w)"
    using assms(1) by (auto simp: world_ok_def)
  have "flight_ok (page w) ?f" using fs assms(2) by simp
  then obtain it where it: "(fl_config ?f, fl_then ?f) = sent_for it"
    by (auto simp: flight_ok_def)
  have "fl_then ?f = KList \<Longrightarrow> it = AskList" using it by (cases it) (auto simp: getTodoList_def)
  with on_reply_ok [OF cl r] assms(4) [OF it] s
  have g: "client_ok c \<and> page_grows (page w) c \<and> (ss = [] \<or> ss = [getTodoList])" by blast
  have "\<forall>s \<in> set ss. \<exists>it. s = sent_for it \<and> intent_ok c it"
    using g sent_for.simps(1) intent_ok.simps(3) by (metis empty_iff empty_set set_ConsD)
  note launched = flight_ok_launch [OF this]
  have "\<forall>f \<in> set (flights w'). flight_ok c f"
    using fs g flight_ok_grows launched
    by (auto simp: w' dest!: in_set_takeD in_set_dropD)
  then show ?thesis using g ok by (simp add: world_ok_def w')
qed


lemma sent_for_inj: "sent_for x = sent_for y \<Longrightarrow> (x = AskList \<longleftrightarrow> y = AskList)"
  by (cases x; cases y) (auto simp: getTodoList_def)

text \<open>The effect of a request on the table: nothing and an error, or what was asked.\<close>

fun asked :: "intent \<Rightarrow> todo list \<Rightarrow> todo list \<Rightarrow> bool" where
  "asked AskList ts ts' = (ts' = ts)"
| "asked (AskAdd s) ts ts' = (\<exists>t. Title t = s \<and> \<not> Status t \<and> ts' = ts @ [t])"
| "asked (AskEdit e a i b) ts ts' = (\<exists>t \<in> set ts. ID t = i \<and> ts' = replace_row (t\<lparr>Status := b\<rparr>) ts)"
| "asked (AskDelete e i) ts ts' = (ts' = remove_row_id i ts)"

lemma max_safe_limit: "max_safe = table_limit"
  by (simp add: max_safe_def table_limit_def)

lemma serve_intent:
  assumes laws: "store_laws g rows ok" and ok: "ok d"
    and s: "serve g (rq_method (request_for it)) (rq_url (request_for it)) (rq_body (request_for it)) d = (r, d')"
  shows "ok d' \<and> phase_ok it (Answered r)
     \<and> ((is_error_reply r \<and> d' = d) \<or> asked it (rows d) (rows d'))"
proof (cases it)
  case AskList
  with s have r: "r = get_todos g d" "d' = d" by (auto simp: serve_list)
  have "list_reply r"
  proof (cases "db_find g d")
    case (Inl e)
    then show ?thesis using r by (auto simp: get_todos_def list_reply_def)
  next
    case (Inr ts)
    then have "length ts \<le> max_safe" using store_lawsD(2,3) [OF laws ok] by (simp add: max_safe_limit)
    with Inr show ?thesis using r by (auto simp: get_todos_def list_reply_def)
  qed
  then show ?thesis using AskList r ok by simp
next
  case (AskAdd x)
  note q = s [unfolded AskAdd request_for.simps http_request.select_convs]
  from serve_post [OF laws ok q] ok show ?thesis unfolding AskAdd phase_ok.simps asked.simps by blast
next
  case (AskEdit e a i b)
  note q = s [unfolded AskEdit request_for.simps http_request.select_convs]
  from serve_put_status [OF laws ok q] ok show ?thesis unfolding AskEdit phase_ok.simps asked.simps by blast
next
  case (AskDelete e i)
  note q = s [unfolded AskDelete request_for.simps http_request.select_convs]
  from serve_delete [OF laws ok q] ok show ?thesis unfolding AskDelete phase_ok.simps asked.simps by blast
qed

text \<open>What the request for the list settles with, when its answer comes.\<close>

lemma delivered_list:
  assumes f: "flight_ok c f" "fl_phase f = Answered r"
    and it: "(fl_config f, fl_then f) = sent_for AskList"
    and t: "wire_settled env (fl_config f) [ReadyState 4 (reply_status r) [] (reply_text r) []] = Some (Ok t)"
  shows "(\<exists>ts. getv t ''data'' = Arr (map todo_json ts) \<and> length ts \<le> max_safe) \<or> (\<exists>m. getv t ''data'' = error_json m)"
proof -
  obtain j where "(fl_config f, fl_then f) = sent_for j" "phase_ok j (Answered r)" using f by (auto simp: flight_ok_def)
  then have l: "list_reply r" using it sent_for_inj [of j AskList] by simp
  then have r: "reply_status r = 200" by (auto simp: list_reply_def reply_status_def write_json_def no_reply_def)
  have cfg: "fl_config f = fst (sent_for AskList)" using it by (metis fst_conv)
  have "getv t ''data'' = default_transform_response (Str (reply_text r))"
    using t r settled_reply [of 200 env AskList "[]" "reply_text r" "[]"] unfolding cfg by auto
  then show ?thesis using list_data l by blast
qed

lemma step_world_ok:
  assumes laws: "store_laws g rows ok" and ck: "cookie env ''XSRF-TOKEN'' = None"
    and w: "world_ok ok w" and st: "step_world env g ev w = Some w'"
  shows "world_ok ok w'"
proof (cases ev)
  case (Act x)
  then obtain c ss where a: "act x (page w) = Some (c, ss)"
    and w': "w' = w\<lparr>page := c, flights := flights w @ launch ss\<rparr>"
    using st by auto
  note g = act_ok [OF _ a]
  show ?thesis
    using g w flight_ok_launch [of ss c] flight_ok_grows [of "page w" c] by (auto simp: world_ok_def w')
next
  case (Serve k)
  let ?f = "flights w ! k"
  have k: "k < length (flights w)" using st Serve by (auto split: if_splits)
  have "flight_ok (page w) ?f" using w k by (simp add: world_ok_def)
  then obtain it where it: "(fl_config ?f, fl_then ?f) = sent_for it" "intent_ok (page w) it"
    by (auto simp: flight_ok_def)
  have q: "wire_request env (fl_config ?f) = Some (request_for it)"
    using wire_intent [OF ck, of it] it(1) [symmetric] by simp
  obtain r d where s: "serve g (rq_method (request_for it)) (rq_url (request_for it)) (rq_body (request_for it)) (db w)
      = (r, d)" by fastforce
  then have w': "w' = w\<lparr>db := d, flights := (flights w)[k := ?f\<lparr>fl_phase := Answered r\<rparr>]\<rparr>"
    using st Serve q by (auto split: if_splits)
  have "ok d" and ph: "phase_ok it (Answered r)" using serve_intent [OF laws _ s] w by (auto simp: world_ok_def)
  have "flight_ok (page w) (?f\<lparr>fl_phase := Answered r\<rparr>)"
    unfolding flight_ok_def using it ph by (intro exI [of _ it]) simp
  with w \<open>ok d\<close> show ?thesis
    by (auto simp: world_ok_def w' dest: set_update_subset_insert [THEN subsetD])
next
  case (Deliver k)
  then obtain r where k: "k < length (flights w)" and r: "fl_phase (flights w ! k) = Answered r"
    and s: "settle_flight env k [ReadyState 4 (reply_status r) [] (reply_text r) []] w = Some w'"
    using st by (auto split: if_splits phase.splits)
  have f: "flight_ok (page w) (flights w ! k)" using w k by (simp add: world_ok_def)
  show ?thesis
  proof (rule settle_flight_ok [OF w k s])
    fix it t
    assume it: "(fl_config (flights w ! k), fl_then (flights w ! k)) = sent_for it" "it = AskList"
      and t: "wire_settled env (fl_config (flights w ! k)) [ReadyState 4 (reply_status r) [] (reply_text r) []] = Some (Ok t)"
    show "(\<exists>ts. getv t ''data'' = Arr (map todo_json ts) \<and> length ts \<le> max_safe) \<or> (\<exists>m. getv t ''data'' = error_json m)"
      by (rule delivered_list [OF f r it(1) [unfolded it(2)] t])
  qed
next
  case (Lose k)
  then have k: "k < length (flights w)" and s: "settle_flight env k [NetworkError] w = Some w'"
    using st by (auto split: if_splits)
  show ?thesis
  proof (rule settle_flight_ok [OF w k s])
    fix it t
    assume "(fl_config (flights w ! k), fl_then (flights w ! k)) = sent_for it"
      and "wire_settled env (fl_config (flights w ! k)) [NetworkError] = Some (Ok t)"
    then show "(\<exists>ts. getv t ''data'' = Arr (map todo_json ts) \<and> length ts \<le> max_safe)
       \<or> (\<exists>m. getv t ''data'' = error_json m)"
      using settled_lost [of env it] by (metis fst_conv option.inject settled.distinct(1))
  qed
qed

lemma reachable_world_ok:
  assumes "reachable env g d0 w" and "store_laws g rows ok" and "cookie env ''XSRF-TOKEN'' = None" and "ok d0"
  shows "world_ok ok w"
  using assms
proof (induction rule: reachable.induct)
  case reach_open
  have cl: "client_ok init_client" by (auto simp: client_ok_def init_client_def)
  have "\<forall>s \<in> set [getTodoList]. \<exists>it. s = sent_for it \<and> intent_ok init_client it"
    using sent_for.simps(1) intent_ok.simps(3) by (metis empty_iff empty_set set_ConsD)
  then have "\<forall>f \<in> set (launch [getTodoList]). flight_ok init_client f" using flight_ok_launch by blast
  then show ?case using reach_open cl by (simp add: open_page_def world_ok_def)
next
  case (reach_step w ev w')
  then show ?case using step_world_ok by metis
qed

section \<open>One gesture at a time\<close>

text \<open>The page shows the rows of the database, in their order.\<close>

definition shows_rows :: "client \<Rightarrow> todo list \<Rightarrow> bool" where
  "shows_rows c ts \<longleftrightarrow>
     (\<exists>as. tableData c = Table (of_list as) \<and> distinct as \<and> length as \<le> max_safe
        \<and> (\<forall>a \<in> set as. a < next_row c) \<and> map (row_heap c) as = map todo_json ts)"

text \<open>A database that serves: no operation on existing rows fails, and creating fails only on a
  full table.\<close>

definition store_up :: "'d store \<Rightarrow> ('d \<Rightarrow> todo list) \<Rightarrow> ('d \<Rightarrow> bool) \<Rightarrow> bool" where
  "store_up g rows ok \<longleftrightarrow>
     (\<forall>d. ok d \<longrightarrow>
        (\<exists>ts. db_find g d = Inr ts) \<and>
        (\<forall>t. length (rows d) < table_limit \<longrightarrow> (\<exists>p. db_create g t d = Inr p)) \<and>
        (\<forall>i \<in> set (ids (rows d)). \<exists>t. db_first g (show_int i) d = Inr t) \<and>
        (\<forall>t. ID t \<in> set (ids (rows d)) \<longrightarrow> (\<exists>d'. db_save g t d = Inr d')) \<and>
        (\<forall>i. \<exists>d'. db_delete g (show_int i) d = Inr d'))"

definition settled_world :: "('d \<Rightarrow> todo list) \<Rightarrow> ('d \<Rightarrow> bool) \<Rightarrow> 'd world \<Rightarrow> bool" where
  "settled_world rows ok w \<longleftrightarrow> ok (db w) \<and> flights w = [] \<and> shows_rows (page w) (rows (db w))"

text \<open>The schedule of a gesture whose requests settle before anything else happens.\<close>

fun schedule :: "action \<Rightarrow> client \<Rightarrow> event list" where
  "schedule (TypeTitle s) c = [Act (TypeTitle s)]"
| "schedule ClickAdd c =
     (if newTitle c = [] then [Act ClickAdd] else [Act ClickAdd, Serve 0, Deliver 0, Serve 0, Deliver 0])"
| "schedule x c = [Act x, Serve 0, Deliver 0]"

definition gesture :: "environment \<Rightarrow> 'd store \<Rightarrow> action \<Rightarrow> 'd world \<Rightarrow> 'd world option" where
  "gesture env g x w = run_world env g (schedule x (page w)) w"

text \<open>What the user expects of a gesture: the list before and after.\<close>

fun expected :: "action \<Rightarrow> string \<Rightarrow> todo list \<Rightarrow> todo list \<Rightarrow> bool" where
  "expected (TypeTitle s) title ts ts' = (ts' = ts)"
| "expected ClickAdd title ts ts' =
     (if title = [] then ts' = ts else \<exists>t. Title t = title \<and> \<not> Status t \<and> ts' = ts @ [t])"
| "expected (ClickEdit i) title ts ts' = (ts' = ts[i := (ts ! i)\<lparr>Status := \<not> Status (ts ! i)\<rparr>])"
| "expected (ClickDelete i) title ts ts' = (ts' = take i ts @ drop (Suc i) ts)"

definition in_range :: "action \<Rightarrow> nat \<Rightarrow> bool" where
  "in_range x n \<longleftrightarrow> (case x of ClickEdit i \<Rightarrow> i < n | ClickDelete i \<Rightarrow> i < n | _ \<Rightarrow> True)"

lemma shown_row:
  assumes "shows_rows c ts" and "i < length ts"
  shows "\<exists>a. rendered_row c i = Some a \<and> row_heap c a = todo_json (ts ! i)"
proof -
  obtain as where as: "tableData c = Table (of_list as)" "map (row_heap c) as = map todo_json ts"
    using assms(1) by (auto simp: shows_rows_def)
  from as(2) have l: "length as = length ts" by (rule map_eq_imp_length_eq)
  have "row_heap c (as ! i) = map (row_heap c) as ! i" using l assms(2) by simp
  also have "\<dots> = todo_json (ts ! i)" using as(2) assms(2) by simp
  finally show ?thesis using as(1) l assms(2) by (auto simp: rendered_row_def elt_of_list)
qed

lemma list_shows:
  assumes "length ts \<le> max_safe"
  shows "shows_rows (set_table (Arr (map todo_json ts)) c) ts"
proof -
  obtain as n h where al: "alloc (map todo_json ts) (next_row c) (row_heap c) = (as, n, h)" by (metis prod_cases3)
  with alloc_spec [OF al] assms show ?thesis by (auto simp: shows_rows_def)
qed

lemma replace_nth:
  assumes "distinct (ids ts)" and "i < length ts" and "ID u = ID (ts ! i)"
  shows "replace_row u ts = ts[i := u]"
proof (rule nth_equalityI)
  show "length (replace_row u ts) = length (ts[i := u])" by (simp add: replace_row_def)
  fix j assume "j < length (replace_row u ts)"
  then have j: "j < length ts" by (simp add: replace_row_def)
  have "ID (ts ! j) = ID (ts ! i) \<longleftrightarrow> j = i"
    using nth_eq_iff_index_eq [OF assms(1), of j i] j assms(2) by (simp add: ids_def)
  then show "replace_row u ts ! j = ts[i := u] ! j"
    using j assms(3) by (auto simp: replace_row_def nth_list_update)
qed

lemma remove_nth:
  assumes "distinct (ids ts)" and "i < length ts"
  shows "remove_row_id (ID (ts ! i)) ts = take i ts @ drop (Suc i) ts"
proof -
  have split: "ts = take i ts @ ts ! i # drop (Suc i) ts" using assms(2) by (rule id_take_nth_drop)
  have "distinct (ids (take i ts @ ts ! i # drop (Suc i) ts))" using assms(1) split by simp
  then have out: "ID (ts ! i) \<notin> ID ` set (take i ts)" "ID (ts ! i) \<notin> ID ` set (drop (Suc i) ts)"
    by (auto simp: ids_def)
  have "filter (\<lambda>u. ID u \<noteq> ID (ts ! i)) (take i ts) = take i ts"
    using out(1) by (intro filter_True) (metis imageI)
  moreover have "filter (\<lambda>u. ID u \<noteq> ID (ts ! i)) (drop (Suc i) ts) = drop (Suc i) ts"
    using out(2) by (intro filter_True) (metis imageI)
  ultimately have "remove_row_id (ID (ts ! i)) (take i ts @ ts ! i # drop (Suc i) ts) = take i ts @ drop (Suc i) ts"
    by (simp add: remove_row_id_def)
  then show ?thesis using split by simp
qed

lemma take_drop_map_eq:
  "map f xs = map h ys \<Longrightarrow> map f (take i xs @ drop j xs) = map h (take i ys @ drop j ys)"
  by (simp add: take_map [symmetric] drop_map [symmetric])


fun servable :: "intent \<Rightarrow> todo list \<Rightarrow> bool" where
  "servable (AskAdd s) ts = (length ts < table_limit)"
| "servable (AskEdit e a i b) ts = (i \<in> set (ids ts))"
| "servable _ ts = True"

lemma store_upD:
  assumes "store_up g rows ok" and "ok d"
  shows "\<exists>ts. db_find g d = Inr ts" and "length (rows d) < table_limit \<Longrightarrow> \<exists>p. db_create g t d = Inr p"
    and "i \<in> set (ids (rows d)) \<Longrightarrow> \<exists>t. db_first g (show_int i) d = Inr t"
    and "ID t \<in> set (ids (rows d)) \<Longrightarrow> \<exists>d'. db_save g t d = Inr d'"
    and "\<exists>d'. db_delete g (show_int i) d = Inr d'"
  using assms by (auto simp: store_up_def)

lemma status_200: "reply_status (write_json 200 v no_reply) = 200"
  by (simp add: reply_status_def write_json_def no_reply_def)

lemma serve_up:
  assumes laws: "store_laws g rows ok" and up: "store_up g rows ok" and ok: "ok d" and sv: "servable it (rows d)"
    and s: "serve g (rq_method (request_for it)) (rq_url (request_for it)) (rq_body (request_for it)) d = (r, d')"
  shows "reply_status r = 200 \<and> asked it (rows d) (rows d')
     \<and> (it = AskList \<longrightarrow> r = write_json 200 (Arr (map todo_json (rows d))) no_reply)"
proof (cases it)
  case AskList
  obtain ts where "db_find g d = Inr ts" using store_upD(1) [OF up ok] by blast
  with s AskList show ?thesis
    using store_lawsD(3) [OF laws ok] by (auto simp: serve_list get_todos_def status_200)
next
  case (AskAdd x)
  let ?t = "zero_todo\<lparr>Title := x\<rparr>"
  note q = s [unfolded AskAdd request_for.simps http_request.select_convs serve_list]
  have z: "ID ?t = 0" by (simp add: zero_todo_def)
  obtain t' d2 where "db_create g ?t d = Inr (t', d2)" using store_upD(2) [OF up ok] sv AskAdd by force
  with q store_lawsD(5,6) [OF laws ok z] show ?thesis
    by (auto simp: AskAdd post_todo_def bind_title_body status_200 zero_todo_def simp del: json_text.simps)
next
  case (AskEdit e a i b)
  note q = s [unfolded AskEdit request_for.simps http_request.select_convs serve_item]
  obtain t where t: "db_first g (show_int i) d = Inr t" using store_upD(3) [OF up ok] sv AskEdit by force
  note l = store_lawsD(7) [OF laws ok t]
  have m: "ID (t\<lparr>Status := b\<rparr>) \<in> set (ids (rows d))" using l by (auto simp: ids_def)
  obtain d2 where d2: "db_save g (t\<lparr>Status := b\<rparr>) d = Inr d2" using store_upD(4) [OF up ok m] by blast
  from q t d2 l store_lawsD(9) [OF laws ok m d2] show ?thesis
    by (auto simp: AskEdit put_todo_def bind_status_body status_200 Let_def simp del: json_text.simps)
next
  case (AskDelete e i)
  note q = s [unfolded AskDelete request_for.simps http_request.select_convs serve_item]
  obtain d2 where d2: "db_delete g (show_int i) d = Inr d2" using store_upD(5) [OF up ok] by blast
  from q d2 store_lawsD(11) [OF laws ok d2] show ?thesis
    by (auto simp: AskDelete delete_todo_def status_200)
qed

text \<open>Any answer with status 200 fulfils the promise of the first request in flight.\<close>

lemma deliver_first:
  assumes ck: "cookie env ''XSRF-TOKEN'' = None" and fl: "flights w = launch (sent_for it # rest)"
    and s: "serve g (rq_method (request_for it)) (rq_url (request_for it)) (rq_body (request_for it)) (db w) = (r, d)"
    and st: "reply_status r = 200"
  shows "\<exists>t. getv t ''data'' = default_transform_response (Str (reply_text r)) \<and>
    (\<forall>evs. run_world env g (Serve 0 # Deliver 0 # evs) w =
      (let (c, ss) = on_reply (snd (sent_for it)) (Ok t) (page w)
       in run_world env g evs (w\<lparr>db := d, page := c, flights := launch (rest @ ss)\<rparr>)))"
proof -
  obtain cfg k where it: "sent_for it = (cfg, k)" by fastforce
  have q: "wire_request env cfg = Some (request_for it)" using wire_intent [OF ck, of it] it by simp
  obtain t where t: "wire_settled env cfg [ReadyState 4 200 [] (reply_text r) []] = Some (Ok t)"
    "getv t ''data'' = default_transform_response (Str (reply_text r))"
    using settled_reply [of 200 env it "[]" "reply_text r" "[]"] it by auto
  have run: "run_world env g (Serve 0 # Deliver 0 # evs) w =
      (let (c, ss) = on_reply k (Ok t) (page w)
       in run_world env g evs (w\<lparr>db := d, page := c, flights := launch (rest @ ss)\<rparr>))" for evs
    using fl it q s st t by (simp add: launch_def settle_flight_def split: prod.splits)
  then show ?thesis using t(2) it by (intro exI [of _ t]) simp
qed

lemma deliver_round:
  assumes laws: "store_laws g rows ok" and up: "store_up g rows ok" and ck: "cookie env ''XSRF-TOKEN'' = None"
    and ok: "ok (db w)" and fl: "flights w = launch (sent_for it # rest)" and sv: "servable it (rows (db w))"
  shows "\<exists>t d. ok d \<and> asked it (rows (db w)) (rows d) \<and>
    (it = AskList \<longrightarrow> getv t ''data'' = Arr (map todo_json (rows (db w)))) \<and>
    (\<forall>evs. run_world env g (Serve 0 # Deliver 0 # evs) w =
      (let (c, ss) = on_reply (snd (sent_for it)) (Ok t) (page w)
       in run_world env g evs (w\<lparr>db := d, page := c, flights := launch (rest @ ss)\<rparr>)))"
proof -
  obtain r d where s: "serve g (rq_method (request_for it)) (rq_url (request_for it)) (rq_body (request_for it)) (db w) = (r, d)"
    by fastforce
  note u = serve_up [OF laws up ok sv s] and v = serve_intent [OF laws ok s]
  obtain t where t: "getv t ''data'' = default_transform_response (Str (reply_text r))"
    and run: "\<forall>evs. run_world env g (Serve 0 # Deliver 0 # evs) w =
      (let (c, ss) = on_reply (snd (sent_for it)) (Ok t) (page w)
       in run_world env g evs (w\<lparr>db := d, page := c, flights := launch (rest @ ss)\<rparr>))"
    using deliver_first [OF ck fl s] u by blast
  have data: "getv t ''data'' = Arr (map todo_json (rows (db w)))" if "it = AskList"
  proof -
    have "json_value (Arr (map todo_json (rows (db w))))" by simp
    from json_parse_stringify [OF this] show ?thesis
      using t u that by (simp add: reply_text_def write_json_def no_reply_def del: json_text.simps)
  qed
  show ?thesis
    by (rule exI [of _ t], rule exI [of _ d]) (use u v run data in \<open>simp del: run_world.simps\<close>)
qed

text \<open>Each gesture, from a settled world, ends in a settled world with the expected list.\<close>

lemma edit_reply:
  assumes "shows_rows c ts" and "i < length ts" and "rendered_row c i = Some a" and "row_heap c a = todo_json (ts ! i)"
  shows "\<exists>c'. on_reply (KEdit i a b) (Ok t) c = (c', [])
    \<and> shows_rows c' (ts[i := (ts ! i)\<lparr>Status := \<not> Status (ts ! i)\<rparr>])
    \<and> rendered_row c' i = Some a \<and> row_heap c' a = todo_json ((ts ! i)\<lparr>Status := \<not> Status (ts ! i)\<rparr>)"
proof -
  let ?u = "(ts ! i)\<lparr>Status := \<not> Status (ts ! i)\<rparr>"
  obtain as where as: "tableData c = Table (of_list as)" "distinct as" "length as \<le> max_safe"
    "\<forall>a \<in> set as. a < next_row c" "map (row_heap c) as = map todo_json ts"
    using assms(1) by (auto simp: shows_rows_def)
  have l: "length as = length ts" using as(5) by (rule map_eq_imp_length_eq)
  have a: "as ! i = a" using assms(2,3) as(1) l by (simp add: rendered_row_def elt_of_list)
  let ?h = "(row_heap c)(a := todo_json ?u)"
  have set: "set_status i (\<not> Status (ts ! i)) c = Some (c\<lparr>row_heap := ?h\<rparr>)"
    using as(1) assms(2,4) l a by (simp add: set_status.simps elt_of_list todo_json_def)
  have "map ?h as = map todo_json (ts[i := ?u])"
  proof (rule nth_equalityI)
    show "length (map ?h as) = length (map todo_json (ts[i := ?u]))" using l by simp
    fix j assume "j < length (map ?h as)"
    then have j: "j < length as" by simp
    have "as ! j = a \<longleftrightarrow> j = i" using nth_eq_iff_index_eq [OF as(2) j, of i] a l assms(2) by simp
    moreover have "row_heap c (as ! j) = todo_json (ts ! j)"
      using arg_cong [OF as(5), of "\<lambda>xs. xs ! j"] j l by simp
    ultimately show "map ?h as ! j = map todo_json (ts[i := ?u]) ! j"
      using j l by (simp add: nth_list_update)
  qed
  then have "shows_rows (c\<lparr>row_heap := ?h, toasts := x\<rparr>) (ts[i := ?u])" for x
    using as by (auto simp: shows_rows_def)
  moreover have "rendered_row (c\<lparr>row_heap := ?h, toasts := x\<rparr>) i = Some a" for x
    using assms(3) by (simp add: rendered_row_def)
  ultimately show ?thesis using set assms(4) by (simp add: Let_def)
qed

lemma delete_reply:
  assumes "shows_rows c ts"
  shows "\<exists>c'. on_reply (KDelete i) (Ok t) c = (c', []) \<and> shows_rows c' (take i ts @ drop (Suc i) ts)"
proof -
  obtain as where as: "tableData c = Table (of_list as)" "distinct as" "length as \<le> max_safe"
    "\<forall>a \<in> set as. a < next_row c" "map (row_heap c) as = map todo_json ts"
    using assms by (auto simp: shows_rows_def)
  let ?bs = "take i as @ drop (Suc i) as"
  have "splice_one i (of_list as) = of_list ?bs" using as(3) by (rule splice_one_of_list)
  moreover have "distinct ?bs" using as(2) by (simp add: set_take_disj_set_drop_if_distinct)
  moreover have "length ?bs \<le> max_safe" using as(3) by simp
  moreover have "\<forall>a \<in> set ?bs. a < next_row c" using as(4) by (auto dest: in_set_takeD in_set_dropD)
  moreover have "map (row_heap c) ?bs = map todo_json (take i ts @ drop (Suc i) ts)"
    using as(5) by (rule take_drop_map_eq)
  ultimately have "shows_rows (c\<lparr>tableData := Table (splice_one i (of_list as)), toasts := x\<rparr>)
      (take i ts @ drop (Suc i) ts)" for x
    unfolding shows_rows_def by (intro exI [of _ ?bs]) simp
  then show ?thesis using as(1) by simp
qed

lemma shows_rows_cong:
  "shows_rows c ts \<Longrightarrow> tableData c' = tableData c \<Longrightarrow> row_heap c' = row_heap c \<Longrightarrow> next_row c' = next_row c
     \<Longrightarrow> shows_rows c' ts"
  by (simp add: shows_rows_def)


lemma gesture_click:
  assumes laws: "store_laws g rows ok" and up: "store_up g rows ok" and ck: "cookie env ''XSRF-TOKEN'' = None"
    and w: "settled_world rows ok w"
    and a: "act x (page w) = Some (page w, [sent_for it])" and sch: "schedule x (page w) = [Act x, Serve 0, Deliver 0]"
    and sv: "servable it (rows (db w))" and it: "it \<noteq> AskList"
    and r: "\<And>t. \<exists>c'. on_reply (snd (sent_for it)) (Ok t) (page w) = (c', []) \<and> shows_rows c' ts"
    and e: "\<And>ts'. asked it (rows (db w)) ts' \<Longrightarrow> ts' = ts"
  shows "\<exists>w'. gesture env g x w = Some w' \<and> settled_world rows ok w' \<and> rows (db w') = ts"
proof -
  let ?w1 = "w\<lparr>flights := launch [sent_for it]\<rparr>"
  have ok: "ok (db w)" and fl: "flights w = []" using w by (simp_all add: settled_world_def)
  from deliver_round [OF laws up ck, of ?w1 it "[]"] ok sv obtain t d where
    d: "ok d" "asked it (rows (db w)) (rows d)" and
    run: "\<forall>evs. run_world env g (Serve 0 # Deliver 0 # evs) ?w1 =
      (let (c, ss) = on_reply (snd (sent_for it)) (Ok t) (page w)
       in run_world env g evs (?w1\<lparr>db := d, page := c, flights := launch ss\<rparr>))" by auto
  obtain c' where c': "on_reply (snd (sent_for it)) (Ok t) (page w) = (c', [])" "shows_rows c' ts" using r by blast
  have "step_world env g (Act x) w = Some ?w1" using a fl by simp
  then have "gesture env g x w = Some (?w1\<lparr>db := d, page := c', flights := []\<rparr>)"
    using run [THEN spec, of "[]"] c'(1) by (simp add: gesture_def sch launch_def del: step_world.simps)
  then show ?thesis using d e [OF d(2)] c'(2) by (auto simp: settled_world_def)
qed

lemma settle_list:
  assumes laws: "store_laws g rows ok" and up: "store_up g rows ok" and ck: "cookie env ''XSRF-TOKEN'' = None"
    and ok: "ok (db w)" and fl: "flights w = launch [getTodoList]"
  shows "\<exists>w'. run_world env g [Serve 0, Deliver 0] w = Some w' \<and> settled_world rows ok w' \<and> rows (db w') = rows (db w)
     \<and> newTitle (page w') = newTitle (page w)"
proof -
  have fl': "flights w = launch (sent_for AskList # [])" using fl by simp
  obtain t d where
    d: "ok d" "rows d = rows (db w)" "getv t ''data'' = Arr (map todo_json (rows (db w)))" and
    run: "\<forall>evs. run_world env g (Serve 0 # Deliver 0 # evs) w =
      (let (c, ss) = on_reply (snd (sent_for AskList)) (Ok t) (page w)
       in run_world env g evs (w\<lparr>db := d, page := c, flights := launch ss\<rparr>))"
    using deliver_round [OF laws up ck ok fl'] by auto
  let ?c = "set_table (Arr (map todo_json (rows (db w)))) (page w)"
  have "run_world env g [Serve 0, Deliver 0] w = Some (w\<lparr>db := d, page := ?c, flights := []\<rparr>)"
    using run [THEN spec, of "[]"] d(3) by (simp add: getTodoList_def launch_def del: set_table.simps)
  moreover have "shows_rows ?c (rows (db w))"
    using store_lawsD(2) [OF laws ok] by (intro list_shows) (simp add: max_safe_limit)
  ultimately show ?thesis using d by (auto simp: settled_world_def split: prod.splits)
qed

lemma gesture_settles:
  assumes laws: "store_laws g rows ok" and up: "store_up g rows ok" and ck: "cookie env ''XSRF-TOKEN'' = None"
    and w: "settled_world rows ok w" and range: "in_range x (length (rows (db w)))"
    and room: "length (rows (db w)) < table_limit"
  shows "\<exists>w'. gesture env g x w = Some w' \<and> settled_world rows ok w'
     \<and> expected x (newTitle (page w)) (rows (db w)) (rows (db w'))"
proof (cases x)
  case (TypeTitle y)
  then show ?thesis using w shows_rows_cong
    by (force simp: gesture_def settled_world_def launch_def)
next
  case ClickAdd
  show ?thesis
  proof (cases "newTitle (page w) = []")
    case True
    then show ?thesis using ClickAdd w shows_rows_cong
      by (force simp: gesture_def settled_world_def launch_def handleAdd_def)
  next
    case False
    let ?it = "AskAdd (newTitle (page w))" and ?c = "page w\<lparr>newTitle := []\<rparr>"
    let ?w1 = "w\<lparr>page := ?c, flights := launch [sent_for ?it]\<rparr>"
    have ok: "ok (db w)" and fl: "flights w = []" using w by (simp_all add: settled_world_def)
    from deliver_round [OF laws up ck, of ?w1 ?it "[]"] ok room obtain t d where
      d: "ok d" "asked ?it (rows (db w)) (rows d)" and
      run: "\<forall>evs. run_world env g (Serve 0 # Deliver 0 # evs) ?w1 =
        (let (c, ss) = on_reply KAdd (Ok t) ?c
         in run_world env g evs (?w1\<lparr>db := d, page := c, flights := launch ss\<rparr>))" by auto
    let ?w2 = "?w1\<lparr>db := d, page := ?c\<lparr>toasts := toasts ?c @ [Added]\<rparr>, flights := launch [getTodoList]\<rparr>"
    have "step_world env g (Act ClickAdd) w = Some ?w1" using fl False by (simp add: handleAdd_def)
    then have g: "gesture env g x w = run_world env g [Serve 0, Deliver 0] ?w2"
      using run [THEN spec, of "[Serve 0, Deliver 0]"] False ClickAdd
      by (simp add: gesture_def del: step_world.simps)
    obtain w' where w': "run_world env g [Serve 0, Deliver 0] ?w2 = Some w'" "settled_world rows ok w'"
      "rows (db w') = rows d"
      using settle_list [OF laws up ck, of ?w2] d(1) by (auto simp del: run_world.simps)
    have "expected x (newTitle (page w)) (rows (db w)) (rows d)" using d(2) ClickAdd False by auto
    with g w' show ?thesis by metis
  qed
next
  case (ClickEdit i)
  let ?ts = "rows (db w)"
  have i: "i < length ?ts" using range ClickEdit by (simp add: in_range_def)
  have s: "shows_rows (page w) ?ts" and ok: "ok (db w)" using w by (simp_all add: settled_world_def)
  obtain a where a: "rendered_row (page w) i = Some a" "row_heap (page w) a = todo_json (?ts ! i)"
    using shown_row [OF s i] by blast
  let ?it = "AskEdit i a (ID (?ts ! i)) (\<not> Status (?ts ! i))"
  let ?ts' = "?ts[i := (?ts ! i)\<lparr>Status := \<not> Status (?ts ! i)\<rparr>]"
  have "\<exists>w'. gesture env g x w = Some w' \<and> settled_world rows ok w' \<and> rows (db w') = ?ts'"
  proof (rule gesture_click [OF laws up ck w, where it = ?it])
    show "act x (page w) = Some (page w, [sent_for ?it])"
      using a by (simp only: ClickEdit act.simps edit_intent [OF a(2)] option.map)
    show "schedule x (page w) = [Act x, Serve 0, Deliver 0]" using ClickEdit by simp
    show "servable ?it ?ts" using i by (simp add: ids_def)
    show "\<exists>c'. on_reply (snd (sent_for ?it)) (Ok t) (page w) = (c', []) \<and> shows_rows c' ?ts'" for t
      using edit_reply [OF s i a, of "\<not> Status (?ts ! i)" t] unfolding sent_for.simps snd_conv by blast
    show "ts' = ?ts'" if "asked ?it ?ts ts'" for ts'
    proof -
      from that obtain t where t: "t \<in> set ?ts" "ID t = ID (?ts ! i)"
        "ts' = replace_row (t\<lparr>Status := \<not> Status (?ts ! i)\<rparr>) ?ts" by auto
      have ds: "distinct (ids ?ts)" by (rule store_lawsD(1) [OF laws ok])
      then have "t = ?ts ! i" using t(1,2) i by (auto simp: ids_def distinct_map inj_on_def)
      then show ?thesis using t(3) replace_nth [OF ds i] by simp
    qed
  qed simp
  then show ?thesis using ClickEdit by auto
next
  case (ClickDelete i)
  let ?ts = "rows (db w)"
  have i: "i < length ?ts" using range ClickDelete by (simp add: in_range_def)
  have s: "shows_rows (page w) ?ts" and ok: "ok (db w)" using w by (simp_all add: settled_world_def)
  obtain a where a: "rendered_row (page w) i = Some a" "row_heap (page w) a = todo_json (?ts ! i)"
    using shown_row [OF s i] by blast
  let ?it = "AskDelete i (ID (?ts ! i))"
  have "\<exists>w'. gesture env g x w = Some w' \<and> settled_world rows ok w' \<and> rows (db w') = take i ?ts @ drop (Suc i) ?ts"
  proof (rule gesture_click [OF laws up ck w, where it = ?it])
    show "act x (page w) = Some (page w, [sent_for ?it])"
      using a by (simp only: ClickDelete act.simps todo_json_get delete_intent option.map)
    show "schedule x (page w) = [Act x, Serve 0, Deliver 0]" using ClickDelete by simp
    show "servable ?it ?ts" by simp
    show "\<exists>c'. on_reply (snd (sent_for ?it)) (Ok t) (page w) = (c', []) \<and> shows_rows c' (take i ?ts @ drop (Suc i) ?ts)" for t
      using delete_reply [OF s, of i t] by (simp only: sent_for.simps snd_conv)
    show "ts' = take i ?ts @ drop (Suc i) ?ts" if "asked ?it ?ts ts'" for ts'
      using that remove_nth [OF store_lawsD(1) [OF laws ok] i] by simp
  qed simp
  then show ?thesis using ClickDelete by auto
qed


text \<open>Opening the page, then any gestures, each settling before the next.\<close>

fun session :: "environment \<Rightarrow> 'd store \<Rightarrow> action list \<Rightarrow> 'd world \<Rightarrow> 'd world option" where
  "session env g [] w = Some w"
| "session env g (x # xs) w = Option.bind (gesture env g x w) (session env g xs)"

text \<open>What the user sees of a session: the title in the input field, and the list, gesture by
  gesture. A row can be clicked when the list has it.\<close>

definition title_after :: "action \<Rightarrow> string \<Rightarrow> string" where
  "title_after x s = (case x of TypeTitle t \<Rightarrow> t | ClickAdd \<Rightarrow> [] | _ \<Rightarrow> s)"

definition length_after :: "action \<Rightarrow> string \<Rightarrow> nat \<Rightarrow> nat" where
  "length_after x s n = (case x of ClickAdd \<Rightarrow> if s = [] then n else Suc n | ClickDelete i \<Rightarrow> n - 1 | _ \<Rightarrow> n)"

fun clickable :: "action list \<Rightarrow> string \<Rightarrow> nat \<Rightarrow> bool" where
  "clickable [] s n = True"
| "clickable (x # xs) s n = (in_range x n \<and> clickable xs (title_after x s) (length_after x s n))"

fun transcript :: "action list \<Rightarrow> string \<Rightarrow> todo list \<Rightarrow> todo list \<Rightarrow> bool" where
  "transcript [] s ts ts' = (ts' = ts)"
| "transcript (x # xs) s ts ts' = (\<exists>us. expected x s ts us \<and> transcript xs (title_after x s) us ts')"

lemma set_table_title: "newTitle (set_table v c) = newTitle c"
  by (cases v) (simp_all add: Let_def split: prod.split)

lemma set_status_title: "set_status e b c = Some c' \<Longrightarrow> newTitle c' = newTitle c"
  by (auto simp: set_status.simps split: table.splits option.splits jv.splits)

lemma on_reply_title: "newTitle (fst (on_reply k r c)) = newTitle c"
  by (cases "(k, r, c)" rule: on_reply.cases)
     (auto simp: set_table_title reject_unhandled_def Let_def dest: set_status_title split: option.splits table.splits)

lemma act_title: "act x c = Some (c', s) \<Longrightarrow> newTitle c' = title_after x (newTitle c)"
  by (cases x) (auto simp: title_after_def handleAdd_def split: if_splits)

lemma step_title:
  assumes "step_world env g ev w = Some w'"
  shows "newTitle (page w') = (case ev of Act x \<Rightarrow> title_after x (newTitle (page w)) | _ \<Rightarrow> newTitle (page w))"
proof -
  have "settle_flight env k evs w = Some w' \<Longrightarrow> newTitle (page w') = newTitle (page w)" for k evs
    using on_reply_title by (auto simp: settle_flight_def Let_def split: option.splits prod.splits) (metis fst_conv)
  with assms show ?thesis
    by (cases ev) (auto simp: Let_def dest: act_title split: if_splits option.splits prod.splits phase.splits)
qed

lemma gesture_title:
  assumes "gesture env g x w = Some w'"
  shows "newTitle (page w') = title_after x (newTitle (page w))"
  using assms
  by (cases x) (auto simp: gesture_def simp del: step_world.simps dest!: step_title split: if_splits bind_splits)

lemma run_title:
  assumes "run_world env g [Serve i, Deliver j] w = Some w'"
  shows "newTitle (page w') = newTitle (page w)"
  using assms by (auto simp del: step_world.simps dest!: step_title split: bind_splits)

lemma expected_length:
  "expected x s ts ts' \<Longrightarrow> in_range x (length ts) \<Longrightarrow> length ts' = length_after x s (length ts)"
  by (cases x) (auto simp: length_after_def in_range_def split: if_splits)

lemma length_after_le: "length_after x s n \<le> Suc n"
  by (cases x) (auto simp: length_after_def)

lemma session_settles:
  assumes laws: "store_laws g rows ok" and up: "store_up g rows ok" and ck: "cookie env ''XSRF-TOKEN'' = None"
    and w: "settled_world rows ok w" and room: "length (rows (db w)) + length xs \<le> table_limit"
    and can: "clickable xs (newTitle (page w)) (length (rows (db w)))"
  shows "\<exists>w'. session env g xs w = Some w' \<and> settled_world rows ok w'
    \<and> transcript xs (newTitle (page w)) (rows (db w)) (rows (db w'))"
  using w room can
proof (induction xs arbitrary: w)
  case Nil
  then show ?case by simp
next
  case (Cons x xs)
  have x: "in_range x (length (rows (db w)))" "length (rows (db w)) < table_limit" using Cons.prems by simp_all
  obtain w1 where w1: "gesture env g x w = Some w1" "settled_world rows ok w1"
    "expected x (newTitle (page w)) (rows (db w)) (rows (db w1))"
    using gesture_settles [OF laws up ck Cons.prems(1) x] by blast
  have t: "newTitle (page w1) = title_after x (newTitle (page w))" by (rule gesture_title [OF w1(1)])
  have l: "length (rows (db w1)) = length_after x (newTitle (page w)) (length (rows (db w)))"
    by (rule expected_length [OF w1(3) x(1)])
  have "length (rows (db w1)) + length xs \<le> table_limit"
    using Cons.prems(2) length_after_le [of x "newTitle (page w)" "length (rows (db w))"] l by simp
  from Cons.IH [OF w1(2) this] Cons.prems(3) t l w1 show ?case by auto
qed

section \<open>The database under any interleaving\<close>

text \<open>Only serving a request touches the database, and then as its intent asks, or not at all with
  an error.\<close>

lemma step_world_db:
  assumes laws: "store_laws g rows ok" and ck: "cookie env ''XSRF-TOKEN'' = None"
    and w: "world_ok ok w" and st: "step_world env g ev w = Some w'"
  shows "case ev of
      Serve k \<Rightarrow> \<exists>it. (fl_config (flights w ! k), fl_then (flights w ! k)) = sent_for it
        \<and> (db w' = db w \<or> asked it (rows (db w)) (rows (db w')))
    | _ \<Rightarrow> db w' = db w"
proof (cases ev)
  case (Serve k)
  let ?f = "flights w ! k"
  have k: "k < length (flights w)" using st Serve by (auto split: if_splits)
  have "flight_ok (page w) ?f" using w k by (simp add: world_ok_def)
  then obtain it where it: "(fl_config ?f, fl_then ?f) = sent_for it" by (auto simp: flight_ok_def)
  have q: "wire_request env (fl_config ?f) = Some (request_for it)"
    using wire_intent [OF ck, of it] it [symmetric] by simp
  obtain r d where s: "serve g (rq_method (request_for it)) (rq_url (request_for it)) (rq_body (request_for it)) (db w)
      = (r, d)" by fastforce
  then have "db w' = d" using st Serve q by (auto split: if_splits)
  then show ?thesis using serve_intent [OF laws _ s] w it Serve by (auto simp: world_ok_def)
qed (use st in \<open>auto simp: settle_flight_def Let_def split: if_splits phase.splits option.splits prod.splits\<close>)

end
