(* ===== verification/TodoRaces.thy ===== *)
theory TodoRaces
  imports TodoSystem
begin

text \<open>
  What the page of \<open>app.007f9690.js\<close> shows when gestures overlap or the server refuses: two
  clicks whose requests are both in flight, and an error the server reports with status 200.
  The database always ends as asked; the page does not always show it.
\<close>

section \<open>Overlapping requests\<close>

lemma row_by_id:
  "distinct (ids ts) \<Longrightarrow> i < length ts \<Longrightarrow> t \<in> set ts \<Longrightarrow> ID t = ID (ts ! i) \<Longrightarrow> t = ts ! i"
  by (simp add: ids_def distinct_map inj_on_def)

lemma click_edit:
  assumes w: "settled_world rows ok w" and i: "i < length (rows (db w))"
  shows "\<exists>a. act (ClickEdit i) (page w)
      = Some (page w, [sent_for (AskEdit i a (ID (rows (db w) ! i)) (\<not> Status (rows (db w) ! i)))])
    \<and> rendered_row (page w) i = Some a \<and> row_heap (page w) a = todo_json (rows (db w) ! i)"
proof -
  have s: "shows_rows (page w) (rows (db w))" using w by (simp add: settled_world_def)
  obtain a where a: "rendered_row (page w) i = Some a" "row_heap (page w) a = todo_json (rows (db w) ! i)"
    using shown_row [OF s i] by blast
  then show ?thesis by (simp only: act.simps edit_intent [OF a(2)] option.map) blast
qed

lemma click_delete:
  assumes w: "settled_world rows ok w" and i: "i < length (rows (db w))"
  shows "act (ClickDelete i) (page w) = Some (page w, [sent_for (AskDelete i (ID (rows (db w) ! i)))])"
proof -
  have s: "shows_rows (page w) (rows (db w))" using w by (simp add: settled_world_def)
  obtain a where a: "rendered_row (page w) i = Some a" "row_heap (page w) a = todo_json (rows (db w) ! i)"
    using shown_row [OF s i] by blast
  then show ?thesis by (simp only: act.simps todo_json_get delete_intent option.map)
qed

text \<open>Two clicks before any reply, then both requests are handled and answered in order.\<close>

definition overlap :: "action \<Rightarrow> action \<Rightarrow> event list" where
  "overlap x y = [Act x, Act y, Serve 0, Deliver 0, Serve 0, Deliver 0]"

lemma run_overlap:
  assumes laws: "store_laws g rows ok" and up: "store_up g rows ok" and ck: "cookie env ''XSRF-TOKEN'' = None"
    and w: "settled_world rows ok w"
    and x: "act x (page w) = Some (page w, [sent_for it])" and y: "act y (page w) = Some (page w, [sent_for it2])"
    and sv: "servable it (rows (db w))" and n: "it \<noteq> AskList" "it2 \<noteq> AskList"
    and sv2: "\<And>us. asked it (rows (db w)) us \<Longrightarrow> servable it2 us"
    and r: "\<And>t. \<exists>c1. on_reply (snd (sent_for it)) (Ok t) (page w) = (c1, []) \<and> P c1"
    and r2: "\<And>c1 t. P c1 \<Longrightarrow> \<exists>c2. on_reply (snd (sent_for it2)) (Ok t) c1 = (c2, []) \<and> Q c2"
  shows "\<exists>w' us. run_world env g (overlap x y) w = Some w' \<and> asked it (rows (db w)) us
     \<and> asked it2 us (rows (db w')) \<and> flights w' = [] \<and> Q (page w')"
proof -
  let ?w1 = "w\<lparr>flights := launch [sent_for it, sent_for it2]\<rparr>"
  have ok: "ok (db w)" and fl: "flights w = []" using w by (simp_all add: settled_world_def)
  from deliver_round [OF laws up ck, of ?w1 it "[sent_for it2]"] ok sv obtain t d where
    d: "ok d" "asked it (rows (db w)) (rows d)" and
    run: "\<forall>evs. run_world env g (Serve 0 # Deliver 0 # evs) ?w1 =
      (let (c, ss) = on_reply (snd (sent_for it)) (Ok t) (page w)
       in run_world env g evs (?w1\<lparr>db := d, page := c, flights := launch (sent_for it2 # ss)\<rparr>))" by auto
  obtain c1 where c1: "on_reply (snd (sent_for it)) (Ok t) (page w) = (c1, [])" "P c1" using r by blast
  let ?w2 = "?w1\<lparr>db := d, page := c1, flights := launch [sent_for it2]\<rparr>"
  from deliver_round [OF laws up ck, of ?w2 it2 "[]"] d(1) sv2 [OF d(2)] obtain t2 d2 where
    d2: "asked it2 (rows d) (rows d2)" and
    run2: "\<forall>evs. run_world env g (Serve 0 # Deliver 0 # evs) ?w2 =
      (let (c, ss) = on_reply (snd (sent_for it2)) (Ok t2) c1
       in run_world env g evs (?w2\<lparr>db := d2, page := c, flights := launch ss\<rparr>))" by auto
  obtain c2 where c2: "on_reply (snd (sent_for it2)) (Ok t2) c1 = (c2, [])" "Q c2" using r2 [OF c1(2)] by blast
  have "run_world env g (overlap x y) w = run_world env g [Serve 0, Deliver 0, Serve 0, Deliver 0] ?w1"
    using x y fl by (simp add: overlap_def launch_def del: step_world.simps(2-4))
  also have "\<dots> = run_world env g [Serve 0, Deliver 0] ?w2"
    using run [THEN spec, of "[Serve 0, Deliver 0]"] c1(1) by simp
  also have "\<dots> = Some (?w2\<lparr>db := d2, page := c2, flights := []\<rparr>)"
    using run2 [THEN spec, of "[]"] c2(1) by (simp add: launch_def del: step_world.simps)
  finally show ?thesis using d(2) d2 c2(2) by auto
qed

text \<open>Clicking the same row's button twice: the database is set once, the page is toggled twice.\<close>

lemma double_edit:
  assumes laws: "store_laws g rows ok" and up: "store_up g rows ok" and ck: "cookie env ''XSRF-TOKEN'' = None"
    and w: "settled_world rows ok w" and i: "i < length (rows (db w))"
  shows "\<exists>w'. run_world env g (overlap (ClickEdit i) (ClickEdit i)) w = Some w' \<and> flights w' = []
     \<and> rows (db w') = (rows (db w))[i := (rows (db w) ! i)\<lparr>Status := \<not> Status (rows (db w) ! i)\<rparr>]
     \<and> shows_rows (page w') (rows (db w))"
proof -
  let ?ts = "rows (db w)" and ?b = "\<not> Status (rows (db w) ! i)"
  let ?ts' = "?ts[i := (?ts ! i)\<lparr>Status := ?b\<rparr>]"
  obtain a where act: "act (ClickEdit i) (page w) = Some (page w, [sent_for (AskEdit i a (ID (?ts ! i)) ?b)])"
    and a: "rendered_row (page w) i = Some a" "row_heap (page w) a = todo_json (?ts ! i)"
    using click_edit [OF w i] by blast
  have s: "shows_rows (page w) ?ts" and ok: "ok (db w)" using w by (simp_all add: settled_world_def)
  have ds: "distinct (ids ?ts)" by (rule store_lawsD(1) [OF laws ok])
  have asked1: "us = ?ts'" if "asked (AskEdit i a (ID (?ts ! i)) ?b) ?ts us" for us
  proof -
    from that obtain t where t: "t \<in> set ?ts" "ID t = ID (?ts ! i)" "us = replace_row (t\<lparr>Status := ?b\<rparr>) ?ts" by auto
    then have "t = ?ts ! i" using row_by_id [OF ds i] by blast
    then show ?thesis using t(3) replace_nth [OF ds i] by simp
  qed
  have ds': "distinct (ids ?ts')" and idi: "ID (?ts' ! i) = ID (?ts ! i)"
    using ds i replace_row_ids [of "(?ts ! i)\<lparr>Status := ?b\<rparr>" ?ts]
    by (simp_all add: replace_nth [OF ds i])
  have asked2: "us = ?ts'" if "asked (AskEdit i a (ID (?ts ! i)) ?b) ?ts' us" for us
  proof -
    from that obtain t where t: "t \<in> set ?ts'" "ID t = ID (?ts ! i)" "us = replace_row (t\<lparr>Status := ?b\<rparr>) ?ts'" by auto
    then have "t = ?ts' ! i" using row_by_id [OF ds', of i t] i idi by (simp del: nth_list_update_eq)
    then show ?thesis using t(3) replace_nth [OF ds', of i] i by simp
  qed
  let ?P = "\<lambda>c. shows_rows c ?ts' \<and> rendered_row c i = Some a \<and> row_heap c a = todo_json (?ts' ! i)"
  have first: "\<exists>c1. on_reply (snd (sent_for (AskEdit i a (ID (?ts ! i)) ?b))) (Ok t) (page w) = (c1, []) \<and> ?P c1" for t
    using edit_reply [OF s i a, of ?b t] i unfolding sent_for.simps snd_conv by auto
  have twice: "?ts'[i := (?ts' ! i)\<lparr>Status := \<not> Status (?ts' ! i)\<rparr>] = ?ts" using i by simp
  have second: "\<exists>c2. on_reply (snd (sent_for (AskEdit i a (ID (?ts ! i)) ?b))) (Ok t) c1 = (c2, []) \<and> shows_rows c2 ?ts"
    if "?P c1" for c1 t
    using edit_reply [of c1 ?ts' i a ?b t] that i unfolding sent_for.simps snd_conv twice by auto
  have sv: "servable (AskEdit i a (ID (?ts ! i)) ?b) ?ts" using i by (simp add: ids_def)
  have sv2: "servable (AskEdit i a (ID (?ts ! i)) ?b) us" if "asked (AskEdit i a (ID (?ts ! i)) ?b) ?ts us" for us
    using asked1 [OF that] sv replace_nth [OF ds i, of "(?ts ! i)\<lparr>Status := ?b\<rparr>"]
      replace_row_ids [of "(?ts ! i)\<lparr>Status := ?b\<rparr>" ?ts] by simp
  obtain w' us where "run_world env g (overlap (ClickEdit i) (ClickEdit i)) w = Some w'"
    "asked (AskEdit i a (ID (?ts ! i)) ?b) ?ts us" "asked (AskEdit i a (ID (?ts ! i)) ?b) us (rows (db w'))"
    "flights w' = []" "shows_rows (page w') ?ts"
    using run_overlap [OF laws up ck w act act sv _ _ sv2, where P = ?P and Q = "\<lambda>c. shows_rows c ?ts"]
      first second by auto
  then show ?thesis using asked1 asked2 by auto
qed

text \<open>Deleting two rows: the page drops the second row by an index that the first reply moved.\<close>

lemma double_delete:
  assumes laws: "store_laws g rows ok" and up: "store_up g rows ok" and ck: "cookie env ''XSRF-TOKEN'' = None"
    and w: "settled_world rows ok w" and ij: "i < j" "j < length (rows (db w))"
  shows "\<exists>w'. run_world env g (overlap (ClickDelete i) (ClickDelete j)) w = Some w' \<and> flights w' = []
     \<and> rows (db w') = remove_row_id (ID (rows (db w) ! j)) (remove_row_id (ID (rows (db w) ! i)) (rows (db w)))
     \<and> shows_rows (page w')
          (let us = take i (rows (db w)) @ drop (Suc i) (rows (db w)) in take j us @ drop (Suc j) us)"
proof -
  let ?ts = "rows (db w)"
  let ?us = "take i ?ts @ drop (Suc i) ?ts"
  let ?a = "AskDelete i (ID (?ts ! i))" and ?b = "AskDelete j (ID (?ts ! j))"
  have s: "shows_rows (page w) ?ts" using w by (simp add: settled_world_def)
  have i: "i < length ?ts" using ij by simp
  have first: "\<exists>c1. on_reply (snd (sent_for ?a)) (Ok t) (page w) = (c1, []) \<and> shows_rows c1 ?us" for t
    using delete_reply [OF s, of i t] unfolding sent_for.simps snd_conv .
  have second: "\<exists>c2. on_reply (snd (sent_for ?b)) (Ok t) c1 = (c2, []) \<and> shows_rows c2 (take j ?us @ drop (Suc j) ?us)"
    if "shows_rows c1 ?us" for c1 t
    using delete_reply [OF that, of j t] unfolding sent_for.simps snd_conv .
  obtain w' us where "run_world env g (overlap (ClickDelete i) (ClickDelete j)) w = Some w'"
    "asked ?a ?ts us" "asked ?b us (rows (db w'))" "flights w' = []"
    "shows_rows (page w') (take j ?us @ drop (Suc j) ?us)"
    using run_overlap [OF laws up ck w click_delete [OF w i] click_delete [OF w ij(2)], where
        P = "\<lambda>c. shows_rows c ?us" and Q = "\<lambda>c. shows_rows c (take j ?us @ drop (Suc j) ?us)"]
      first second by auto
  then show ?thesis by (auto simp: Let_def)
qed

lemma shows_rows_unique: "shows_rows c ts \<Longrightarrow> shows_rows c us \<Longrightarrow> ts = us"
proof -
  assume "shows_rows c ts" and "shows_rows c us"
  then obtain as bs where "tableData c = Table (of_list as)" "map (row_heap c) as = map todo_json ts"
    "tableData c = Table (of_list bs)" "map (row_heap c) bs = map todo_json us"
    by (auto simp: shows_rows_def)
  moreover from this have "as = bs" by (metis table.inject(1) to_of_list)
  ultimately have "map todo_json ts = map todo_json us" by simp
  then show "ts = us" using todo_json_inj by (metis inj_onI inj_on_mapI map_injective)
qed

text \<open>So the page still shows the row that is gone, and misses its successor, when there is one.\<close>

lemma double_delete_differs:
  assumes d: "distinct (ids ts)" and ij: "i < j" "Suc j < length ts"
  shows "(let us = take i ts @ drop (Suc i) ts in take j us @ drop (Suc j) us)
    \<noteq> remove_row_id (ID (ts ! j)) (remove_row_id (ID (ts ! i)) ts)"
proof -
  let ?us = "take i ts @ drop (Suc i) ts"
  have "?us ! (j - 1) = ts ! j" using ij by (simp add: nth_append min_def)
  moreover have "j - 1 < j" "j - 1 < length ?us" using ij by auto
  ultimately have "take j ?us ! (j - 1) = ts ! j" and "j - 1 < length (take j ?us)" by (simp_all del: take_append)
  then have "ts ! j \<in> set (take j ?us)" by (metis nth_mem)
  then have "ts ! j \<in> set (let us = ?us in take j us @ drop (Suc j) us)"
    unfolding Let_def set_append by (rule UnI1)
  moreover have "ts ! j \<notin> set (remove_row_id (ID (ts ! j)) (remove_row_id (ID (ts ! i)) ts))"
    by (simp add: remove_row_id_def)
  ultimately show ?thesis by metis
qed


section \<open>Errors reported with status 200\<close>

text \<open>The database refuses to save: the page marks the row all the same and says so.\<close>

lemma soft_error_edit:
  assumes ck: "cookie env ''XSRF-TOKEN'' = None"
    and w: "settled_world rows ok w" and i: "i < length (rows (db w))"
    and fail: "\<And>t d. db_save g t d = Inl e"
  shows "\<exists>w'. gesture env g (ClickEdit i) w = Some w' \<and> flights w' = [] \<and> db w' = db w
     \<and> shows_rows (page w') ((rows (db w))[i := (rows (db w) ! i)\<lparr>Status := \<not> Status (rows (db w) ! i)\<rparr>])"
proof -
  let ?ts = "rows (db w)" and ?b = "\<not> Status (rows (db w) ! i)"
  obtain a where act: "act (ClickEdit i) (page w) = Some (page w, [sent_for (AskEdit i a (ID (?ts ! i)) ?b)])"
    and a: "rendered_row (page w) i = Some a" "row_heap (page w) a = todo_json (?ts ! i)"
    using click_edit [OF w i] by blast
  let ?it = "AskEdit i a (ID (?ts ! i)) ?b" and ?w1 = "w\<lparr>flights := launch [sent_for (AskEdit i a (ID (?ts ! i)) ?b)]\<rparr>"
  have s: "shows_rows (page w) ?ts" and ok: "ok (db w)" and fl: "flights w = []"
    using w by (simp_all add: settled_world_def)
  have "\<exists>r. put_todo g (Some (show_int (ID (?ts ! i)))) (Some (json_text (Obj [(''status'', Bool ?b)]))) (db w)
      = (r, db w) \<and> reply_status r = 200"
    using fail by (auto simp: put_todo_def bind_status_body status_200 Let_def simp del: json_text.simps split: sum.splits)
  then obtain r where r: "reply_status r = 200" and
    srv: "serve g (rq_method (request_for ?it)) (rq_url (request_for ?it)) (rq_body (request_for ?it)) (db w) = (r, db w)"
    unfolding request_for.simps http_request.select_convs serve_item by auto
  have fl1: "flights ?w1 = launch (sent_for ?it # [])" by simp
  have srv1: "serve g (rq_method (request_for ?it)) (rq_url (request_for ?it)) (rq_body (request_for ?it)) (db ?w1)
      = (r, db w)" using srv by simp
  obtain t where run: "\<forall>evs. run_world env g (Serve 0 # Deliver 0 # evs) ?w1 =
      (let (c, ss) = on_reply (snd (sent_for ?it)) (Ok t) (page ?w1)
       in run_world env g evs (?w1\<lparr>db := db w, page := c, flights := launch ([] @ ss)\<rparr>))"
    using deliver_first [OF ck fl1 srv1 r] by blast
  obtain c where c: "on_reply (snd (sent_for ?it)) (Ok t) (page w) = (c, [])"
    "shows_rows c (?ts[i := (?ts ! i)\<lparr>Status := ?b\<rparr>])"
    using edit_reply [OF s i a, of ?b t] unfolding sent_for.simps snd_conv by blast
  have "step_world env g (Act (ClickEdit i)) w = Some ?w1"
    unfolding step_world.simps(1) act using fl by (simp del: sent_for.simps)
  then have "gesture env g (ClickEdit i) w = Some (?w1\<lparr>db := db w, page := c, flights := []\<rparr>)"
    using run [THEN spec, of "[]"] c(1)
    by (simp add: gesture_def launch_def del: step_world.simps sent_for.simps)
  then show ?thesis using c(2) by auto
qed

text \<open>The list request refused: the table becomes the error object, no row is rendered, and no
  gesture on rows remains.\<close>

lemma soft_error_list:
  assumes "cookie env ''XSRF-TOKEN'' = None" and "db_find g d = Inl e"
  shows "\<exists>w'. run_world env g [Serve 0, Deliver 0] (open_page d) = Some w'
     \<and> tableData (page w') = NotArray (error_json e) \<and> (\<forall>i. rendered_row (page w') i = None)
     \<and> toasts (page w') = []"
proof -
  let ?r = "write_json 200 (error_json e) no_reply"
  have srv: "serve g (rq_method (request_for AskList)) (rq_url (request_for AskList)) (rq_body (request_for AskList))
      (db (open_page d)) = (?r, d)"
    using assms(2) by (simp add: serve_list get_todos_def open_page_def)
  have fl: "flights (open_page d) = launch (sent_for AskList # [])" by (simp add: open_page_def)
  obtain t where t: "getv t ''data'' = default_transform_response (Str (reply_text ?r))" and
    run: "\<forall>evs. run_world env g (Serve 0 # Deliver 0 # evs) (open_page d) =
      (let (c, ss) = on_reply (snd (sent_for AskList)) (Ok t) (page (open_page d))
       in run_world env g evs ((open_page d)\<lparr>db := d, page := c, flights := launch ([] @ ss)\<rparr>))"
    using deliver_first [OF assms(1) fl srv status_200] by blast
  have "json_value (error_json e)" by (simp add: error_json_def)
  then have d: "getv t ''data'' = error_json e"
    using t json_parse_stringify [of "error_json e"] by (simp add: reply_text_def write_json_def no_reply_def del: json_text.simps)
  show ?thesis
    using run [THEN spec, of "[]"] d
    by (simp add: getTodoList_def launch_def error_json_def rendered_row_def open_page_def init_client_def
        del: step_world.simps)
qed

end
