(* ===== verification/Webpack.thy ===== *)
theory Webpack
  imports Prelude
begin

text \<open>
  The module loader at the head of \<open>src/bubble/static/js/app.007f9690.js\<close>: the module table, the
  module cache and \<open>require\<close> (\<open>s\<close>), the table of chunks, the list of deferred entries with
  \<open>checkDeferredModules\<close> (\<open>n\<close>), \<open>webpackJsonpCallback\<close> (\<open>t\<close>), and the two script files of the
  page, which may run in either order. A module's body is a list of instructions: the modules it
  requires, in order, an observable effect, or an exception; what a module exports is not
  modelled.
\<close>

section \<open>State\<close>

datatype instr = Req string | Effect nat | Raise

type_synonym modules = "(string \<times> instr list) list"

text \<open>The cache \<open>o\<close> maps an identifier to the flag \<open>l\<close> of its module object. A chunk in \<open>r\<close> is
  installed (\<open>0\<close>) or waits with the resolver of a pending load. \<open>entered\<close> and \<open>effects\<close> log what
  ran, latest last.\<close>

datatype chunk_state = Installed | Pending nat

record runtime =
  mods :: "string \<rightharpoonup> instr list"
  cache :: "string \<rightharpoonup> bool"
  chunks :: "string \<rightharpoonup> chunk_state"
  deferred :: "string list list"
  entered :: "string list"
  effects :: "nat list"
  resolved :: "nat list"

datatype outcome = Fine | Threw | NoFuel

section \<open>Require\<close>

fun run_body :: "(string \<Rightarrow> runtime \<Rightarrow> outcome \<times> runtime) \<Rightarrow> instr list \<Rightarrow> runtime \<Rightarrow> outcome \<times> runtime" where
  "run_body rq [] st = (Fine, st)"
| "run_body rq (Req m # is) st = (case rq m st of (Fine, st') \<Rightarrow> run_body rq is st' | x \<Rightarrow> x)"
| "run_body rq (Effect k # is) st = run_body rq is (st\<lparr>effects := effects st @ [k]\<rparr>)"
| "run_body rq (Raise # is) st = (Threw, st)"

text \<open>\<open>s(t)\<close>. The module object enters the cache before the body runs; a body that throws, or a
  missing one, leaves it there.\<close>

primrec require :: "nat \<Rightarrow> string \<Rightarrow> runtime \<Rightarrow> outcome \<times> runtime" where
  "require 0 t st = (NoFuel, st)"
| "require (Suc n) t st =
     (if cache st t \<noteq> None then (Fine, st)
      else
        let st1 = st\<lparr>cache := (cache st)(t \<mapsto> False)\<rparr> in
        (case mods st t of
           None \<Rightarrow> (Threw, st1)
         | Some body \<Rightarrow>
             (case run_body (require n) body (st1\<lparr>entered := entered st1 @ [t]\<rparr>) of
                (Fine, st2) \<Rightarrow> (Fine, st2\<lparr>cache := (cache st2)(t \<mapsto> True)\<rparr>)
              | x \<Rightarrow> x)))"

text \<open>The nesting of calls is bounded by the modules not yet in the cache.\<close>

definition uncached :: "runtime \<Rightarrow> string set" where
  "uncached st = dom (mods st) - dom (cache st)"

definition enough :: "runtime \<Rightarrow> nat" where
  "enough st = Suc (card (uncached st))"

text \<open>What a call keeps: module table, chunks and deferred entries; the cache only grows; the
  modules entered are the known ones in the cache, each once.\<close>

definition runs_to :: "runtime \<Rightarrow> runtime \<Rightarrow> bool" where
  "runs_to st st' \<longleftrightarrow>
     mods st' = mods st \<and> chunks st' = chunks st \<and> deferred st' = deferred st \<and>
     dom (cache st) \<subseteq> dom (cache st')"

definition once :: "runtime \<Rightarrow> bool" where
  "once st \<longleftrightarrow> distinct (entered st) \<and> set (entered st) = dom (mods st) \<inter> dom (cache st)"

lemma runs_to_refl [simp]: "runs_to st st"
  by (simp add: runs_to_def)

lemma runs_to_trans: "runs_to a b \<Longrightarrow> runs_to b c \<Longrightarrow> runs_to a c"
  by (auto simp: runs_to_def)

lemma run_body_keeps:
  assumes rq: "\<And>m st r st'. rq m st = (r, st') \<Longrightarrow> runs_to st st' \<and> (once st \<longrightarrow> once st')"
    and "run_body rq is st = (r, st')"
  shows "runs_to st st' \<and> (once st \<longrightarrow> once st')"
  using assms(2)
proof (induction "is" arbitrary: st)
  case Nil
  then show ?case by simp
next
  case (Cons i "is")
  show ?case
  proof (cases i)
    case (Req m)
    obtain x st1 where q: "rq m st = (x, st1)" by fastforce
    note k = rq [OF q]
    show ?thesis
    proof (cases x)
      case Fine
      then have "run_body rq is st1 = (r, st')" using Cons.prems Req q by simp
      from Cons.IH [OF this] k show ?thesis using runs_to_trans by blast
    qed (use Cons.prems Req q k in simp_all)
  next
    case (Effect k)
    then show ?thesis using Cons.prems Cons.IH [of "st\<lparr>effects := effects st @ [k]\<rparr>"]
      by (simp add: runs_to_def once_def)
  next
    case Raise
    then show ?thesis using Cons.prems by simp
  qed
qed

lemma require_keeps:
  "require n t st = (r, st') \<Longrightarrow> runs_to st st' \<and> (once st \<longrightarrow> once st')"
proof (induction n arbitrary: t st r st')
  case 0
  then show ?case by simp
next
  case (Suc n)
  show ?case
  proof (cases "cache st t")
    case (Some b)
    then show ?thesis using Suc.prems by simp
  next
    case None
    let ?st1 = "st\<lparr>cache := (cache st)(t \<mapsto> False)\<rparr>"
    show ?thesis
    proof (cases "mods st t")
      case None
      then have "st' = ?st1" using Suc.prems \<open>cache st t = None\<close> by (simp add: Let_def)
      then show ?thesis using None by (auto simp: runs_to_def once_def)
    next
      case (Some body)
      let ?st2 = "?st1\<lparr>entered := entered ?st1 @ [t]\<rparr>"
      obtain x st3 where b: "run_body (require n) body ?st2 = (x, st3)" by fastforce
      have k: "runs_to ?st2 st3 \<and> (once ?st2 \<longrightarrow> once st3)"
        by (rule run_body_keeps [OF _ b]) (rule Suc.IH)
      have "runs_to st ?st2" by (auto simp: runs_to_def)
      moreover have "once st \<longrightarrow> once ?st2" using Some \<open>cache st t = None\<close> by (auto simp: once_def)
      moreover have "t \<in> dom (cache st3)" using k by (auto simp: runs_to_def)
      moreover from this have "runs_to st3 (st3\<lparr>cache := (cache st3)(t \<mapsto> True)\<rparr>)"
        and "once st3 \<longrightarrow> once (st3\<lparr>cache := (cache st3)(t \<mapsto> True)\<rparr>)"
        by (auto simp: runs_to_def once_def)
      moreover have "st' = st3 \<or> st' = st3\<lparr>cache := (cache st3)(t \<mapsto> True)\<rparr>"
        using Suc.prems Some \<open>cache st t = None\<close> b by (cases x) auto
      ultimately show ?thesis using k runs_to_trans by metis
    qed
  qed
qed

lemma uncached_mono: "runs_to st st' \<Longrightarrow> uncached st' \<subseteq> uncached st"
  by (auto simp: runs_to_def uncached_def)

lemma run_body_fuel:
  assumes "\<And>m st. finite (dom (mods st)) \<Longrightarrow> card (uncached st) < n \<Longrightarrow> fst (require n m st) \<noteq> NoFuel"
    and "finite (dom (mods st))" and "card (uncached st) < n"
  shows "fst (run_body (require n) is st) \<noteq> NoFuel"
  using assms(2,3)
proof (induction "is" arbitrary: st)
  case Nil
  then show ?case by simp
next
  case (Cons i "is")
  show ?case
  proof (cases i)
    case (Req m)
    obtain x st1 where q: "require n m st = (x, st1)" by fastforce
    have x: "x \<noteq> NoFuel" using assms(1) [OF Cons.prems, of m] q by simp
    have k: "runs_to st st1" using require_keeps [OF q] by blast
    have "card (uncached st1) \<le> card (uncached st)"
      using uncached_mono [OF k] Cons.prems(1) by (intro card_mono) (auto simp: uncached_def)
    moreover have "finite (dom (mods st1))" using k Cons.prems(1) by (simp add: runs_to_def)
    ultimately have "fst (run_body (require n) is st1) \<noteq> NoFuel" using Cons.IH Cons.prems(2) by simp
    then show ?thesis using Req q x by (cases x) simp_all
  next
    case (Effect k)
    then show ?thesis using Cons.IH [of "st\<lparr>effects := effects st @ [k]\<rparr>"] Cons.prems
      by (simp add: uncached_def)
  next
    case Raise
    then show ?thesis by simp
  qed
qed

lemma require_fuel:
  "finite (dom (mods st)) \<Longrightarrow> card (uncached st) < n \<Longrightarrow> fst (require n t st) \<noteq> NoFuel"
proof (induction n arbitrary: t st)
  case 0
  then show ?case by simp
next
  case (Suc n)
  show ?case
  proof (cases "cache st t = None \<and> mods st t \<noteq> None")
    case False
    then show ?thesis by (auto simp: Let_def)
  next
    case True
    then obtain body where b: "mods st t = Some body" by auto
    let ?st1 = "st\<lparr>cache := (cache st)(t \<mapsto> False)\<rparr>"
    let ?st2 = "?st1\<lparr>entered := entered ?st1 @ [t]\<rparr>"
    have "uncached ?st2 = uncached st - {t}" by (auto simp: uncached_def)
    moreover have "t \<in> uncached st" "finite (uncached st)"
      using True Suc.prems(1) by (auto simp: uncached_def)
    ultimately have "card (uncached ?st2) < n" using Suc.prems(2) card_Diff1_less [of "uncached st" t] by simp
    moreover have "finite (dom (mods ?st2))" using Suc.prems(1) by simp
    ultimately have f: "fst (run_body (require n) body ?st2) \<noteq> NoFuel"
      using run_body_fuel [OF Suc.IH] by blast
    obtain x st3 where "run_body (require n) body ?st2 = (x, st3)" by fastforce
    then show ?thesis using True b f by (cases x) (simp_all add: Let_def)
  qed
qed

text \<open>A module that finished has all the modules it requires in the cache.\<close>

definition closed_cache :: "runtime \<Rightarrow> bool" where
  "closed_cache st \<longleftrightarrow>
     (\<forall>t body m. cache st t = Some True \<longrightarrow> mods st t = Some body \<longrightarrow> Req m \<in> set body \<longrightarrow> cache st m \<noteq> None)"

lemma require_caches: "require n t st = (Fine, st') \<Longrightarrow> cache st' t \<noteq> None"
  by (cases n) (auto simp: Let_def split: if_splits option.splits prod.splits outcome.splits)

lemma run_body_requires:
  "run_body (require n) is st = (Fine, st') \<Longrightarrow> Req m \<in> set is \<Longrightarrow> cache st' m \<noteq> None"
proof (induction "is" arbitrary: st)
  case Nil
  then show ?case by simp
next
  case (Cons i "is")
  show ?case
  proof (cases i)
    case (Req k)
    then obtain st1 where q: "require n k st = (Fine, st1)" and b: "run_body (require n) is st1 = (Fine, st')"
      using Cons.prems(1) by (auto split: prod.splits outcome.splits)
    have "runs_to st1 st'" by (rule conjunct1, rule run_body_keeps [OF _ b]) (rule require_keeps)
    then have "cache st' k \<noteq> None" using require_caches [OF q] by (auto simp: runs_to_def)
    then show ?thesis using Cons.IH [OF b] Cons.prems(2) Req by auto
  next
    case (Effect k)
    then show ?thesis using Cons by simp
  next
    case Raise
    then show ?thesis using Cons.prems by simp
  qed
qed


lemma closed_cache_init: "dom (cache st) = {} \<Longrightarrow> closed_cache st"
  by (auto simp: closed_cache_def)

lemma run_body_closed:
  assumes rq: "\<And>m st r st'. require n m st = (r, st') \<Longrightarrow> closed_cache st \<Longrightarrow> closed_cache st'"
    and "run_body (require n) is st = (r, st')" and "closed_cache st"
  shows "closed_cache st'"
  using assms(2,3)
proof (induction "is" arbitrary: st)
  case Nil
  then show ?case by simp
next
  case (Cons i "is")
  show ?case
  proof (cases i)
    case (Req m)
    obtain x st1 where q: "require n m st = (x, st1)" by fastforce
    have k: "closed_cache st1" using rq [OF q Cons.prems(2)] .
    show ?thesis
    proof (cases x)
      case Fine
      then show ?thesis using Cons.IH [of st1] Cons.prems(1) Req q k by simp
    qed (use Cons.prems Req q k in simp_all)
  next
    case (Effect k)
    then show ?thesis using Cons.prems Cons.IH [of "st\<lparr>effects := effects st @ [k]\<rparr>"]
      by (simp add: closed_cache_def)
  next
    case Raise
    then show ?thesis using Cons.prems by simp
  qed
qed

lemma require_closed: "require n t st = (r, st') \<Longrightarrow> closed_cache st \<Longrightarrow> closed_cache st'"
proof (induction n arbitrary: t st r st')
  case 0
  then show ?case by simp
next
  case (Suc n)
  show ?case
  proof (cases "cache st t = None \<and> mods st t \<noteq> None")
    case False
    then show ?thesis using Suc.prems by (auto simp: closed_cache_def Let_def split: if_splits)
  next
    case True
    then obtain body where b: "mods st t = Some body" by auto
    let ?st2 = "st\<lparr>cache := (cache st)(t \<mapsto> False), entered := entered st @ [t]\<rparr>"
    obtain x st3 where r: "run_body (require n) body ?st2 = (x, st3)" by fastforce
    have "closed_cache ?st2" using Suc.prems(2) True by (auto simp: closed_cache_def)
    then have c3: "closed_cache st3" by (intro run_body_closed [OF _ r]) (rule Suc.IH)
    have k: "runs_to ?st2 st3" by (rule conjunct1, rule run_body_keeps [OF _ r]) (rule require_keeps)
    show ?thesis
    proof (cases x)
      case Fine
      then have st': "st' = st3\<lparr>cache := (cache st3)(t \<mapsto> True)\<rparr>" using Suc.prems(1) True b r by (simp add: Let_def)
      have "cache st3 m \<noteq> None" if "Req m \<in> set body" for m
        using run_body_requires r Fine that by blast
      then show ?thesis using c3 b k by (auto simp: st' closed_cache_def runs_to_def)
    qed (use Suc.prems(1) True b r c3 in \<open>simp_all add: Let_def\<close>)
  qed
qed

section \<open>Deferred entries\<close>

text \<open>\<open>n()\<close>: each deferred entry \<open>[entry, dep, \<dots>]\<close> whose chunks are all installed is removed from
  the list and its entry is required; an exception leaves the loop.\<close>

definition ready :: "runtime \<Rightarrow> string list \<Rightarrow> bool" where
  "ready st d \<longleftrightarrow> (\<forall>c \<in> set (tl d). chunks st c = Some Installed)"

fun check_from :: "string list list \<Rightarrow> string list list \<Rightarrow> runtime \<Rightarrow> outcome \<times> runtime" where
  "check_from kept [] st = (Fine, st\<lparr>deferred := kept\<rparr>)"
| "check_from kept (d # ds) st =
     (if ready st d then
        (case require (enough st) (hd d) (st\<lparr>deferred := kept @ ds\<rparr>) of
           (Fine, st') \<Rightarrow> check_from kept ds st'
         | x \<Rightarrow> x)
      else check_from (kept @ [d]) ds st)"

definition check_deferred :: "runtime \<Rightarrow> outcome \<times> runtime" where
  "check_deferred st = check_from [] (deferred st) st"

text \<open>\<open>t(data)\<close>: chunk identifiers, modules and entries of an arriving chunk. The resolvers of
  pending loads run after the modules are in the table.\<close>

record chunk_data =
  chunk_ids :: "string list"
  more_modules :: modules
  execute :: "string list list"

definition mark_installed :: "string list \<Rightarrow> runtime \<Rightarrow> nat list \<times> runtime" where
  "mark_installed is st =
     fold (\<lambda>s (f, st).
        ((case chunks st s of Some (Pending p) \<Rightarrow> f @ [p] | _ \<Rightarrow> f),
         st\<lparr>chunks := (chunks st)(s \<mapsto> Installed)\<rparr>)) is ([], st)"

definition jsonp_callback :: "chunk_data \<Rightarrow> runtime \<Rightarrow> outcome \<times> runtime" where
  "jsonp_callback t st =
     (let (f, st1) = mark_installed (chunk_ids t) st;
          st2 = st1\<lparr>mods := mods st1 ++ map_of (rev (more_modules t)), resolved := resolved st1 @ f,
                    deferred := deferred st1 @ execute t\<rparr>
      in check_deferred st2)"

section \<open>The two scripts of the page\<close>

text \<open>A chunk script pushes its data on the global array; once the application script has run,
  \<open>push\<close> is the callback, which also records the data in the array once \<open>u\<close> is set
  (\<open>parent_push\<close>).\<close>

record window =
  jsonp :: "chunk_data list"
  runtime :: "runtime option"
  parent_push :: bool
  failed :: bool

datatype script = ChunkScript chunk_data | AppScript modules

definition new_runtime :: "modules \<Rightarrow> runtime" where
  "new_runtime e =
     \<lparr>mods = map_of (rev e), cache = Map.empty, chunks = [''app'' \<mapsto> Installed], deferred = [],
      entered = [], effects = [], resolved = []\<rparr>"

fun replay :: "chunk_data list \<Rightarrow> runtime \<Rightarrow> outcome \<times> runtime" where
  "replay [] st = (Fine, st)"
| "replay (d # ds) st = (case jsonp_callback d st of (Fine, st') \<Rightarrow> replay ds st' | x \<Rightarrow> x)"

definition app_entry :: "string list" where
  "app_entry = [''0'', ''chunk-vendors'']"

fun run_script :: "script \<Rightarrow> window \<Rightarrow> window" where
  "run_script (ChunkScript d) w =
     (case runtime w of
        None \<Rightarrow> w\<lparr>jsonp := jsonp w @ [d]\<rparr>
      | Some st \<Rightarrow>
          (let (r, st') = jsonp_callback d st in
           w\<lparr>jsonp := (if parent_push w then jsonp w @ [d] else jsonp w),
              runtime := Some st', failed := (failed w \<or> r \<noteq> Fine)\<rparr>))"
| "run_script (AppScript e) w =
     (case replay (jsonp w) (new_runtime e) of
        (Fine, st) \<Rightarrow>
          (let (r, st') = check_deferred (st\<lparr>deferred := deferred st @ [app_entry]\<rparr>) in
           w\<lparr>runtime := Some st', parent_push := True, failed := (failed w \<or> r \<noteq> Fine)\<rparr>)
      | (_, st) \<Rightarrow> w\<lparr>runtime := Some st, failed := True\<rparr>)"

definition blank_window :: window where
  "blank_window = \<lparr>jsonp = [], runtime = None, parent_push = False, failed = False\<rparr>"

definition load_page :: "script list \<Rightarrow> window" where
  "load_page ss = fold run_script ss blank_window"


section \<open>What loading does\<close>

lemma mark_installed_state:
  "snd (mark_installed is st) =
     st\<lparr>chunks := (\<lambda>c. if c \<in> set is then Some Installed else chunks st c)\<rparr>"
proof -
  have "snd (fold (\<lambda>s (f, st). ((case chunks st s of Some (Pending p) \<Rightarrow> f @ [p] | _ \<Rightarrow> f),
           st\<lparr>chunks := (chunks st)(s \<mapsto> Installed)\<rparr>)) is (f, st))
      = st\<lparr>chunks := (\<lambda>c. if c \<in> set is then Some Installed else chunks st c)\<rparr>" for f
  proof (induction "is" arbitrary: f st)
    case Nil
    then show ?case by simp
  next
    case (Cons i "is")
    then show ?case by (simp add: fun_upd_def) (rule arg_cong [where f = "\<lambda>c. st\<lparr>chunks := c\<rparr>"], auto)
  qed
  then show ?thesis by (simp add: mark_installed_def)
qed

lemma check_from_spec:
  assumes "check_from kept ds st = (Fine, st')"
  shows "deferred st' = kept @ filter (\<lambda>d. \<not> ready st d) ds \<and> chunks st' = chunks st
     \<and> dom (cache st) \<subseteq> dom (cache st') \<and> (\<forall>d \<in> set ds. ready st d \<longrightarrow> cache st' (hd d) \<noteq> None)"
  using assms
proof (induction ds arbitrary: kept st)
  case Nil
  then show ?case by auto
next
  case (Cons d ds)
  show ?case
  proof (cases "ready st d")
    case False
    then have "check_from (kept @ [d]) ds st = (Fine, st')" using Cons.prems by simp
    from Cons.IH [OF this] False show ?thesis by auto
  next
    case True
    let ?st0 = "st\<lparr>deferred := kept @ ds\<rparr>"
    obtain st1 where q: "require (enough st) (hd d) ?st0 = (Fine, st1)" and c: "check_from kept ds st1 = (Fine, st')"
      using True Cons.prems by (auto split: prod.splits outcome.splits)
    have k: "runs_to ?st0 st1" using require_keeps [OF q] by blast
    then have r: "ready st1 x = ready st x" for x by (simp add: ready_def runs_to_def)
    note ih = Cons.IH [OF c]
    have "dom (cache st) \<subseteq> dom (cache st1)" and ch: "chunks st1 = chunks st" using k by (simp_all add: runs_to_def)
    then have sub: "dom (cache st) \<subseteq> dom (cache st')" using ih by blast
    have "hd d \<in> dom (cache st1)" using require_caches [OF q] by blast
    then have "cache st' (hd d) \<noteq> None" using ih by blast
    then show ?thesis using ih True r ch sub by simp
  qed
qed

lemma enough_fuel:
  assumes "finite (dom (mods st))" shows "fst (require (enough st) t st) \<noteq> NoFuel"
  using require_fuel [OF assms, of "enough st"] by (simp add: enough_def)

lemma check_from_keeps:
  "check_from kept ds st = (r, st') \<Longrightarrow>
     mods st' = mods st \<and> chunks st' = chunks st \<and> dom (cache st) \<subseteq> dom (cache st')
     \<and> (once st \<longrightarrow> once st') \<and> (closed_cache st \<longrightarrow> closed_cache st')
     \<and> (finite (dom (mods st)) \<longrightarrow> r \<noteq> NoFuel)"
proof (induction kept ds st arbitrary: r st' rule: check_from.induct)
  case (1 kept st)
  then show ?case by (auto simp: once_def closed_cache_def)
next
  case (2 kept d ds st)
  show ?case
  proof (cases "ready st d")
    case False
    then show ?thesis using 2 by simp
  next
    case True
    let ?st0 = "st\<lparr>deferred := kept @ ds\<rparr>"
    obtain x st1 where q: "require (enough st) (hd d) ?st0 = (x, st1)" by fastforce
    have k: "runs_to ?st0 st1 \<and> (once ?st0 \<longrightarrow> once st1)" by (rule require_keeps [OF q])
    have c: "closed_cache st \<longrightarrow> closed_cache st1"
      using require_closed [OF q] by (auto simp: closed_cache_def)
    have o1: "once st \<longrightarrow> once st1" using k by (auto simp: once_def)
    have e: "enough ?st0 = enough st" by (simp add: enough_def uncached_def)
    have f: "finite (dom (mods st)) \<longrightarrow> x \<noteq> NoFuel"
      using enough_fuel [of ?st0 "hd d"] q e by auto
    show ?thesis
    proof (cases x)
      case Fine
      then have "check_from kept ds st1 = (r, st')" using "2.prems" True q by simp
      note ih = "2.IH"(1) [OF True q [unfolded Fine, symmetric] refl this]
      have m: "mods st1 = mods st" "chunks st1 = chunks st" "dom (cache st) \<subseteq> dom (cache st1)"
        using k by (simp_all add: runs_to_def)
      then have "dom (cache st) \<subseteq> dom (cache st')" using ih by blast
      then show ?thesis using ih m c o1 by metis
    next
      case Threw
      then have "r = Threw" "st' = st1" using "2.prems" True q by simp_all
      then show ?thesis using k c o1 by (simp add: runs_to_def)
    next
      case NoFuel
      then have "st' = st1" "infinite (dom (mods st))" using "2.prems" True q f by simp_all
      then show ?thesis using k c o1 by (simp add: runs_to_def)
    qed
  qed
qed


text \<open>A callback installs the chunk and merges its modules before anything deferred runs.\<close>

definition arrived :: "chunk_data \<Rightarrow> runtime \<Rightarrow> runtime" where
  "arrived d st =
     st\<lparr>chunks := (\<lambda>c. if c \<in> set (chunk_ids d) then Some Installed else chunks st c),
        mods := mods st ++ map_of (rev (more_modules d)),
        resolved := resolved st @ fst (mark_installed (chunk_ids d) st),
        deferred := deferred st @ execute d\<rparr>"

lemma jsonp_callback_arrived: "jsonp_callback d st = check_deferred (arrived d st)"
proof -
  obtain f st1 where m: "mark_installed (chunk_ids d) st = (f, st1)" by fastforce
  then have "st1 = snd (mark_installed (chunk_ids d) st)" by simp
  with m show ?thesis by (simp add: jsonp_callback_def arrived_def mark_installed_state)
qed

text \<open>The application waits: nothing runs until its chunk is there.\<close>

definition app_waiting :: "runtime \<Rightarrow> bool" where
  "app_waiting st \<longleftrightarrow> deferred st = [app_entry] \<and> chunks st ''chunk-vendors'' \<noteq> Some Installed"

lemma app_waiting_check: "app_waiting st \<Longrightarrow> check_deferred st = (Fine, st)"
  by (simp add: app_waiting_def check_deferred_def ready_def app_entry_def)

lemma idle_check: "deferred st = [] \<Longrightarrow> check_deferred st = (Fine, st)"
  by (simp add: check_deferred_def)

definition plain_chunk :: "chunk_data \<Rightarrow> bool" where
  "plain_chunk d \<longleftrightarrow> execute d = [] \<and> ''chunk-vendors'' \<notin> set (chunk_ids d)"

lemma app_waiting_arrived: "app_waiting st \<Longrightarrow> plain_chunk d \<Longrightarrow> app_waiting (arrived d st) \<and> entered (arrived d st) = entered st"
  by (simp add: app_waiting_def plain_chunk_def arrived_def)

lemma replay_plain:
  "\<forall>d \<in> set ds. execute d = [] \<Longrightarrow> deferred st = [] \<Longrightarrow> replay ds st = (Fine, fold arrived ds st)"
proof (induction ds arbitrary: st)
  case Nil
  then show ?case by simp
next
  case (Cons d ds)
  then have "deferred (arrived d st) = []" by (simp add: arrived_def)
  then show ?case using Cons by (simp add: jsonp_callback_arrived idle_check)
qed

lemma fold_arrived_fields:
  "\<forall>d \<in> set ds. execute d = [] \<Longrightarrow> deferred (fold arrived ds st) = deferred st"
  "entered (fold arrived ds st) = entered st"
  "\<forall>d \<in> set ds. ''chunk-vendors'' \<notin> set (chunk_ids d) \<Longrightarrow>
     chunks (fold arrived ds st) ''chunk-vendors'' = chunks st ''chunk-vendors''"
  by (induction ds arbitrary: st) (auto simp: arrived_def)

lemma chunks_before: "runtime w = None \<Longrightarrow>
    fold run_script (map ChunkScript ds) w = w\<lparr>jsonp := jsonp w @ ds\<rparr>"
  by (induction ds arbitrary: w) simp_all

lemma load_app:
  assumes "\<forall>d \<in> set ds. plain_chunk d"
  shows "\<exists>st. fold run_script (map ChunkScript ds @ [AppScript e]) blank_window
      = \<lparr>jsonp = ds, runtime = Some st, parent_push = True, failed = False\<rparr>
    \<and> app_waiting st \<and> entered st = [] \<and> st = (fold arrived ds (new_runtime e))\<lparr>deferred := [app_entry]\<rparr>"
proof -
  let ?st = "fold arrived ds (new_runtime e)"
  have r: "replay ds (new_runtime e) = (Fine, ?st)"
    using assms by (intro replay_plain) (auto simp: plain_chunk_def new_runtime_def)
  have f: "deferred ?st = []" "entered ?st = []" "chunks ?st ''chunk-vendors'' = None"
    using assms by (simp_all add: fold_arrived_fields plain_chunk_def new_runtime_def)
  then have w: "app_waiting (?st\<lparr>deferred := [app_entry]\<rparr>)" by (simp add: app_waiting_def)
  show ?thesis
    using r f w app_waiting_check [OF w] by (simp add: chunks_before blank_window_def)
qed

text \<open>Chunks that arrive after the application leave it app_waiting too.\<close>

lemma chunks_after:
  assumes "runtime w = Some st" and "app_waiting st" and "entered st = []" and "\<forall>d \<in> set ds. plain_chunk d"
    and "\<not> failed w"
  shows "\<exists>st'. runtime (fold run_script (map ChunkScript ds) w) = Some st' \<and> app_waiting st' \<and> entered st' = []
    \<and> \<not> failed (fold run_script (map ChunkScript ds) w)"
  using assms
proof (induction ds arbitrary: w st)
  case Nil
  then show ?case by simp
next
  case (Cons d ds)
  then have a: "app_waiting (arrived d st)" "entered (arrived d st) = []" using app_waiting_arrived by auto
  let ?w1 = "run_script (ChunkScript d) w"
  have "runtime ?w1 = Some (arrived d st)" "\<not> failed ?w1"
    using Cons.prems a app_waiting_check [OF a(1)] by (simp_all add: jsonp_callback_arrived)
  from Cons.IH [OF this(1) a _ this(2)] Cons.prems(4) show ?case by simp
qed

lemma not_before_vendors:
  assumes "\<forall>d \<in> set ds. plain_chunk d" and "\<forall>d \<in> set ds'. plain_chunk d"
  shows "\<exists>st. runtime (load_page (map ChunkScript ds @ [AppScript e] @ map ChunkScript ds')) = Some st
    \<and> app_waiting st \<and> entered st = []"
proof -
  obtain w st where l: "fold run_script (map ChunkScript ds @ [AppScript e]) blank_window = w"
    "runtime w = Some st" "app_waiting st" "entered st = []" "\<not> failed w"
    using load_app [OF assms(1)] by fastforce
  have "load_page (map ChunkScript ds @ [AppScript e] @ map ChunkScript ds') = fold run_script (map ChunkScript ds') w"
    unfolding load_page_def append_assoc [symmetric] fold_append comp_apply
    using l(1) unfolding fold_append comp_apply by simp
  then show ?thesis using chunks_after [OF l(2,3,4) assms(2) l(5)] by auto
qed

text \<open>Either order of the two scripts gives the same program.\<close>

lemma either_order:
  assumes "chunk_ids d = [''chunk-vendors'']" and "execute d = []"
  shows "runtime (load_page [ChunkScript d, AppScript e]) = runtime (load_page [AppScript e, ChunkScript d])"
    and "failed (load_page [ChunkScript d, AppScript e]) = failed (load_page [AppScript e, ChunkScript d])"
proof -
  let ?n = "new_runtime e"
  let ?st = "(arrived d ?n)\<lparr>deferred := [app_entry]\<rparr>"
  obtain r st' where c: "check_deferred ?st = (r, st')" by fastforce
  have "replay [d] ?n = (Fine, arrived d ?n)"
    using replay_plain [of "[d]" ?n] assms(2) by (simp add: new_runtime_def)
  then have a: "load_page [ChunkScript d, AppScript e]
      = \<lparr>jsonp = [d], runtime = Some st', parent_push = True, failed = (r \<noteq> Fine)\<rparr>"
    using c assms(2) by (simp add: load_page_def blank_window_def arrived_def new_runtime_def)
  have w: "app_waiting (?n\<lparr>deferred := [app_entry]\<rparr>)" by (simp add: app_waiting_def new_runtime_def)
  have "arrived d (?n\<lparr>deferred := [app_entry]\<rparr>) = ?st"
    using assms by (simp add: arrived_def mark_installed_def new_runtime_def cong: if_cong)
  then have "jsonp_callback d (?n\<lparr>deferred := [app_entry]\<rparr>) = (r, st')"
    using c by (simp add: jsonp_callback_arrived)
  then have b: "load_page [AppScript e, ChunkScript d]
      = \<lparr>jsonp = [d], runtime = Some st', parent_push = True, failed = (r \<noteq> Fine)\<rparr>"
    using app_waiting_check [OF w] by (simp add: load_page_def blank_window_def new_runtime_def)
  show "runtime (load_page [ChunkScript d, AppScript e]) = runtime (load_page [AppScript e, ChunkScript d])"
    and "failed (load_page [ChunkScript d, AppScript e]) = failed (load_page [AppScript e, ChunkScript d])"
    using a b by simp_all
qed

text \<open>Once both are there the entry has been required, and no module ran twice.\<close>

lemma once_arrived:
  assumes "once st" and "dom (map_of (more_modules d)) \<inter> dom (cache st) \<subseteq> dom (mods st)"
  shows "once (arrived d st)"
  using assms by (auto simp: once_def arrived_def dom_map_of_conv_image_fst)

lemma load_runs:
  assumes d: "chunk_ids d = [''chunk-vendors'']" "execute d = []"
  shows "\<exists>st. runtime (load_page [ChunkScript d, AppScript e]) = Some st \<and> once st \<and> closed_cache st
    \<and> (\<not> failed (load_page [ChunkScript d, AppScript e]) \<longrightarrow> deferred st = [] \<and> cache st ''0'' \<noteq> None)"
proof -
  let ?st = "(arrived d (new_runtime e))\<lparr>deferred := [app_entry]\<rparr>"
  obtain r st' where c: "check_deferred ?st = (r, st')" by fastforce
  have "replay [d] (new_runtime e) = (Fine, arrived d (new_runtime e))"
    using replay_plain [of "[d]" "new_runtime e"] d(2) by (simp add: new_runtime_def)
  then have l: "load_page [ChunkScript d, AppScript e]
      = \<lparr>jsonp = [d], runtime = Some st', parent_push = True, failed = (r \<noteq> Fine)\<rparr>"
    using c d(2) by (simp add: load_page_def blank_window_def arrived_def new_runtime_def)
  have e: "cache ?st = Map.empty" "entered ?st = []" "deferred ?st = [app_entry]"
    by (simp_all add: arrived_def new_runtime_def)
  have "once ?st" using e by (simp add: once_def)
  moreover have "closed_cache ?st" using e by (simp add: closed_cache_def)
  ultimately have "once st'" "closed_cache st'"
    using check_from_keeps c unfolding check_deferred_def by blast+
  moreover have "deferred st' = [] \<and> cache st' ''0'' \<noteq> None" if "r = Fine"
  proof -
    have "ready ?st app_entry" using d(1) by (simp add: ready_def app_entry_def arrived_def)
    moreover have "check_from [] [app_entry] ?st = (Fine, st')" using c that e(3) by (simp add: check_deferred_def)
    ultimately show ?thesis using check_from_spec [of "[]" "[app_entry]" ?st st'] by (simp add: app_entry_def)
  qed
  ultimately show ?thesis using l by simp
qed

end
