(* ===== verification/RouterUrl.thy ===== *)
theory RouterUrl
  imports AxiosUrl
begin

text \<open>
  The location layer of vue-router 3.1.3 (\<open>chunk-vendors.ddcb6f91.js\<close>, module \<open>8c4f\<close>), by the
  names of the bundle and, in brackets, of the project's sources: \<open>h\<close> (encode), \<open>m\<close> (parseQuery),
  \<open>p\<close> (resolveQuery), \<open>v\<close> (stringifyQuery), \<open>w\<close> (getFullPath), \<open>D\<close> (parsePath), \<open>E\<close> (cleanPath),
  \<open>$\<close> (resolvePath), \<open>k\<close> (isObjectEqual), \<open>C\<close> (isSameRoute), \<open>S\<close> (isIncludedRoute). A query read
  from an address and written back is the same query.
\<close>

section \<open>Encoding\<close>

text \<open>\<open>String(v)\<close>: an array joins its elements, with nothing for \<open>null\<close> and \<open>undefined\<close>.\<close>

fun js_string :: "jv \<Rightarrow> string" where
  "js_string (Arr xs) = join_with '','' (map (\<lambda>x. if x = Undef \<or> x = Null then [] else js_string x) xs)"
| "js_string (Obj ob) = ''[object Object]''"
| "js_string v = string_of v"

definition router_reserved :: "char \<Rightarrow> bool" where
  "router_reserved c \<longleftrightarrow> c \<in> set ''!()*'' \<or> c = CHR 0x27"

text \<open>\<open>"%" + e.charCodeAt(0).toString(16)\<close>, with lower-case digits.\<close>

definition lower_pct :: "char \<Rightarrow> string" where
  "lower_pct c = to_lower (pct_byte (of_char c))"

definition router_encode :: "string \<Rightarrow> string" where
  "router_encode e =
     replace_all False ''%2C'' '',''
       (concat (map (\<lambda>c. if router_reserved c then lower_pct c else [c]) (encode_uri_component e)))"

section \<open>Queries\<close>

text \<open>A plain object inherits these names, so a lookup under them is not \<open>undefined\<close>.\<close>

definition lookup_plain :: "jv obj \<Rightarrow> string \<Rightarrow> jv" where
  "lookup_plain t i =
     (case oget t i of Some v \<Rightarrow> v | None \<Rightarrow> if i \<in> set inherited_names then Fn 0 else Undef)"

text \<open>The body of the loop of \<open>m\<close>, for a decoded pair.\<close>

definition add_param :: "string \<Rightarrow> jv \<Rightarrow> jv obj \<Rightarrow> jv obj" where
  "add_param i r t =
     (case lookup_plain t i of
        Undef \<Rightarrow> oset i r t
      | Arr xs \<Rightarrow> oset i (Arr (xs @ [r])) t
      | v \<Rightarrow> oset i (Arr [v, r]) t)"

definition parse_param :: "string \<Rightarrow> (string \<times> jv) option" where
  "parse_param e =
     (let n = split_on (CHR ''='') (plus_to_space e) in
      case decode_uri_component (hd n) of
        None \<Rightarrow> None
      | Some i \<Rightarrow>
        if tl n = [] then Some (i, Null)
        else map_option (\<lambda>r. (i, Str r)) (decode_uri_component (join_with ''='' (tl n))))"

fun parse_params :: "string list \<Rightarrow> jv obj \<Rightarrow> jv obj option" where
  "parse_params [] t = Some t"
| "parse_params (e # es) t =
     (case parse_param e of None \<Rightarrow> None | Some (i, r) \<Rightarrow> parse_params es (add_param i r t))"

definition strip_query_mark :: "string \<Rightarrow> string" where
  "strip_query_mark e = (case e of [] \<Rightarrow> [] | c # cs \<Rightarrow> if c \<in> set ''?#&'' then cs else e)"

text \<open>\<open>m(e)\<close>; \<open>None\<close> is the \<open>URIError\<close> of a malformed escape.\<close>

definition parse_query :: "string \<Rightarrow> jv obj option" where
  "parse_query e =
     (let e' = strip_query_mark (js_trim e) in
      if e' = [] then Some [] else parse_params (split_on (CHR ''&'') e') [])"

text \<open>\<open>p(e, t)\<close>: a malformed query is empty; the extra entries overwrite.\<close>

definition resolve_query :: "string \<Rightarrow> jv obj \<Rightarrow> jv obj" where
  "resolve_query e t =
     fold (\<lambda>(o', v). oset o' v) t (case parse_query e of None \<Rightarrow> [] | Some i \<Rightarrow> i)"

fun param_pieces :: "string \<Rightarrow> jv list \<Rightarrow> string list" where
  "param_pieces t [] = []"
| "param_pieces t (e # es) =
     (if e = Undef then param_pieces t es
      else if e = Null then router_encode t # param_pieces t es
      else (router_encode t @ ''='' @ router_encode (js_string e)) # param_pieces t es)"

definition stringify_param :: "string \<times> jv \<Rightarrow> string" where
  "stringify_param p =
     (case p of (t, n) \<Rightarrow>
        (case n of
           Undef \<Rightarrow> []
         | Null \<Rightarrow> router_encode t
         | Arr xs \<Rightarrow> join_with ''&'' (param_pieces t xs)
         | _ \<Rightarrow> router_encode t @ ''='' @ router_encode (js_string n)))"

definition stringify_query :: "jv obj \<Rightarrow> string" where
  "stringify_query e =
     (let t = join_with ''&'' (filter (\<lambda>e. e \<noteq> []) (map stringify_param e))
      in if t \<noteq> [] then CHR ''?'' # t else [])"

section \<open>Paths\<close>

record parsed_path =
  pp_path :: string
  pp_query :: string
  pp_hash :: string

definition parse_path :: "string \<Rightarrow> parsed_path" where
  "parse_path e =
     (let t = dropWhile (\<lambda>c. c \<noteq> CHR ''#'') e;
          e1 = takeWhile (\<lambda>c. c \<noteq> CHR ''#'') e;
          n = tl (dropWhile (\<lambda>c. c \<noteq> CHR ''?'') e1);
          e2 = takeWhile (\<lambda>c. c \<noteq> CHR ''?'') e1
      in \<lparr>pp_path = e2, pp_query = n, pp_hash = t\<rparr>)"

definition clean_path :: "string \<Rightarrow> string" where
  "clean_path e = replace_all False ''//'' ''/'' e"

definition resolve_segment :: "string \<Rightarrow> string list \<Rightarrow> string list" where
  "resolve_segment s r = (if s = ''..'' then butlast r else if s \<noteq> ''.'' then r @ [s] else r)"

definition resolve_path :: "string \<Rightarrow> string \<Rightarrow> bool \<Rightarrow> string" where
  "resolve_path e t n =
     (if e \<noteq> [] \<and> hd e = CHR ''/'' then e
      else if e \<noteq> [] \<and> hd e \<in> set ''?#'' then t @ e
      else
        let r0 = split_on (CHR ''/'') t;
            r1 = (if n \<and> last r0 \<noteq> [] then r0 else butlast r0);
            r2 = fold resolve_segment (split_on (CHR ''/'') e) r1
        in join_with ''/'' (if r2 \<noteq> [] \<and> hd r2 = [] then r2 else [] # r2))"

section \<open>Routes\<close>

text \<open>\<open>rt_start\<close> marks the one object \<open>_\<close> (START), which the code compares by identity.\<close>

record route =
  rt_start :: bool
  rt_name :: string
  rt_path :: string
  rt_hash :: string
  rt_query :: "jv obj"
  rt_params :: "jv obj"
  rt_matched :: "nat list"

text \<open>\<open>w(e)\<close> for a location's path, query and hash.\<close>

definition full_path :: "string \<Rightarrow> jv obj \<Rightarrow> string \<Rightarrow> string" where
  "full_path path query hash = (if path = [] then ''/'' else path) @ stringify_query query @ hash"

text \<open>\<open>k(e, t)\<close>\<close>

lemma entry_weight: "p \<in> set es \<Longrightarrow> weight (snd p) < entries_weight es"
  by (induction es) (auto simp: entries_weight_def)

function obj_equal :: "jv \<Rightarrow> jv \<Rightarrow> bool" where
  "obj_equal e t =
     (if \<not> truthy e \<or> \<not> truthy t then e = t
      else if \<not> typeof_object e then False
      else
        length (each e) = length (each t) \<and>
        (\<forall>p \<in> set (each e).
           let i = snd p; r = getp (each t) (fst p) in
           if typeof_object i \<and> typeof_object r then obj_equal i r else js_string i = js_string r))"
  by pat_completeness auto
termination
  by (relation "measure (\<lambda>(e, t). weight e)")
     (auto dest!: entry_weight entries_weight_each)

declare obj_equal.simps [simp del]

text \<open>\<open>path.replace(/\/?$/, "")\<close> and \<open>path.replace(/\/?$/, "/")\<close>\<close>

definition drop_slash :: "string \<Rightarrow> string" where
  "drop_slash p = (if p \<noteq> [] \<and> last p = CHR ''/'' then butlast p else p)"

definition end_slash :: "string \<Rightarrow> string" where
  "end_slash p = drop_slash p @ ''/''"

definition is_same_route :: "route \<Rightarrow> route \<Rightarrow> bool" where
  "is_same_route e t =
     (if rt_start t then rt_start e
      else if rt_path e \<noteq> [] \<and> rt_path t \<noteq> []
      then drop_slash (rt_path e) = drop_slash (rt_path t) \<and> rt_hash e = rt_hash t
           \<and> obj_equal (Obj (rt_query e)) (Obj (rt_query t))
      else rt_name e \<noteq> [] \<and> rt_name t \<noteq> [] \<and> rt_name e = rt_name t \<and> rt_hash e = rt_hash t
           \<and> obj_equal (Obj (rt_query e)) (Obj (rt_query t)) \<and> obj_equal (Obj (rt_params e)) (Obj (rt_params t)))"

definition is_included_route :: "route \<Rightarrow> route \<Rightarrow> bool" where
  "is_included_route e t \<longleftrightarrow>
     take (length (end_slash (rt_path t))) (end_slash (rt_path e)) = end_slash (rt_path t) \<and>
     (rt_hash t = [] \<or> rt_hash e = rt_hash t) \<and>
     (\<forall>n \<in> set (okeys (rt_query t)). n \<in> set (okeys (rt_query e)))"

section \<open>What encoding does\<close>

text \<open>The tokens of the encoded text, one by one.\<close>

definition loose_triple :: "string \<Rightarrow> bool" where
  "loose_triple t \<longleftrightarrow> (\<exists>a b. t = [CHR ''%'', a, b] \<and> a \<noteq> CHR ''%'' \<and> b \<noteq> CHR ''%'')"

definition loose_token :: "string \<Rightarrow> bool" where
  "loose_token t \<longleftrightarrow> is_single t \<or> loose_triple t"

lemma replace_loose:
  assumes p: "p = [CHR ''%'', a, b]" and ts: "\<forall>t \<in> set ts. loose_token t"
  shows "replace_all False p r (concat ts) = concat (map (subst_token p r) ts)"
  using ts
proof (induction ts)
  case Nil
  then show ?case by (simp add: replace_all.simps)
next
  case (Cons t ts)
  have skip: "c \<noteq> CHR ''%'' \<Longrightarrow> replace_all False p r (c # s) = c # replace_all False p r s" for c s
    using replace_all_skip p by blast
  show ?case
  proof (cases "is_single t")
    case True
    then obtain c where "t = [c]" "c \<noteq> CHR ''%''" by (auto simp: is_single_def)
    then show ?thesis using Cons skip p by (simp add: subst_token_def)
  next
    case False
    then obtain d e where t: "t = [CHR ''%'', d, e]" "d \<noteq> CHR ''%''" "e \<noteq> CHR ''%''"
      using Cons.prems by (auto simp: loose_token_def loose_triple_def)
    have "replace_all False p r (t @ s)
        = (if t = p then r @ replace_all False p r s else CHR ''%'' # replace_all False p r (d # e # s))" for s
      using p t by (subst replace_all.simps) auto
    then show ?thesis using Cons t skip by (auto simp: subst_token_def)
  qed
qed

definition reserve_token :: "string \<Rightarrow> string" where
  "reserve_token t = concat (map (\<lambda>c. if router_reserved c then lower_pct c else [c]) t)"

definition router_token :: "string \<Rightarrow> string" where
  "router_token t = subst_token ''%2C'' '','' (reserve_token t)"

lemma reserved_chars:
  "router_reserved c \<Longrightarrow> c \<in> {CHR ''!'', CHR ''('', CHR '')'', CHR ''*'', CHR 0x27}"
  by (auto simp: router_reserved_def)

lemma lower_pct_eqs:
  "lower_pct (CHR ''!'') = ''%21''" "lower_pct (CHR ''('') = ''%28''" "lower_pct (CHR '')'') = ''%29''"
  "lower_pct (CHR ''*'') = ''%2a''" "lower_pct (CHR 0x27) = ''%27''"
  by code_simp+

lemma reserve_token_ok: "is_token t \<Longrightarrow> loose_token (reserve_token t)"
proof -
  assume t: "is_token t"
  show ?thesis
  proof (cases "is_single t")
    case True
    then obtain c where c: "t = [c]" "c \<noteq> CHR ''%''" by (auto simp: is_single_def)
    show ?thesis
    proof (cases "router_reserved c")
      case True
      then show ?thesis using c reserved_chars [OF True]
        by (auto simp: reserve_token_def loose_token_def loose_triple_def is_single_def lower_pct_eqs)
    next
      case False
      then show ?thesis using c by (simp add: reserve_token_def loose_token_def is_single_def)
    qed
  next
    case False
    then obtain a b where ab: "t = [CHR ''%'', a, b]" "is_hex a" "is_hex b"
      using t by (auto simp: is_token_def is_triple_def)
    have "\<not> router_reserved (CHR ''%'')" by (simp add: router_reserved_def)
    moreover have "\<not> router_reserved a" "\<not> router_reserved b"
      using ab(2,3) reserved_chars by (fastforce simp: is_hex_def)+
    ultimately have "reserve_token t = t" using ab(1) by (simp add: reserve_token_def)
    then show ?thesis using ab by (auto simp: loose_token_def loose_triple_def is_hex_def)
  qed
qed

lemma router_encode_tokens: "router_encode s = concat (map router_token (str_tokens s))"
proof -
  have "concat (map (\<lambda>c. if router_reserved c then lower_pct c else [c]) (concat ts)) = concat (map reserve_token ts)" for ts
    by (induction ts) (simp_all add: reserve_token_def)
  moreover have "\<forall>t \<in> set (map reserve_token (str_tokens s)). loose_token t"
    using str_tokens_ok reserve_token_ok by auto
  ultimately show ?thesis
    using replace_loose [of "''%2C''" "CHR ''2''" "CHR ''C''" "map reserve_token (str_tokens s)" "'',''"]
    by (simp add: router_encode_def encode_tokens router_token_def [abs_def] o_def)
qed


definition router_unit :: "char \<Rightarrow> string" where
  "router_unit c = concat (map router_token (unit_tokens c))"

lemma router_encode_units: "router_encode s = concat (map router_unit s)"
  by (simp add: router_encode_tokens str_tokens_def router_unit_def [abs_def] concat_map_concat)

lemma reserve_pct: "b < 256 \<Longrightarrow> reserve_token (pct_byte b) = pct_byte b"
proof -
  assume b: "b < 256"
  have "is_hex d \<Longrightarrow> \<not> router_reserved d" for d using reserved_chars by (fastforce simp: is_hex_def)
  moreover have "\<not> router_reserved (CHR ''%'')" by (simp add: router_reserved_def)
  moreover have "b div 16 < 16" "b mod 16 < 16" using b by auto
  ultimately show ?thesis using hex_char_digit by (simp add: reserve_token_def pct_byte_def)
qed

lemma router_unit_eq:
  "router_unit c =
     (if router_reserved c then lower_pct c else if c = CHR '','' then '','' else encode_unit c)"
proof -
  let ?n = "of_char c :: nat"
  have comma: "?n = 44 \<longleftrightarrow> c = CHR '',''" using of_char_eq_iff [where c = c and d = "CHR '',''", where 'a = nat] by simp
  have pat: "''%2C'' = pct_byte 44" by code_simp
  consider "unreserved c" | "\<not> unreserved c" "?n < 128" | "\<not> unreserved c" "128 \<le> ?n" by linarith
  then show ?thesis
  proof cases
    case 1
    then have "c \<noteq> CHR '',''" by (auto simp: unreserved_def is_alpha_def is_digit_def)
    moreover have "lower_pct c \<noteq> ''%2C''" if "router_reserved c"
      using reserved_chars [OF that] by (auto simp: lower_pct_eqs)
    ultimately show ?thesis using 1
      by (auto simp: router_unit_def unit_tokens_def router_token_def subst_token_def reserve_token_def encode_unit_def)
  next
    case 2
    have nr: "\<not> router_reserved c" using 2(1) by (auto simp: router_reserved_def unreserved_def)
    have "router_unit c = (if pct_byte ?n = pct_byte 44 then '','' else pct_byte ?n)"
      using 2 by (simp add: router_unit_def unit_tokens_def router_token_def subst_token_def reserve_pct Let_def pat
          del: of_char_eq_iff)
    then show ?thesis using 2 nr comma by (auto simp: pct_byte_inj encode_unit_def Let_def)
  next
    case 3
    have nr: "\<not> router_reserved c" using 3(1) by (auto simp: router_reserved_def unreserved_def)
    have b: "192 + ?n div 64 < 256" "128 + ?n mod 64 < 256" using nat_of_char_less_256 [of c] by linarith+
    have "c \<noteq> CHR '',''" using 3(2) by auto
    then show ?thesis using 3 nr b
      by (simp add: router_unit_def unit_tokens_def router_token_def subst_token_def reserve_pct pat pct_byte_inj
          encode_unit_def Let_def)
  qed
qed

lemma decode_router_unit:
  "decode_uri_component (router_unit c @ t) = map_option ((#) c) (decode_uri_component t)"
proof -
  consider "router_reserved c" | "c = CHR '',''" | "\<not> router_reserved c" "c \<noteq> CHR '',''" by blast
  then show ?thesis
  proof cases
    case 1
    have "decode_uri_component (lower_pct d @ t) = map_option ((#) d) (decode_uri_component t)"
      if "d \<in> {CHR ''!'', CHR ''('', CHR '')'', CHR ''*'', CHR 0x27}" for d
    proof -
      have "hex_byte (CHR ''2'') (CHR ''1'') = Some 33" "hex_byte (CHR ''2'') (CHR ''8'') = Some 40"
        "hex_byte (CHR ''2'') (CHR ''9'') = Some 41" "hex_byte (CHR ''2'') (CHR ''a'') = Some 42"
        "hex_byte (CHR ''2'') (CHR ''7'') = Some 39" by code_simp+
      moreover have "char_of (33 :: nat) = CHR ''!''" "char_of (40 :: nat) = CHR ''(''" "char_of (41 :: nat) = CHR '')''"
        "char_of (42 :: nat) = CHR ''*''" "char_of (39 :: nat) = CHR 0x27" by code_simp+
      ultimately show ?thesis using that by (auto simp: lower_pct_eqs)
    qed
    then show ?thesis using 1 reserved_chars [OF 1] by (simp add: router_unit_eq)
  next
    case 2
    then show ?thesis by (simp add: router_unit_eq router_reserved_def)
  next
    case 3
    then show ?thesis by (simp add: router_unit_eq decode_unit)
  qed
qed

lemma decode_router: "decode_uri_component (router_encode s) = Some s"
  by (induction s) (simp_all add: router_encode_units decode_router_unit)

lemma router_delims:
  assumes "d \<in> set ''&=#?+ /''"
  shows "d \<notin> set (router_encode s)"
proof -
  have "d \<notin> set (router_unit c)" for c
  proof (cases "router_reserved c")
    case True
    have "d \<notin> {CHR ''%'', CHR ''2'', CHR ''1'', CHR ''8'', CHR ''9'', CHR ''a'', CHR ''7''}"
      using assms by auto
    then show ?thesis using True reserved_chars [OF True] by (auto simp: router_unit_eq lower_pct_eqs)
  next
    case False
    have "d \<noteq> CHR '',''" using assms by auto
    then show ?thesis using False delims_not_encoded [OF assms] by (simp add: router_unit_eq)
  qed
  then show ?thesis by (auto simp: router_encode_units)
qed

lemma router_encode_Nil: "router_encode s = [] \<longleftrightarrow> s = []"
proof
  assume "router_encode s = []"
  then show "s = []" using decode_router [of s] by simp
qed (simp add: router_encode_units)

lemma router_no_space: "c \<in> set (router_encode s) \<Longrightarrow> \<not> is_space c"
proof -
  assume "c \<in> set (router_encode s)"
  then obtain d where d: "c \<in> set (router_unit d)" by (auto simp: router_encode_units)
  have "unreserved c \<or> c = CHR ''%'' \<or> is_hex c \<or> c = CHR '','' \<or> c = CHR ''a''"
  proof (cases "router_reserved d")
    case True
    have "is_hex (CHR ''2'')" "is_hex (CHR ''1'')" "is_hex (CHR ''8'')" "is_hex (CHR ''9'')" "is_hex (CHR ''7'')"
      by (simp_all add: is_hex_def)
    then show ?thesis using True d reserved_chars [OF True] by (auto simp: router_unit_eq lower_pct_eqs)
  next
    case False
    then show ?thesis using d set_encode_unit [of c d] by (auto simp: router_unit_eq split: if_splits)
  qed
  moreover have "\<not> is_space d" if "unreserved d \<or> is_hex d" for d
    using that by (auto simp: is_space_def unreserved_def is_alpha_def is_digit_def is_hex_def)
  moreover have "\<not> is_space (CHR ''%'')" "\<not> is_space (CHR '','')" "\<not> is_space (CHR ''a'')" by (simp_all add: is_space_def)
  ultimately show ?thesis by metis
qed


section \<open>A query written and read again\<close>

definition scalar :: "jv \<Rightarrow> bool" where
  "scalar v \<longleftrightarrow> v = Null \<or> (\<exists>s. v = Str s)"

text \<open>The queries that come back as they were: an array of fewer than two elements is read as a
  scalar or not at all, and inherited names are read as arrays.\<close>

definition plain_query :: "jv obj \<Rightarrow> bool" where
  "plain_query q \<longleftrightarrow>
     distinct (okeys q) \<and>
     (\<forall>(k, v) \<in> set q. k \<noteq> [] \<and> k \<notin> set inherited_names \<and>
        (scalar v \<or> (\<exists>xs. v = Arr xs \<and> 2 \<le> length xs \<and> (\<forall>x \<in> set xs. scalar x))))"

definition piece :: "string \<times> jv \<Rightarrow> string" where
  "piece p = (if snd p = Null then router_encode (fst p)
              else router_encode (fst p) @ ''='' @ router_encode (js_string (snd p)))"

fun pairs_of :: "string \<times> jv \<Rightarrow> (string \<times> jv) list" where
  "pairs_of (k, Arr xs) = map (Pair k) xs"
| "pairs_of (k, v) = [(k, v)]"

lemma param_pieces_scalar: "\<forall>x \<in> set xs. scalar x \<Longrightarrow> param_pieces k xs = map (\<lambda>x. piece (k, x)) xs"
  by (induction xs) (auto simp: piece_def scalar_def)

lemma stringify_pairs:
  assumes "scalar v \<or> (\<exists>xs. v = Arr xs \<and> 2 \<le> length xs \<and> (\<forall>x \<in> set xs. scalar x))"
  shows "stringify_param (k, v) = join_with ''&'' (map piece (pairs_of (k, v))) \<and> pairs_of (k, v) \<noteq> []
     \<and> (\<forall>p \<in> set (pairs_of (k, v)). fst p = k \<and> scalar (snd p))"
  using assms by (auto simp: scalar_def stringify_param_def piece_def param_pieces_scalar o_def)

lemma join_join:
  "\<forall>ps \<in> set pss. ps \<noteq> [] \<Longrightarrow> join_with s (map (join_with s) pss) = join_with s (concat pss)"
proof (induction pss)
  case Nil
  then show ?case by simp
next
  case (Cons ps pss)
  then show ?case
    by (cases "pss = []") (auto simp: join_with_Cons join_with_append)
qed

lemma piece_not_Nil: "k \<noteq> [] \<Longrightarrow> piece (k, v) \<noteq> []"
  by (simp add: piece_def router_encode_Nil)

lemma piece_chars:
  assumes "d = CHR ''&'' \<or> d = CHR ''?'' \<or> d = CHR ''#'' \<or> is_space d"
  shows "d \<notin> set (piece p)"
proof -
  have "d \<notin> set (router_encode s)" for s
    using assms router_delims [of d s] router_no_space [of d s] by auto
  moreover have "d \<noteq> CHR ''=''" using assms by (auto simp: is_space_def)
  ultimately show ?thesis by (simp add: piece_def)
qed

lemma parse_piece: "scalar v \<Longrightarrow> parse_param (piece (k, v)) = Some (k, v)"
proof -
  assume v: "scalar v"
  have eq: "CHR ''='' \<notin> set (router_encode s)" "CHR ''+'' \<notin> set (router_encode s)" for s
    using router_delims [of "CHR ''=''" s] router_delims [of "CHR ''+''" s] by simp_all
  have "CHR ''+'' \<notin> set (piece (k, v))" using eq by (simp add: piece_def)
  then have id: "plus_to_space (piece (k, v)) = piece (k, v)" by (rule plus_to_space_id)
  show ?thesis
  proof (cases "v = Null")
    case True
    then show ?thesis using id eq by (simp add: parse_param_def piece_def str_simps decode_router)
  next
    case False
    then obtain t where t: "v = Str t" using v by (auto simp: scalar_def)
    have "split_on (CHR ''='') (piece (k, v)) = [router_encode k, router_encode t]"
      using t eq by (simp add: piece_def split_on_append_sep split_on_no_sep)
    then show ?thesis using id t by (simp add: parse_param_def decode_router)
  qed
qed

lemma parse_pieces:
  "\<forall>p \<in> set ps. scalar (snd p) \<Longrightarrow> parse_params (map piece ps) t = Some (fold (\<lambda>(k, v). add_param k v) ps t)"
proof (induction ps arbitrary: t)
  case Nil
  then show ?case by simp
next
  case (Cons p ps)
  obtain k v where p: "p = (k, v)" by (cases p)
  then show ?case using Cons parse_piece [of v k] by simp
qed

lemma oset_last: "k \<notin> set (okeys t) \<Longrightarrow> oset k v (t @ [(k, w)]) = t @ [(k, v)]"
  by (induction t) auto

lemma oget_last: "k \<notin> set (okeys t) \<Longrightarrow> oget (t @ [(k, w)]) k = Some w"
  by (induction t) auto

lemma add_more:
  "k \<notin> set (okeys t) \<Longrightarrow>
     fold (\<lambda>(k, v). add_param k v) (map (Pair k) ys) (t @ [(k, Arr xs)]) = t @ [(k, Arr (xs @ ys))]"
proof (induction ys arbitrary: xs)
  case Nil
  then show ?case by simp
next
  case (Cons y ys)
  have "add_param k y (t @ [(k, Arr xs)]) = t @ [(k, Arr (xs @ [y]))]"
    using Cons.prems by (simp add: add_param_def lookup_plain_def oset_last oget_last del: map_of_append)
  then show ?case using Cons by simp
qed

lemma add_pairs:
  assumes "k \<notin> set (okeys t)" and "k \<notin> set inherited_names"
    and "scalar v \<or> (\<exists>xs. v = Arr xs \<and> 2 \<le> length xs \<and> (\<forall>x \<in> set xs. scalar x))"
  shows "fold (\<lambda>(k, v). add_param k v) (pairs_of (k, v)) t = t @ [(k, v)]"
proof -
  have "oget t k = None" using assms(1) by (simp add: map_of_eq_None_iff)
  then have first: "add_param k x t = t @ [(k, x)]" for x
    using assms(1,2) by (simp add: add_param_def lookup_plain_def oset_fresh)
  show ?thesis
  proof (cases "scalar v")
    case True
    then show ?thesis using first by (auto simp: scalar_def)
  next
    case False
    then obtain x y xs where v: "v = Arr (x # y # xs)" and xy: "scalar x" "scalar y"
      using assms(3) by (auto simp: Suc_le_length_iff numeral_2_eq_2)
    have "add_param k y (t @ [(k, x)]) = t @ [(k, Arr [x, y])]"
      using assms(1) xy by (auto simp: add_param_def lookup_plain_def oset_last oget_last scalar_def simp del: map_of_append)
    then show ?thesis using first add_more [OF assms(1), of xs "[x, y]"] v by simp
  qed
qed

lemma add_all:
  assumes "plain_query (t @ q)"
  shows "fold (\<lambda>(k, v). add_param k v) (concat (map pairs_of q)) t = t @ q"
  using assms
proof (induction q arbitrary: t)
  case Nil
  then show ?case by simp
next
  case (Cons p q)
  obtain k v where p: "p = (k, v)" by (cases p)
  have "fold (\<lambda>(k, v). add_param k v) (pairs_of (k, v)) t = t @ [(k, v)]"
    using Cons.prems p by (intro add_pairs) (auto simp: plain_query_def)
  moreover have "plain_query ((t @ [(k, v)]) @ q)" using Cons.prems p by simp
  ultimately show ?case using Cons.IH [of "t @ [(k, v)]"] p by simp
qed

lemma stringify_pieces:
  assumes "plain_query q" and "q \<noteq> []"
  shows "stringify_query q = CHR ''?'' # join_with ''&'' (map piece (concat (map pairs_of q)))
     \<and> concat (map pairs_of q) \<noteq> [] \<and> (\<forall>p \<in> set (concat (map pairs_of q)). fst p \<noteq> [] \<and> scalar (snd p))"
proof -
  let ?pss = "map (\<lambda>e. map piece (pairs_of e)) q"
  have each: "stringify_param e = join_with ''&'' (map piece (pairs_of e)) \<and> pairs_of e \<noteq> []
      \<and> (\<forall>p \<in> set (pairs_of e). fst p \<noteq> [] \<and> scalar (snd p))" if "e \<in> set q" for e
    using assms(1) that stringify_pairs [of "snd e" "fst e"] by (cases e) (fastforce simp: plain_query_def)
  have nonempty: "stringify_param e \<noteq> []" if mem: "e \<in> set q" for e
  proof -
    obtain p ps where ps: "pairs_of e = p # ps" using each [OF mem] by (cases "pairs_of e") auto
    have "piece p \<noteq> []" using each [OF mem] ps piece_not_Nil [of "fst p" "snd p"] by simp
    then show ?thesis using each [OF mem] ps by (simp add: join_with_Cons)
  qed
  have "filter (\<lambda>e. e \<noteq> []) (map stringify_param q) = map (join_with ''&'') ?pss"
    using each nonempty by (induction q) auto
  then have j: "join_with ''&'' (filter (\<lambda>e. e \<noteq> []) (map stringify_param q)) = join_with ''&'' (concat ?pss)"
    using each join_join [of ?pss "''&''"] by simp
  have c: "concat ?pss = map piece (concat (map pairs_of q))" by (simp add: map_concat o_def)
  obtain e es where q: "q = e # es" using assms(2) by (cases q) auto
  obtain p ps where ps: "pairs_of e = p # ps" using each [of e] q by (cases "pairs_of e") auto
  have "piece p \<noteq> []" using each [of e] q ps piece_not_Nil [of "fst p" "snd p"] by simp
  then have "join_with ''&'' (concat ?pss) \<noteq> []" using q ps by (simp add: join_with_Cons)
  then have "stringify_query q = CHR ''?'' # join_with ''&'' (map piece (concat (map pairs_of q)))"
    using j c by (simp add: stringify_query_def Let_def)
  moreover have "concat (map pairs_of q) \<noteq> []" using q ps by simp
  moreover have "\<forall>p \<in> set (concat (map pairs_of q)). fst p \<noteq> [] \<and> scalar (snd p)"
    using each by (simp only: set_concat set_map UN_iff ball_simps) blast
  ultimately show ?thesis by blast
qed

text \<open>The query string without its mark, as a location's \<open>query\<close> part has it.\<close>

lemma parse_joined:
  assumes ps: "ps \<noteq> []" "\<forall>p \<in> set ps. fst p \<noteq> [] \<and> scalar (snd p)" and x: "x = [] \<or> x = ''?''"
  shows "parse_query (x @ join_with ''&'' (map piece ps)) = Some (fold (\<lambda>(k, v). add_param k v) ps [])"
proof -
  let ?j = "join_with ''&'' (map piece ps)"
  obtain p qs where pq: "ps = p # qs" using ps(1) by (cases ps) auto
  have "piece p \<noteq> []" using ps(2) pq piece_not_Nil [of "fst p" "snd p"] by simp
  then have jne: "?j \<noteq> []" and hd: "hd ?j \<in> set (piece p)" using pq by (auto simp: join_with_Cons)
  have set: "set ?j \<subseteq> (\<Union>p \<in> set ps. set (piece p)) \<union> {CHR ''&''}"
    using set_join_with [of "''&''" "map piece ps"] by auto
  have ns: "\<not> is_space c" if "c \<in> set ?j" for c
    using that set piece_chars [of c] by (auto simp: is_space_def)
  have "\<not> is_space (CHR ''?'')" by (simp add: is_space_def)
  then have "js_trim (x @ ?j) = x @ ?j"
    using x jne ns [of "hd ?j"] ns [of "last ?j"] by (intro js_trim_id) auto
  moreover have "strip_query_mark (x @ ?j) = ?j"
  proof (cases "x = []")
    case True
    have "hd ?j \<notin> set ''?#&''" using hd piece_chars [of "hd ?j" p] by auto
    then show ?thesis using True jne by (cases ?j) (auto simp: strip_query_mark_def)
  next
    case False
    then show ?thesis using x by (simp add: strip_query_mark_def)
  qed
  moreover have "split_on (CHR ''&'') ?j = map piece ps"
    using ps(1) piece_chars [of "CHR ''&''"] by (intro split_on_join) auto
  ultimately show ?thesis using jne ps(2) by (simp add: parse_query_def parse_pieces)
qed

lemma query_round_trip:
  assumes "plain_query q"
  shows "parse_query (stringify_query q) = Some q" and "parse_query (tl (stringify_query q)) = Some q"
proof -
  have "parse_query (stringify_query q) = Some q \<and> parse_query (tl (stringify_query q)) = Some q"
  proof (cases "q = []")
    case True
    then show ?thesis by (simp add: stringify_query_def parse_query_def strip_query_mark_def js_trim_def strip_left_def
          strip_right_def)
  next
    case False
    note s = stringify_pieces [OF assms False]
    have "fold (\<lambda>(k, v). add_param k v) (concat (map pairs_of q)) [] = q"
      using add_all [of "[]" q] assms by simp
    then show ?thesis using s parse_joined [of "concat (map pairs_of q)" "''?''"] parse_joined [of "concat (map pairs_of q)" "[]"]
      by simp
  qed
  then show "parse_query (stringify_query q) = Some q" and "parse_query (tl (stringify_query q)) = Some q" by simp_all
qed


section \<open>A location written and read again\<close>

lemma stringify_shape:
  assumes "plain_query q"
  shows "stringify_query q = [] \<or> (\<exists>t. stringify_query q = CHR ''?'' # t)" and "CHR ''#'' \<notin> set (stringify_query q)"
proof -
  show "stringify_query q = [] \<or> (\<exists>t. stringify_query q = CHR ''?'' # t)"
    by (simp add: stringify_query_def Let_def)
  show "CHR ''#'' \<notin> set (stringify_query q)"
  proof (cases "q = []")
    case True
    then show ?thesis by (simp add: stringify_query_def)
  next
    case False
    have "CHR ''#'' \<notin> set (join_with ''&'' (map piece ps))" for ps
      using set_join_with [of "''&''" "map piece ps"] piece_chars [of "CHR ''#''"] by fastforce
    then show ?thesis using stringify_pieces [OF assms False] by simp
  qed
qed

lemma takeWhile_all: "c \<notin> set xs \<Longrightarrow> takeWhile (\<lambda>x. x \<noteq> c) xs = xs"
  and dropWhile_all: "c \<notin> set xs \<Longrightarrow> dropWhile (\<lambda>x. x \<noteq> c) xs = []"
  by (induction xs) auto

lemma parse_parts:
  assumes "CHR ''#'' \<notin> set (path @ q)" and "CHR ''?'' \<notin> set path"
    and "q = [] \<or> (\<exists>t. q = CHR ''?'' # t)" and "h = [] \<or> (\<exists>t. h = CHR ''#'' # t)"
  shows "parse_path (path @ q @ h) = \<lparr>pp_path = path, pp_query = tl q, pp_hash = h\<rparr>"
proof -
  have "takeWhile (\<lambda>c. c \<noteq> CHR ''#'') ((path @ q) @ h) = path @ q"
    and "dropWhile (\<lambda>c. c \<noteq> CHR ''#'') ((path @ q) @ h) = h"
    using assms(1,4) takeWhile_sep [of "CHR ''#''" "path @ q"] dropWhile_sep [of "CHR ''#''" "path @ q"]
    by (auto simp: takeWhile_all dropWhile_all simp del: append_assoc)
  moreover have "takeWhile (\<lambda>c. c \<noteq> CHR ''?'') (path @ q) = path"
    and "tl (dropWhile (\<lambda>c. c \<noteq> CHR ''?'') (path @ q)) = tl q"
    using assms(2,3) by (auto simp: takeWhile_all dropWhile_all str_simps)
  ultimately show ?thesis by (simp add: parse_path_def Let_def)
qed

lemma location_round_trip:
  assumes "path \<noteq> []" and "CHR ''?'' \<notin> set path" and "CHR ''#'' \<notin> set path" and "plain_query q"
    and "hash = [] \<or> hd hash = CHR ''#''"
  shows "pp_path (parse_path (full_path path q hash)) = path
    \<and> resolve_query (pp_query (parse_path (full_path path q hash))) [] = q
    \<and> pp_hash (parse_path (full_path path q hash)) = hash"
proof -
  have h: "hash = [] \<or> (\<exists>t. hash = CHR ''#'' # t)" using assms(5) by (cases hash) auto
  have "parse_path (path @ stringify_query q @ hash)
      = \<lparr>pp_path = path, pp_query = tl (stringify_query q), pp_hash = hash\<rparr>"
    using assms(2,3) stringify_shape [OF assms(4)] h by (intro parse_parts) auto
  then show ?thesis
    using assms(1) query_round_trip(2) [OF assms(4)] by (simp add: full_path_def resolve_query_def)
qed

section \<open>Relative paths\<close>

text \<open>The reference: walk from the directories of the base, never above the root.\<close>

definition walk :: "string list \<Rightarrow> string list \<Rightarrow> string list" where
  "walk segs ds = fold resolve_segment segs ds"

definition absolute :: "string list \<Rightarrow> string" where
  "absolute ds = CHR ''/'' # join_with ''/'' ds"

lemma resolve_segment_plain: "s \<noteq> ''..'' \<Longrightarrow> s \<noteq> ''.'' \<Longrightarrow> resolve_segment s r = r @ [s]"
  by (simp add: resolve_segment_def)

text \<open>The segment list with its leading empty segment, which \<open>..\<close> at the root takes away and the
  end of the function puts back.\<close>

definition rooted :: "string list \<Rightarrow> string list \<Rightarrow> bool" where
  "rooted r ds \<longleftrightarrow> r = [] # ds \<or> r = ds"

lemma rooted_step:
  assumes "rooted r ds" and "s \<noteq> []" and "\<forall>d \<in> set ds. d \<noteq> []"
  shows "rooted (resolve_segment s r) (resolve_segment s ds) \<and> (\<forall>d \<in> set (resolve_segment s ds). d \<noteq> [])"
  using assms by (cases "ds = []") (auto simp: rooted_def resolve_segment_def dest: in_set_butlastD)

lemma rooted_walk:
  "rooted r ds \<Longrightarrow> \<forall>s \<in> set segs. s \<noteq> [] \<Longrightarrow> \<forall>d \<in> set ds. d \<noteq> [] \<Longrightarrow>
     rooted (fold resolve_segment segs r) (walk segs ds) \<and> (\<forall>d \<in> set (walk segs ds). d \<noteq> [])"
proof (induction segs arbitrary: r ds)
  case Nil
  then show ?case by (simp add: walk_def)
next
  case (Cons s segs)
  have "s \<noteq> []" using Cons.prems(2) by simp
  note st = rooted_step [OF Cons.prems(1) this Cons.prems(3)]
  from Cons.IH [OF conjunct1 [OF st] _ conjunct2 [OF st]] Cons.prems(2) show ?case by (simp add: walk_def)
qed

text \<open>A relative path of plain segments, against a base of directories and a last part.\<close>

definition relative_to :: "string \<Rightarrow> string list \<Rightarrow> string \<Rightarrow> string list \<Rightarrow> bool" where
  "relative_to e segs t ds \<longleftrightarrow>
     e = join_with ''/'' segs \<and> segs \<noteq> [] \<and> (\<forall>s \<in> set segs. s \<noteq> [] \<and> CHR ''/'' \<notin> set s) \<and> hd e \<notin> set ''?#''
     \<and> (\<exists>f. t = absolute (ds @ [f]) \<and> CHR ''/'' \<notin> set f) \<and> (\<forall>d \<in> set ds. d \<noteq> [] \<and> CHR ''/'' \<notin> set d)"

lemma resolve_path_relative:
  assumes "relative_to e segs t ds"
  shows "resolve_path e t False = join_with ''/''
     (let r = fold resolve_segment segs ([] # ds) in if r \<noteq> [] \<and> hd r = [] then r else [] # r)"
    and "rooted (fold resolve_segment segs ([] # ds)) (walk segs ds) \<and> (\<forall>d \<in> set (walk segs ds). d \<noteq> [])"
proof -
  note r = assms [unfolded relative_to_def]
  obtain f where f: "t = absolute (ds @ [f])" "CHR ''/'' \<notin> set f" using r by blast
  have t: "t = join_with ''/'' ([] # ds @ [f])" using f(1) by (simp add: absolute_def join_with_Cons)
  have "split_on (CHR ''/'') t = [] # ds @ [f]" unfolding t using f(2) r by (intro split_on_join) auto
  then have base: "butlast (split_on (CHR ''/'') t) = [] # ds" by simp
  have e: "e = join_with ''/'' segs" and hq: "hd e \<notin> set ''?#''" using r by blast+
  have segs: "split_on (CHR ''/'') e = segs" unfolding e using r by (intro split_on_join) auto
  obtain s ss where ss: "segs = s # ss" "s \<noteq> []" using r by (cases segs) auto
  then have "e \<noteq> []" and "hd e \<in> set s" using r by (auto simp: join_with_Cons)
  then have "hd e \<noteq> CHR ''/''" using r ss by auto
  then show "resolve_path e t False = join_with ''/''
     (let r = fold resolve_segment segs ([] # ds) in if r \<noteq> [] \<and> hd r = [] then r else [] # r)"
    using hq base segs \<open>e \<noteq> []\<close> by (simp add: resolve_path_def Let_def)
  show "rooted (fold resolve_segment segs ([] # ds)) (walk segs ds) \<and> (\<forall>d \<in> set (walk segs ds). d \<noteq> [])"
    using r by (intro rooted_walk) (auto simp: rooted_def)
qed

lemma resolve_relative:
  assumes "relative_to e segs t ds"
  shows "resolve_path e t False = (if walk segs ds = [] then [] else absolute (walk segs ds))"
proof (cases "walk segs ds = []")
  case True
  then show ?thesis using resolve_path_relative [OF assms] by (auto simp: rooted_def)
next
  case False
  then have "(let r = fold resolve_segment segs ([] # ds) in if r \<noteq> [] \<and> hd r = [] then r else [] # r) = [] # walk segs ds"
    using resolve_path_relative(2) [OF assms] by (auto simp: rooted_def Let_def)
  then show ?thesis using False resolve_path_relative(1) [OF assms] by (simp add: absolute_def join_with_Cons)
qed

lemma walk_no_dots:
  "\<forall>d \<in> set ds. d \<noteq> ''..'' \<and> d \<noteq> ''.'' \<Longrightarrow> \<forall>d \<in> set (walk segs ds). d \<noteq> ''..'' \<and> d \<noteq> ''.''"
proof (induction segs arbitrary: ds)
  case Nil
  then show ?case by (simp add: walk_def)
next
  case (Cons s segs)
  have "\<forall>d \<in> set (resolve_segment s ds). d \<noteq> ''..'' \<and> d \<noteq> ''.''"
    using Cons.prems by (auto simp: resolve_segment_def dest: in_set_butlastD)
  then show ?case using Cons.IH by (simp add: walk_def)
qed


section \<open>When two queries are the same\<close>

text \<open>\<open>k\<close> compares the printed values, so it takes an absent entry for the text \<open>undefined\<close>. On
  queries of other texts it is equality of the lookups.\<close>

definition text_query :: "jv obj \<Rightarrow> bool" where
  "text_query q \<longleftrightarrow> distinct (okeys q) \<and> (\<forall>(k, v) \<in> set q. \<exists>s. v = Str s \<and> s \<noteq> ''undefined'')"

lemma obj_equal_texts:
  assumes q: "text_query q" and r: "text_query r"
  shows "obj_equal (Obj q) (Obj r) \<longleftrightarrow> length q = length r \<and> (\<forall>(k, v) \<in> set q. oget r k = Some v)"
proof -
  have "(let i = snd p; x = getp r (fst p) in
           if typeof_object i \<and> typeof_object x then obj_equal i x else js_string i = js_string x)
         \<longleftrightarrow> oget r (fst p) = Some (snd p)" if p: "p \<in> set q" for p
  proof -
    obtain s where s: "snd p = Str s" "s \<noteq> ''undefined''" using q p by (fastforce simp: text_query_def)
    show ?thesis
    proof (cases "oget r (fst p)")
      case None
      then show ?thesis using s by (simp add: Let_def)
    next
      case (Some v)
      then have "(fst p, v) \<in> set r" by (rule map_of_SomeD)
      then obtain t where "v = Str t" using r by (fastforce simp: text_query_def)
      then show ?thesis using s Some by (auto simp: Let_def)
    qed
  qed
  then show ?thesis by (subst obj_equal.simps) (auto simp: case_prod_beta)
qed

lemma same_length_keys:
  assumes "distinct (okeys q)" and "distinct (okeys r)" and "length q = length r"
    and "set (okeys q) \<subseteq> set (okeys r)"
  shows "set (okeys q) = set (okeys r)"
proof (rule card_subset_eq)
  show "card (set (okeys q)) = card (set (okeys r))"
    using assms(1-3) distinct_card [of "okeys q"] distinct_card [of "okeys r"] by simp
qed (use assms(4) in simp_all)

lemma obj_equal_lookups:
  assumes q: "text_query q" and r: "text_query r"
  shows "obj_equal (Obj q) (Obj r) \<longleftrightarrow> (\<forall>k. oget q k = oget r k)"
proof
  have dq: "distinct (okeys q)" and dr: "distinct (okeys r)" using q r by (simp_all add: text_query_def)
  {
    assume "obj_equal (Obj q) (Obj r)"
    then have l: "length q = length r" and a: "\<forall>(k, v) \<in> set q. oget r k = Some v"
      using obj_equal_texts [OF q r] by simp_all
    have "set (okeys q) \<subseteq> set (okeys r)"
    proof
      fix k assume "k \<in> set (okeys q)"
      then obtain v where "(k, v) \<in> set q" by auto
      then have "oget r k = Some v" using a by blast
      then show "k \<in> set (okeys r)" by (metis map_of_eq_None_iff option.distinct(1) set_map)
    qed
    then have keys: "set (okeys q) = set (okeys r)" by (rule same_length_keys [OF dq dr l])
    show "\<forall>k. oget q k = oget r k"
    proof
      fix k
      show "oget q k = oget r k"
      proof (cases "oget q k")
        case None
        then show ?thesis using keys by (metis map_of_eq_None_iff set_map)
      next
        case (Some v)
        then show ?thesis using a by (fastforce dest: map_of_SomeD)
      qed
    qed
  }
  assume e: "\<forall>k. oget q k = oget r k"
  have "set q = set r"
    using e dq dr by (metis map_of_inject_set ext)
  then have "length q = length r"
    using distinct_card [of "okeys q"] distinct_card [of "okeys r"] dq dr by (metis length_map set_map)
  moreover have "\<forall>(k, v) \<in> set q. oget r k = Some v" using e dq by auto (metis map_of_is_SomeI)
  ultimately show "obj_equal (Obj q) (Obj r)" using obj_equal_texts [OF q r] by simp
qed

section \<open>Different queries have different texts\<close>

interpretation component: codec "\<lambda>_. True" router_encode decode_uri_component
  by unfold_locales (rule decode_router)

interpretation query: codec plain_query stringify_query parse_query
  by unfold_locales (rule query_round_trip(1))

lemma full_path_inj:
  assumes "plain_query q" and "plain_query r"
  shows "full_path p q h = full_path p r h \<longleftrightarrow> q = r"
  using query.emit_inj [OF assms] by (simp add: full_path_def)

end
