(* ===== verification/RouterNav.thy ===== *)
theory RouterNav
  imports RouterUrl
begin

text \<open>
  Navigation in vue-router 3.1.3 (\<open>chunk-vendors.ddcb6f91.js\<close>, module \<open>8c4f\<close>): \<open>Ue\<close>
  (resolveQueue), \<open>Ae\<close> (runQueue), the guard extraction of \<open>Ye\<close>, and \<open>confirmTransition\<close> with
  \<open>transitionTo\<close>, as a state machine. Guards are asynchronous: a navigation waits at a guard until
  the guard calls \<open>next\<close>, and meanwhile other navigations start. Route objects are fresh for each
  navigation, so the comparison \<open>a.pending !== e\<close> compares navigation numbers. A guard calls
  \<open>next\<close> once. The second part is the stack of the abstract history \<open>ut\<close>.
\<close>

section \<open>Queues\<close>

text \<open>\<open>Ue(e, t)\<close>: the length of the common prefix, found by the loop.\<close>

fun common_prefix :: "nat list \<Rightarrow> nat list \<Rightarrow> nat" where
  "common_prefix (x # e) (y # t) = (if x = y then Suc (common_prefix e t) else 0)"
| "common_prefix _ _ = 0"

record queues =
  updated :: "nat list"
  activated :: "nat list"
  deactivated :: "nat list"

definition resolve_queue :: "nat list \<Rightarrow> nat list \<Rightarrow> queues" where
  "resolve_queue e t =
     (let n = common_prefix e t in \<lparr>updated = take n t, activated = drop n t, deactivated = drop n e\<rparr>)"

lemma common_prefix_le: "common_prefix e t \<le> length e" "common_prefix e t \<le> length t"
  by (induction e t rule: common_prefix.induct) auto

lemma common_prefix_take: "take (common_prefix e t) e = take (common_prefix e t) t"
  by (induction e t rule: common_prefix.induct) auto

lemma common_prefix_differ:
  "common_prefix e t < length e \<Longrightarrow> common_prefix e t < length t \<Longrightarrow> e ! common_prefix e t \<noteq> t ! common_prefix e t"
  by (induction e t rule: common_prefix.induct) auto

lemma common_prefix_split:
  "(A \<noteq> [] \<Longrightarrow> B \<noteq> [] \<Longrightarrow> hd A \<noteq> hd B) \<Longrightarrow> common_prefix (S @ A) (S @ B) = length S"
proof (induction S)
  case Nil
  then show ?case by (cases A; cases B) auto
qed simp

lemma resolve_queue_split:
  "(A \<noteq> [] \<Longrightarrow> B \<noteq> [] \<Longrightarrow> hd A \<noteq> hd B) \<Longrightarrow>
     resolve_queue (S @ A) (S @ B) = \<lparr>updated = S, activated = B, deactivated = A\<rparr>"
  by (simp add: resolve_queue_def Let_def common_prefix_split)

lemma resolve_queue_spec:
  "e = updated (resolve_queue e t) @ deactivated (resolve_queue e t)"
  "t = updated (resolve_queue e t) @ activated (resolve_queue e t)"
  "deactivated (resolve_queue e t) \<noteq> [] \<Longrightarrow> activated (resolve_queue e t) \<noteq> [] \<Longrightarrow>
     hd (deactivated (resolve_queue e t)) \<noteq> hd (activated (resolve_queue e t))"
proof -
  show "e = updated (resolve_queue e t) @ deactivated (resolve_queue e t)"
    by (simp add: resolve_queue_def Let_def common_prefix_take [symmetric])
  show "t = updated (resolve_queue e t) @ activated (resolve_queue e t)"
    by (simp add: resolve_queue_def Let_def)
  assume "deactivated (resolve_queue e t) \<noteq> []" and "activated (resolve_queue e t) \<noteq> []"
  then show "hd (deactivated (resolve_queue e t)) \<noteq> hd (activated (resolve_queue e t))"
    using common_prefix_differ [of e t]
    by (simp add: resolve_queue_def Let_def hd_drop_conv_nth)
qed

text \<open>The guards: of the components of a record (each component gives one guard or an array), of
  a record's definition, and of the router. A guard is named by where it comes from.\<close>

datatype guard =
    Leave nat
  | BeforeEach nat
  | Update nat
  | BeforeEnter nat
  | AsyncComponents
  | Enter nat
  | BeforeResolve nat

record guard_table =
  leave_of :: "nat \<Rightarrow> nat list list"
  update_of :: "nat \<Rightarrow> nat list list"
  enter_of :: "nat \<Rightarrow> nat list list"
  before_enter_of :: "nat \<Rightarrow> nat option"
  before_hooks :: "nat list"
  resolve_hooks :: "nat list"

text \<open>\<open>Ye\<close> flattens; for leave guards the components come in reverse order.\<close>

definition extract_guards :: "(nat \<Rightarrow> nat list list) \<Rightarrow> bool \<Rightarrow> nat list \<Rightarrow> nat list" where
  "extract_guards f backwards es =
     (let r = concat (map f es) in concat (if backwards then rev r else r))"

definition first_queue :: "guard_table \<Rightarrow> queues \<Rightarrow> guard list" where
  "first_queue gt q =
     map Leave (extract_guards (leave_of gt) True (deactivated q))
     @ map BeforeEach (before_hooks gt)
     @ map Update (extract_guards (update_of gt) False (updated q))
     @ concat (map (\<lambda>r. case before_enter_of gt r of None \<Rightarrow> [] | Some g \<Rightarrow> [BeforeEnter g]) (activated q))
     @ [AsyncComponents]"

definition second_queue :: "guard_table \<Rightarrow> queues \<Rightarrow> guard list" where
  "second_queue gt q =
     map Enter (extract_guards (enter_of gt) False (activated q)) @ map BeforeResolve (resolve_hooks gt)"

section \<open>Navigations\<close>

datatype stage = First | Second

record navigation =
  nv_target :: route
  nv_queues :: queues
  nv_todo :: "guard list"
  nv_stage :: stage

datatype ending = Completed | Cancelled | Duplicated

record nav_state =
  current :: route
  pending :: "nat option"
  waiting :: "nat \<rightharpoonup> navigation"
  next_nav :: nat
  endings :: "(nat \<times> ending) list"
  calls :: "(nat \<times> guard) list"

text \<open>\<open>p\<close> before it calls a guard, and the end of the second queue.\<close>

definition call_guard :: "nat \<Rightarrow> navigation \<Rightarrow> nav_state \<Rightarrow> nav_state" where
  "call_guard k nv h =
     (if pending h \<noteq> Some k then h\<lparr>waiting := (waiting h)(k := None), endings := endings h @ [(k, Cancelled)]\<rparr>
      else h\<lparr>waiting := (waiting h)(k \<mapsto> nv), calls := calls h @ [(k, hd (nv_todo nv))]\<rparr>)"

definition finish_nav :: "nat \<Rightarrow> navigation \<Rightarrow> nav_state \<Rightarrow> nav_state" where
  "finish_nav k nv h =
     (if pending h \<noteq> Some k then h\<lparr>waiting := (waiting h)(k := None), endings := endings h @ [(k, Cancelled)]\<rparr>
      else h\<lparr>waiting := (waiting h)(k := None), pending := None, current := nv_target nv,
             endings := endings h @ [(k, Completed)]\<rparr>)"

text \<open>\<open>Ae\<close> on what is left of the queue; the first queue's end starts the second.\<close>

definition advance :: "guard_table \<Rightarrow> nat \<Rightarrow> navigation \<Rightarrow> nav_state \<Rightarrow> nav_state" where
  "advance gt k nv h =
     (if nv_todo nv \<noteq> [] then call_guard k nv h
      else
        (case nv_stage nv of
           Second \<Rightarrow> finish_nav k nv h
         | First \<Rightarrow>
             (let nv2 = nv\<lparr>nv_todo := second_queue gt (nv_queues nv), nv_stage := Second\<rparr> in
              if nv_todo nv2 \<noteq> [] then call_guard k nv2 h else finish_nav k nv2 h)))"

text \<open>\<open>confirmTransition(e)\<close> for the matched route \<open>e\<close>.\<close>

definition confirm :: "guard_table \<Rightarrow> route \<Rightarrow> nav_state \<Rightarrow> nav_state" where
  "confirm gt e h =
     (let k = next_nav h; h1 = h\<lparr>next_nav := Suc k\<rparr>; s = current h in
      if is_same_route e s \<and> length (rt_matched e) = length (rt_matched s)
      then h1\<lparr>endings := endings h1 @ [(k, Duplicated)]\<rparr>
      else
        let q = resolve_queue (rt_matched s) (rt_matched e);
            nv = \<lparr>nv_target = e, nv_queues = q, nv_todo = first_queue gt q, nv_stage = First\<rparr>
        in advance gt k nv (h1\<lparr>pending := Some k\<rparr>))"

text \<open>What a guard calls \<open>next\<close> with: nothing, \<open>false\<close> or an error (as a thrown one), or another
  location, which the router matches.\<close>

datatype verdict = Proceed | Abort | Redirect route

definition guard_next :: "guard_table \<Rightarrow> nat \<Rightarrow> verdict \<Rightarrow> nav_state \<Rightarrow> nav_state option" where
  "guard_next gt k v h =
     (case waiting h k of
        None \<Rightarrow> None
      | Some nv \<Rightarrow>
          let h0 = h\<lparr>waiting := (waiting h)(k := None)\<rparr>;
              h1 = h0\<lparr>endings := endings h0 @ [(k, Cancelled)]\<rparr>
          in Some (case v of
                     Proceed \<Rightarrow> advance gt k (nv\<lparr>nv_todo := tl (nv_todo nv)\<rparr>) h0
                   | Abort \<Rightarrow> h1
                   | Redirect r \<Rightarrow> confirm gt r h1))"

datatype nav_event = Navigate route | Next nat verdict

fun nav_step :: "guard_table \<Rightarrow> nav_event \<Rightarrow> nav_state \<Rightarrow> nav_state option" where
  "nav_step gt (Navigate r) h = Some (confirm gt r h)"
| "nav_step gt (Next k v) h = guard_next gt k v h"

fun nav_run :: "guard_table \<Rightarrow> nav_event list \<Rightarrow> nav_state \<Rightarrow> nav_state option" where
  "nav_run gt [] h = Some h"
| "nav_run gt (ev # evs) h = Option.bind (nav_step gt ev h) (nav_run gt evs)"

definition start_route :: route where
  "start_route = \<lparr>rt_start = True, rt_name = [], rt_path = ''/'', rt_hash = [], rt_query = [], rt_params = [],
     rt_matched = []\<rparr>"

definition nav_init :: nav_state where
  "nav_init = \<lparr>current = start_route, pending = None, waiting = Map.empty, next_nav = 0, endings = [], calls = []\<rparr>"

inductive nav_reachable :: "guard_table \<Rightarrow> nav_state \<Rightarrow> bool" for gt where
  nav_start: "nav_reachable gt nav_init"
| nav_next: "nav_reachable gt h \<Longrightarrow> nav_step gt ev h = Some h' \<Longrightarrow> nav_reachable gt h'"

section \<open>What every run keeps\<close>

text \<open>Each navigation waits at a guard or has ended, once; the pending one is not over.\<close>

definition nav_ok :: "nav_state \<Rightarrow> bool" where
  "nav_ok h \<longleftrightarrow>
     distinct (map fst (endings h)) \<and>
     set (map fst (endings h)) \<inter> dom (waiting h) = {} \<and>
     set (map fst (endings h)) \<union> dom (waiting h) = {..<next_nav h} \<and>
     (\<forall>k. pending h = Some k \<longrightarrow> k < next_nav h \<and> (k, Completed) \<notin> set (endings h)) \<and>
     (\<forall>k nv. waiting h k = Some nv \<longrightarrow> nv_todo nv \<noteq> [])"


text \<open>The same inside a step, while navigation \<open>k\<close> is in neither place.\<close>

definition nav_open :: "nat \<Rightarrow> nav_state \<Rightarrow> bool" where
  "nav_open k h \<longleftrightarrow>
     k < next_nav h \<and> k \<notin> set (map fst (endings h)) \<and> k \<notin> dom (waiting h) \<and>
     distinct (map fst (endings h)) \<and>
     set (map fst (endings h)) \<inter> dom (waiting h) = {} \<and>
     set (map fst (endings h)) \<union> dom (waiting h) = {..<next_nav h} - {k} \<and>
     (\<forall>j. pending h = Some j \<longrightarrow> j < next_nav h \<and> (j, Completed) \<notin> set (endings h)) \<and>
     (\<forall>j nv. waiting h j = Some nv \<longrightarrow> nv_todo nv \<noteq> [])"

lemma fst_endings: "(k, x) \<in> set es \<Longrightarrow> k \<in> set (map fst es)"
  by force

lemma nav_open_close:
  assumes "nav_open k h" and "x = Completed \<longrightarrow> p = None" and "p = None \<or> p = pending h"
  shows "nav_ok (h\<lparr>waiting := (waiting h)(k := None), pending := p, current := c, endings := endings h @ [(k, x)]\<rparr>)"
proof -
  have w: "(waiting h)(k := None) = waiting h" using assms(1) by (auto simp: nav_open_def)
  show ?thesis
    unfolding nav_ok_def nav_state.simps nav_state.update_convs w
    using assms by (auto simp: nav_open_def)
qed

lemma nav_open_cancel:
  "nav_open k h \<Longrightarrow> nav_ok (h\<lparr>waiting := (waiting h)(k := None), endings := endings h @ [(k, Cancelled)]\<rparr>)"
  using nav_open_close [of k h Cancelled "pending h" "current h"] by simp

lemma call_guard_ok:
  assumes "nav_open k h" and "nv_todo nv \<noteq> []"
  shows "nav_ok (call_guard k nv h)"
proof (cases "pending h = Some k")
  case False
  then show ?thesis using nav_open_cancel [OF assms(1)] by (simp add: call_guard_def)
next
  case True
  then show ?thesis using assms by (auto simp: call_guard_def nav_ok_def nav_open_def)
qed

lemma finish_nav_ok:
  assumes "nav_open k h"
  shows "nav_ok (finish_nav k nv h)"
proof (cases "pending h = Some k")
  case False
  then show ?thesis using nav_open_cancel [OF assms] by (simp add: finish_nav_def)
next
  case True
  then show ?thesis
    using nav_open_close [OF assms, of Completed None "nv_target nv"]
    by (simp add: finish_nav_def)
qed

lemma advance_ok: "nav_open k h \<Longrightarrow> nav_ok (advance gt k nv h)"
  by (auto simp: advance_def Let_def intro: call_guard_ok finish_nav_ok split: stage.splits)

lemma confirm_ok: "nav_ok h \<Longrightarrow> nav_ok (confirm gt e h)"
proof -
  assume h: "nav_ok h"
  let ?k = "next_nav h"
  have k: "?k \<notin> set (map fst (endings h))" "?k \<notin> dom (waiting h)" using h by (auto simp: nav_ok_def)
  have "nav_ok (h\<lparr>next_nav := Suc ?k, endings := endings h @ [(?k, Duplicated)]\<rparr>)"
    using h k by (auto simp: nav_ok_def lessThan_Suc)
  moreover have "nav_open ?k (h\<lparr>next_nav := Suc ?k, pending := Some ?k\<rparr>)"
    using h k fst_endings [of ?k Completed "endings h"] by (auto simp: nav_ok_def nav_open_def lessThan_Suc)
  ultimately show ?thesis by (simp add: confirm_def Let_def advance_ok)
qed

lemma waiting_open:
  assumes "nav_ok h" and "waiting h k = Some nv"
  shows "nav_open k (h\<lparr>waiting := (waiting h)(k := None)\<rparr>)"
  using assms by (auto simp: nav_ok_def nav_open_def)

lemma nav_step_ok: "nav_ok h \<Longrightarrow> nav_step gt ev h = Some h' \<Longrightarrow> nav_ok h'"
proof (cases ev)
  case (Navigate r)
  then show "nav_ok h \<Longrightarrow> nav_step gt ev h = Some h' \<Longrightarrow> nav_ok h'" using confirm_ok by auto
next
  case (Next k v)
  assume h: "nav_ok h" and s: "nav_step gt ev h = Some h'"
  then obtain nv where nv: "waiting h k = Some nv" using Next by (auto simp: guard_next_def split: option.splits)
  note o = waiting_open [OF h nv]
  have c: "nav_ok (h\<lparr>waiting := (waiting h)(k := None), endings := endings h @ [(k, Cancelled)]\<rparr>)"
    using nav_open_cancel [OF o] by simp
  show "nav_ok h'"
    using s Next nv advance_ok [OF o] c confirm_ok [OF c]
    by (auto simp: guard_next_def Let_def split: verdict.splits)
qed

lemma nav_reachable_ok: "nav_reachable gt h \<Longrightarrow> nav_ok h"
proof (induction rule: nav_reachable.induct)
  case nav_start
  then show ?case by (simp add: nav_ok_def nav_init_def)
next
  case (nav_next h ev h')
  then show ?case using nav_step_ok by blast
qed

section \<open>Only the pending navigation completes\<close>

lemma first_queue_not_Nil: "first_queue gt q \<noteq> []"
  by (simp add: first_queue_def)

lemma call_guard_fields:
  "current (call_guard k nv h) = current h" "pending (call_guard k nv h) = pending h"
  "next_nav (call_guard k nv h) = next_nav h"
  "(j, Completed) \<in> set (endings (call_guard k nv h)) \<longleftrightarrow> (j, Completed) \<in> set (endings h)"
  by (auto simp: call_guard_def)

lemma confirm_fields:
  "current (confirm gt e h) = current h" "next_nav (confirm gt e h) = Suc (next_nav h)"
  "pending (confirm gt e h) = pending h \<or> pending (confirm gt e h) = Some (next_nav h)"
  "(j, Completed) \<in> set (endings (confirm gt e h)) \<longleftrightarrow> (j, Completed) \<in> set (endings h)"
  by (auto simp: confirm_def Let_def advance_def first_queue_not_Nil call_guard_fields)

lemma advance_completes:
  assumes "nav_open k h"
  shows "(\<forall>j. (j, Completed) \<in> set (endings (advance gt k nv h)) \<longleftrightarrow> (j, Completed) \<in> set (endings h))
      \<and> current (advance gt k nv h) = current h \<and> pending (advance gt k nv h) = pending h
    \<or> pending h = Some k \<and> endings (advance gt k nv h) = endings h @ [(k, Completed)]
      \<and> current (advance gt k nv h) = nv_target nv \<and> pending (advance gt k nv h) = None"
  by (auto simp: advance_def finish_nav_def call_guard_fields Let_def split: stage.splits)

text \<open>A step leaves the current route alone, or completes the pending navigation.\<close>

lemma nav_step_current:
  assumes h: "nav_ok h" and s: "nav_step gt ev h = Some h'"
  shows "(\<forall>j. (j, Completed) \<in> set (endings h') \<longleftrightarrow> (j, Completed) \<in> set (endings h)) \<and> current h' = current h
      \<and> (pending h' = pending h \<or> pending h' = Some (next_nav h))
    \<or> (\<exists>k nv. pending h = Some k \<and> waiting h k = Some nv \<and> ev = Next k Proceed
        \<and> endings h' = endings h @ [(k, Completed)] \<and> current h' = nv_target nv \<and> pending h' = None)"
proof (cases ev)
  case (Navigate r)
  then have "h' = confirm gt r h" using s by simp
  then show ?thesis using confirm_fields [where gt = gt and e = r and h = h] by simp
next
  case (Next k v)
  then obtain nv where nv: "waiting h k = Some nv" using s by (auto simp: guard_next_def split: option.splits)
  let ?h0 = "h\<lparr>waiting := (waiting h)(k := None)\<rparr>"
  show ?thesis
  proof (cases v)
    case Proceed
    then have "h' = advance gt k (nv\<lparr>nv_todo := tl (nv_todo nv)\<rparr>) ?h0"
      using s Next nv by (simp add: guard_next_def Let_def)
    then show ?thesis
      using advance_completes [OF waiting_open [OF h nv], of gt "nv\<lparr>nv_todo := tl (nv_todo nv)\<rparr>"] Next Proceed nv
      by auto
  next
    case Abort
    then show ?thesis using s Next nv by (auto simp: guard_next_def Let_def)
  next
    case (Redirect r)
    then have "h' = confirm gt r (?h0\<lparr>endings := endings ?h0 @ [(k, Cancelled)]\<rparr>)"
      using s Next nv by (simp add: guard_next_def Let_def)
    then show ?thesis
      using confirm_fields [where gt = gt and e = r and h = "?h0\<lparr>endings := endings ?h0 @ [(k, Cancelled)]\<rparr>"]
      by auto
  qed
qed

lemma nav_step_next: "nav_step gt ev h = Some h' \<Longrightarrow> next_nav h \<le> next_nav h'"
proof -
  have a: "next_nav (advance gt k nv x) = next_nav x" for k nv x
    by (simp add: advance_def call_guard_def finish_nav_def Let_def split: stage.splits)
  show "nav_step gt ev h = Some h' \<Longrightarrow> next_nav h \<le> next_nav h'"
    by (cases ev) (auto simp: guard_next_def confirm_fields a Let_def split: option.splits verdict.splits)
qed

text \<open>A navigation that is no longer pending never completes.\<close>

lemma superseded_never_completes:
  assumes "nav_ok h" and "k < next_nav h" and "pending h \<noteq> Some k" and "(k, Completed) \<notin> set (endings h)"
    and "nav_run gt evs h = Some h'"
  shows "(k, Completed) \<notin> set (endings h')"
  using assms
proof (induction evs arbitrary: h)
  case Nil
  then show ?case by simp
next
  case (Cons ev evs)
  then obtain h1 where h1: "nav_step gt ev h = Some h1" "nav_run gt evs h1 = Some h'" by (auto split: bind_splits)
  have "nav_ok h1" by (rule nav_step_ok [OF Cons.prems(1) h1(1)])
  moreover have "k < next_nav h1" using nav_step_next [OF h1(1)] Cons.prems(2) by simp
  moreover have "pending h1 \<noteq> Some k \<and> (k, Completed) \<notin> set (endings h1)"
    using nav_step_current [OF Cons.prems(1) h1(1)] Cons.prems(2-4) by auto
  ultimately show ?case using Cons.IH h1(2) by blast
qed


section \<open>An undisturbed navigation\<close>

lemma call_guard_pending:
  "pending h = Some k \<Longrightarrow> call_guard k nv h = h\<lparr>waiting := (waiting h)(k \<mapsto> nv), calls := calls h @ [(k, hd (nv_todo nv))]\<rparr>"
  by (simp add: call_guard_def)

lemma finish_nav_pending:
  "pending h = Some k \<Longrightarrow> finish_nav k nv h =
     h\<lparr>waiting := (waiting h)(k := None), pending := None, current := nv_target nv, endings := endings h @ [(k, Completed)]\<rparr>"
  by (simp add: finish_nav_def)

text \<open>Guards still to be called, the current one included.\<close>

definition guards_left :: "guard_table \<Rightarrow> navigation \<Rightarrow> guard list" where
  "guards_left gt nv =
     nv_todo nv @ (case nv_stage nv of First \<Rightarrow> second_queue gt (nv_queues nv) | Second \<Rightarrow> [])"

lemma proceed_all:
  assumes "pending h = Some k" and "waiting h k = Some nv" and "nv_todo nv \<noteq> []"
  shows "nav_run gt (replicate (length (guards_left gt nv)) (Next k Proceed)) h
     = Some (h\<lparr>waiting := (waiting h)(k := None), pending := None, current := nv_target nv,
              endings := endings h @ [(k, Completed)], calls := calls h @ map (Pair k) (tl (guards_left gt nv))\<rparr>)"
  using assms
proof (induction "length (guards_left gt nv)" arbitrary: h nv)
  case 0
  then show ?case by (simp add: guards_left_def)
next
  case (Suc n)
  let ?nv1 = "nv\<lparr>nv_todo := tl (nv_todo nv)\<rparr>" and ?h0 = "h\<lparr>waiting := (waiting h)(k := None)\<rparr>"
  have step: "nav_step gt (Next k Proceed) h = Some (advance gt k ?nv1 ?h0)"
    using Suc.prems(2) by (simp add: guard_next_def Let_def)
  have p0: "pending ?h0 = Some k" using Suc.prems(1) by simp
  have left: "guards_left gt nv = hd (nv_todo nv) # guards_left gt ?nv1"
    using Suc.prems(3) by (cases "nv_todo nv") (auto simp: guards_left_def split: stage.splits)
  have n: "n = length (guards_left gt ?nv1)" using Suc.hyps(2) left by simp
  have run: "nav_run gt (replicate (length (guards_left gt nv)) (Next k Proceed)) h
      = nav_run gt (replicate n (Next k Proceed)) (advance gt k ?nv1 ?h0)"
    using Suc.hyps(2) [symmetric] step by simp
  let ?nv2 = "?nv1\<lparr>nv_todo := second_queue gt (nv_queues nv), nv_stage := Second\<rparr>"
  consider (call) "nv_todo ?nv1 \<noteq> []"
    | (turn) "nv_todo ?nv1 = []" "nv_stage nv = First" "second_queue gt (nv_queues nv) \<noteq> []"
    | (over) "guards_left gt ?nv1 = []"
    by (cases "nv_stage nv") (auto simp: guards_left_def)
  then show ?case
  proof cases
    case call
    let ?h1 = "?h0\<lparr>waiting := (waiting ?h0)(k \<mapsto> ?nv1), calls := calls ?h0 @ [(k, hd (nv_todo ?nv1))]\<rparr>"
    have "advance gt k ?nv1 ?h0 = ?h1" using call p0 by (simp add: advance_def call_guard_pending)
    moreover have "guards_left gt ?nv1 = hd (nv_todo ?nv1) # tl (guards_left gt ?nv1)"
      using call by (cases "tl (nv_todo nv)") (auto simp: guards_left_def)
    ultimately show ?thesis
      using Suc.hyps(1) [OF n, of ?h1] call p0 run n left by (simp add: fun_upd_idem_iff)
        (metis append_Cons append_Nil list.simps(9))
  next
    case turn
    let ?h1 = "?h0\<lparr>waiting := (waiting ?h0)(k \<mapsto> ?nv2), calls := calls ?h0 @ [(k, hd (nv_todo ?nv2))]\<rparr>"
    have "advance gt k ?nv1 ?h0 = ?h1" using turn p0 by (simp add: advance_def call_guard_pending Let_def)
    moreover have g: "guards_left gt ?nv1 = guards_left gt ?nv2" "guards_left gt ?nv2 = hd (nv_todo ?nv2) # tl (guards_left gt ?nv2)"
      using turn by (simp_all add: guards_left_def)
    ultimately show ?thesis
      using Suc.hyps(1) [of ?nv2 ?h1] turn p0 run n left g by simp
        (metis append_Cons append_Nil list.simps(9))
  next
    case over
    then have "advance gt k ?nv1 ?h0 = finish_nav k ?nv1 ?h0 \<or> advance gt k ?nv1 ?h0 = finish_nav k ?nv2 ?h0"
      by (auto simp: advance_def guards_left_def Let_def split: stage.splits)
    then show ?thesis using run n over left p0 by (auto simp: finish_nav_pending)
  qed
qed


lemma undisturbed:
  assumes h: "nav_ok h" and d: "\<not> (is_same_route r (current h) \<and> length (rt_matched r) = length (rt_matched (current h)))"
  shows "nav_run gt (Navigate r # replicate
        (length (first_queue gt (resolve_queue (rt_matched (current h)) (rt_matched r))
               @ second_queue gt (resolve_queue (rt_matched (current h)) (rt_matched r))))
        (Next (next_nav h) Proceed)) h
     = Some (h\<lparr>next_nav := Suc (next_nav h), pending := None, current := r,
          endings := endings h @ [(next_nav h, Completed)],
          calls := calls h @ map (Pair (next_nav h))
            (first_queue gt (resolve_queue (rt_matched (current h)) (rt_matched r))
             @ second_queue gt (resolve_queue (rt_matched (current h)) (rt_matched r)))\<rparr>)"
proof -
  let ?k = "next_nav h" and ?q = "resolve_queue (rt_matched (current h)) (rt_matched r)"
  let ?nv = "\<lparr>nv_target = r, nv_queues = ?q, nv_todo = first_queue gt ?q, nv_stage = First\<rparr>"
  let ?h1 = "h\<lparr>next_nav := Suc ?k, pending := Some ?k\<rparr>"
  let ?h2 = "?h1\<lparr>waiting := (waiting ?h1)(?k \<mapsto> ?nv), calls := calls ?h1 @ [(?k, hd (nv_todo ?nv))]\<rparr>"
  have c: "confirm gt r h = ?h2"
    using d by (auto simp: confirm_def advance_def first_queue_not_Nil call_guard_pending Let_def)
  have g: "guards_left gt ?nv = first_queue gt ?q @ second_queue gt ?q" by (simp add: guards_left_def)
  have "?k \<notin> dom (waiting h)" using h by (auto simp: nav_ok_def)
  then have w: "(waiting h)(?k := None) = waiting h" by (auto simp: fun_upd_idem_iff)
  have t: "map (Pair ?k) (first_queue gt ?q @ second_queue gt ?q)
      = (?k, hd (first_queue gt ?q)) # map (Pair ?k) (tl (first_queue gt ?q @ second_queue gt ?q))"
    using first_queue_not_Nil [of gt ?q] by (cases "first_queue gt ?q") auto
  have "nav_run gt (replicate (length (guards_left gt ?nv)) (Next ?k Proceed)) ?h2
      = Some (?h2\<lparr>waiting := (waiting ?h2)(?k := None), pending := None, current := nv_target ?nv,
              endings := endings ?h2 @ [(?k, Completed)], calls := calls ?h2 @ map (Pair ?k) (tl (guards_left gt ?nv))\<rparr>)"
    by (rule proceed_all) (simp_all add: first_queue_not_Nil)
  then show ?thesis using c unfolding g t by (simp add: w)
qed

text \<open>A guard of a superseded navigation still redirects: its redirection takes over.\<close>

lemma stale_redirect:
  assumes "waiting h k = Some nv" and "\<not> (is_same_route r (current h) \<and> length (rt_matched r) = length (rt_matched (current h)))"
  shows "\<exists>h'. nav_step gt (Next k (Redirect r)) h = Some h' \<and> pending h' = Some (next_nav h)
     \<and> (\<exists>nv'. waiting h' (next_nav h) = Some nv' \<and> nv_target nv' = r)"
  using assms by (auto simp: guard_next_def confirm_def advance_def first_queue_not_Nil call_guard_def Let_def)

section \<open>The abstract history\<close>

text \<open>\<open>ut\<close>: what the completion callbacks of \<open>push\<close>, \<open>replace\<close> and \<open>go\<close> do to the stack.
  \<open>slice(0, i)\<close> with a negative \<open>i\<close> counts from the end.\<close>

record ab_history =
  ab_stack :: "route list"
  ab_index :: int

definition ab_init :: ab_history where
  "ab_init = \<lparr>ab_stack = [], ab_index = -1\<rparr>"

definition slice_to :: "int \<Rightarrow> 'a list \<Rightarrow> 'a list" where
  "slice_to i xs = (if 0 \<le> i then take (nat i) xs else take (length xs - nat (- i)) xs)"

definition ab_push :: "route \<Rightarrow> ab_history \<Rightarrow> ab_history" where
  "ab_push e b = b\<lparr>ab_stack := slice_to (ab_index b + 1) (ab_stack b) @ [e], ab_index := ab_index b + 1\<rparr>"

definition ab_replace :: "route \<Rightarrow> ab_history \<Rightarrow> ab_history" where
  "ab_replace e b = b\<lparr>ab_stack := slice_to (ab_index b) (ab_stack b) @ [e]\<rparr>"

text \<open>\<open>go(n)\<close>: the entry to confirm, if there is one, and the move once it is confirmed.\<close>

definition ab_target :: "int \<Rightarrow> ab_history \<Rightarrow> route option" where
  "ab_target n b =
     (let i = ab_index b + n in
      if i < 0 \<or> int (length (ab_stack b)) \<le> i then None else Some (ab_stack b ! nat i))"

definition ab_moved :: "int \<Rightarrow> ab_history \<Rightarrow> ab_history" where
  "ab_moved n b = b\<lparr>ab_index := ab_index b + n\<rparr>"

definition ab_ok :: "ab_history \<Rightarrow> bool" where
  "ab_ok b \<longleftrightarrow> 0 \<le> ab_index b \<and> ab_index b < int (length (ab_stack b))"

definition ab_here :: "ab_history \<Rightarrow> route" where
  "ab_here b = ab_stack b ! nat (ab_index b)"

lemma ab_push_first: "ab_ok (ab_push e ab_init) \<and> ab_here (ab_push e ab_init) = e \<and> ab_stack (ab_push e ab_init) = [e]"
  by (simp add: ab_push_def ab_init_def slice_to_def ab_ok_def ab_here_def)

lemma ab_push_ok:
  assumes "ab_ok b"
  shows "ab_ok (ab_push e b) \<and> ab_here (ab_push e b) = e
    \<and> ab_stack (ab_push e b) = take (Suc (nat (ab_index b))) (ab_stack b) @ [e]"
  using assms by (auto simp: ab_ok_def ab_push_def ab_here_def slice_to_def nth_append nat_add_distrib min_def)

lemma ab_replace_ok:
  assumes "ab_ok b"
  shows "ab_ok (ab_replace e b) \<and> ab_here (ab_replace e b) = e
    \<and> ab_stack (ab_replace e b) = take (nat (ab_index b)) (ab_stack b) @ [e]"
  using assms by (auto simp: ab_ok_def ab_replace_def ab_here_def slice_to_def nth_append min_def)

lemma ab_go_ok:
  assumes "ab_ok b" and "ab_target n b = Some e"
  shows "ab_ok (ab_moved n b) \<and> ab_here (ab_moved n b) = e \<and> ab_stack (ab_moved n b) = ab_stack b"
  using assms by (auto simp: ab_ok_def ab_target_def ab_moved_def ab_here_def Let_def split: if_splits)

lemma ab_push_back:
  assumes "ab_ok b"
  shows "ab_target (-1) (ab_push e b) = Some (ab_here b)"
  using assms
  by (auto simp: ab_ok_def ab_target_def ab_push_def ab_here_def slice_to_def nth_append nat_add_distrib min_def Let_def)

end
