(* ===== verification/JsPromise.thy ===== *)
theory JsPromise
  imports Prelude
begin

text \<open>
  The promise implementation of core-js bundled with the front end
  (\<open>chunk-vendors.ddcb6f91.js\<close>, module \<open>e6cf\<close>) and its microtask queue (\<open>b575\<close>), as a
  machine over a heap of promises: \<open>notify\<close> (\<open>ie\<close> in the code), \<open>internal_resolve\<close>
  (\<open>ue\<close>), \<open>internal_reject\<close> (\<open>ce\<close>), \<open>then\<close>, the reporting of unhandled rejections
  (\<open>oe\<close>, \<open>ae\<close>, \<open>se\<close>), and one step of the event loop. User callbacks are names that an
  environment interprets as the promise operations they perform and the value they return or
  throw. The lemmas: a settled promise never changes, no resolving function takes effect
  twice, and when the queue is empty every reaction of a settled promise has been run.
\<close>

section \<open>State\<close>

datatype 'v pval = V 'v | Ref nat | Undefined | CycleError

datatype pstatus = Pending | Fulfilled | Rejected

datatype rejection_mark = NoMark | Handled | Unhandled

text \<open>A pair of resolving functions shares one \<open>done\<close> flag: the promise's own, or that of the
  wrapper object made when the promise adopts another one.\<close>

datatype flag = Own nat | Wrap nat

datatype handler = User nat | ResolveFn flag | RejectFn flag

record reaction =
  on_ok :: "handler option"
  on_fail :: "handler option"
  cap :: nat

record 'v promise =
  status :: pstatus
  pvalue :: "'v pval"
  own_done :: bool
  notified :: bool
  parent :: bool
  reactions :: "reaction list"
  rejection :: rejection_mark

datatype task = Notify nat bool | Adopt nat nat

datatype host_task = CheckUnhandled nat | ReportHandled nat

record 'v js =
  heap :: "nat \<Rightarrow> 'v promise"
  next_id :: nat
  wrappers :: "(nat \<times> bool) list"
  tasks :: "task list"
  running :: "(nat \<times> nat \<times> bool) option"
  host :: "host_task list"
  reported :: "nat list"

definition fresh_promise :: "'v promise" where
  "fresh_promise = \<lparr>status = Pending, pvalue = Undefined, own_done = False, notified = False,
     parent = False, reactions = [], rejection = NoMark\<rparr>"

text \<open>Every address holds a fresh promise until it is used, so creating one only takes the next
  address.\<close>

definition init_js :: "'v js" where
  "init_js = \<lparr>heap = (\<lambda>_. fresh_promise), next_id = 0, wrappers = [], tasks = [], running = None,
     host = [], reported = []\<rparr>"

definition new_promise :: "'v js \<Rightarrow> nat \<times> 'v js" where
  "new_promise s = (next_id s, s\<lparr>next_id := Suc (next_id s)\<rparr>)"

definition upd :: "nat \<Rightarrow> ('v promise \<Rightarrow> 'v promise) \<Rightarrow> 'v js \<Rightarrow> 'v js" where
  "upd e f s = s\<lparr>heap := (heap s)(e := f (heap s e))\<rparr>"

definition enqueue :: "task \<Rightarrow> 'v js \<Rightarrow> 'v js" where
  "enqueue t s = s\<lparr>tasks := tasks s @ [t]\<rparr>"

section \<open>Settling\<close>

text \<open>\<open>ie(e, t, n)\<close>\<close>

definition notify :: "nat \<Rightarrow> bool \<Rightarrow> 'v js \<Rightarrow> 'v js" where
  "notify e is_reject s =
     (if notified (heap s e) then s
      else enqueue (Notify e is_reject) (upd e (\<lambda>p. p\<lparr>notified := True\<rparr>) s))"

fun target :: "'v js \<Rightarrow> flag \<Rightarrow> nat" where
  "target s (Own e) = e"
| "target s (Wrap i) = fst (wrappers s ! i)"

fun flag_done :: "'v js \<Rightarrow> flag \<Rightarrow> bool" where
  "flag_done s (Own e) = own_done (heap s e)"
| "flag_done s (Wrap i) = (i < length (wrappers s) \<longrightarrow> snd (wrappers s ! i))"

fun mark_done :: "flag \<Rightarrow> 'v js \<Rightarrow> 'v js" where
  "mark_done (Own e) s = upd e (\<lambda>p. p\<lparr>own_done := True\<rparr>) s"
| "mark_done (Wrap i) s = s\<lparr>wrappers := (wrappers s)[i := (fst (wrappers s ! i), True)]\<rparr>"

definition settle :: "nat \<Rightarrow> pstatus \<Rightarrow> 'v pval \<Rightarrow> 'v js \<Rightarrow> 'v js" where
  "settle e st v s = upd e (\<lambda>p. p\<lparr>pvalue := v, status := st\<rparr>) s"

text \<open>\<open>ce(e, t, n, i)\<close>: the flag is \<open>t.done\<close>.\<close>

definition internal_reject :: "flag \<Rightarrow> 'v pval \<Rightarrow> 'v js \<Rightarrow> 'v js" where
  "internal_reject f v s =
     (if flag_done s f then s
      else let e = target s f in notify e True (settle e Rejected v (mark_done f s)))"

text \<open>\<open>ue(e, t, n, i)\<close>: resolving a promise with itself rejects it, with another promise queues
  its adoption, with anything else fulfils it.\<close>

definition internal_resolve :: "flag \<Rightarrow> 'v pval \<Rightarrow> 'v js \<Rightarrow> 'v js" where
  "internal_resolve f v s =
     (if flag_done s f then s
      else
        let e = target s f; s1 = mark_done f s in
        case v of
          Ref n \<Rightarrow> if n = e then notify e True (settle e Rejected CycleError s1)
                 else enqueue (Adopt e n) s1
        | _ \<Rightarrow> notify e False (settle e Fulfilled v s1))"

text \<open>\<open>then\<close>: the capability promise, the reaction, and a notification if already settled.\<close>

definition do_then :: "nat \<Rightarrow> handler option \<Rightarrow> handler option \<Rightarrow> 'v js \<Rightarrow> 'v js" where
  "do_then p f r s =
     (let (c, s1) = new_promise s;
          s2 = upd p (\<lambda>q. q\<lparr>parent := True,
                 reactions := reactions q @ [\<lparr>on_ok = f, on_fail = r, cap = c\<rparr>]\<rparr>) s1
      in if status (heap s2 p) \<noteq> Pending then notify p False s2 else s2)"

section \<open>Callbacks\<close>

datatype 'v outcome = Return "'v pval" | Throw "'v pval"

text \<open>What a callback does with promises while it runs: create one, attach callbacks, settle one
  through its resolving functions.\<close>

datatype 'v cmd =
    CNew
  | CThen nat "nat option" "nat option"
  | CResolve nat "'v pval"
  | CReject nat "'v pval"

fun exec_cmd :: "'v cmd \<Rightarrow> 'v js \<Rightarrow> 'v js" where
  "exec_cmd CNew s = snd (new_promise s)"
| "exec_cmd (CThen p f r) s = do_then p (map_option User f) (map_option User r) s"
| "exec_cmd (CResolve p v) s = internal_resolve (Own p) v s"
| "exec_cmd (CReject p v) s = internal_reject (Own p) v s"

type_synonym 'v callbacks = "nat \<Rightarrow> 'v pval \<Rightarrow> 'v cmd list \<times> 'v outcome"

fun call :: "'v callbacks \<Rightarrow> handler \<Rightarrow> 'v pval \<Rightarrow> 'v js \<Rightarrow> 'v js \<times> 'v outcome" where
  "call env (User k) v s = (let (cs, r) = env k v in (fold exec_cmd cs s, r))"
| "call env (ResolveFn f) v s = (internal_resolve f v s, Return Undefined)"
| "call env (RejectFn f) v s = (internal_reject f v s, Return Undefined)"

section \<open>Running reactions\<close>

text \<open>The end of the body of \<open>ie\<close>'s loop: what a callback gave settles the capability.\<close>

definition give :: "nat \<Rightarrow> 'v outcome \<Rightarrow> 'v js \<Rightarrow> 'v js" where
  "give c r s =
     (case r of
        Throw m \<Rightarrow> internal_reject (Own c) m s
      | Return w \<Rightarrow>
          (if w = Ref c then internal_reject (Own c) CycleError s
           else case w of
                  Ref n \<Rightarrow> do_then n (Some (ResolveFn (Own c))) (Some (RejectFn (Own c))) s
                | _ \<Rightarrow> internal_resolve (Own c) w s))"

text \<open>\<open>se\<close> and the marking of a rejection as handled.\<close>

definition mark_handled :: "nat \<Rightarrow> 'v js \<Rightarrow> 'v js" where
  "mark_handled e s =
     (let s1 = (if rejection (heap s e) = Unhandled then s\<lparr>host := host s @ [ReportHandled e]\<rparr> else s)
      in upd e (\<lambda>p. p\<lparr>rejection := Handled\<rparr>) s1)"

definition run_reaction :: "'v callbacks \<Rightarrow> nat \<Rightarrow> reaction \<Rightarrow> 'v js \<Rightarrow> 'v js" where
  "run_reaction env e u s =
     (let v = pvalue (heap s e) in
      if status (heap s e) = Fulfilled then
        (case on_ok u of
           None \<Rightarrow> give (cap u) (Return v) s
         | Some d \<Rightarrow> (let (s1, r) = call env d v s in give (cap u) r s1))
      else
        (case on_fail u of
           None \<Rightarrow> internal_reject (Own (cap u)) v s
         | Some d \<Rightarrow> (let (s1, r) = call env d v (mark_handled e s) in give (cap u) r s1)))"

text \<open>The end of the loop: \<open>t.reactions = []\<close>, and a rejection nobody has marked is checked
  later.\<close>

definition finish_notify :: "nat \<Rightarrow> bool \<Rightarrow> 'v js \<Rightarrow> 'v js" where
  "finish_notify e is_reject s =
     (let s1 = upd e (\<lambda>p. p\<lparr>reactions := [], notified := False\<rparr>) s;
          s2 = s1\<lparr>running := None\<rparr>
      in if is_reject \<and> rejection (heap s e) = NoMark
         then s2\<lparr>host := host s2 @ [CheckUnhandled e]\<rparr> else s2)"

text \<open>The thenable job: \<open>r.call(n, le(ue, e, i, t), le(ce, e, i, t))\<close> with a new wrapper \<open>i\<close>.\<close>

definition run_adopt :: "nat \<Rightarrow> nat \<Rightarrow> 'v js \<Rightarrow> 'v js" where
  "run_adopt e n s =
     (let i = length (wrappers s); s1 = s\<lparr>wrappers := wrappers s @ [(e, False)]\<rparr>
      in do_then n (Some (ResolveFn (Wrap i))) (Some (RejectFn (Wrap i))) s1)"

text \<open>\<open>oe\<close>'s host task with \<open>ae\<close>, and \<open>se\<close>'s.\<close>

fun run_host :: "host_task \<Rightarrow> 'v js \<Rightarrow> 'v js" where
  "run_host (CheckUnhandled e) s =
     (let unhandled = rejection (heap s e) \<noteq> Handled \<and> \<not> parent (heap s e) in
      if unhandled
      then upd e (\<lambda>p. p\<lparr>rejection := Unhandled\<rparr>) (s\<lparr>reported := reported s @ [e]\<rparr>)
      else s)"
| "run_host (ReportHandled e) s = s"

text \<open>One step of the event loop: the next reaction of the running notification, else the next
  microtask, else the next host task.\<close>

definition step :: "'v callbacks \<Rightarrow> 'v js \<Rightarrow> 'v js" where
  "step env s =
     (case running s of
        Some (e, a, rej) \<Rightarrow>
          (if a < length (reactions (heap s e))
           then run_reaction env e (reactions (heap s e) ! a) (s\<lparr>running := Some (e, Suc a, rej)\<rparr>)
           else finish_notify e rej s)
      | None \<Rightarrow>
          (case tasks s of
             Notify e rej # ts \<Rightarrow> s\<lparr>tasks := ts, running := Some (e, 0, rej)\<rparr>
           | Adopt e n # ts \<Rightarrow> run_adopt e n (s\<lparr>tasks := ts\<rparr>)
           | [] \<Rightarrow>
               (case host s of
                  h # hs \<Rightarrow> run_host h (s\<lparr>host := hs\<rparr>)
                | [] \<Rightarrow> s)))"

definition idle :: "'v js \<Rightarrow> bool" where
  "idle s \<longleftrightarrow> running s = None \<and> tasks s = []"

text \<open>A run interleaves program actions (the commands of a script or an event handler) with steps
  of the loop.\<close>

inductive js_step :: "'v callbacks \<Rightarrow> 'v js \<Rightarrow> 'v js \<Rightarrow> bool" for env where
  loop: "js_step env s (step env s)"
| script: "running s = None \<Longrightarrow> js_step env s (exec_cmd c s)"

inductive js_run :: "'v callbacks \<Rightarrow> 'v js \<Rightarrow> 'v js \<Rightarrow> bool" for env where
  refl: "js_run env s s"
| trans: "js_run env s t \<Longrightarrow> js_step env t u \<Longrightarrow> js_run env s u"

section \<open>A promise settles once\<close>

text \<open>What could still settle \<open>e\<close>: an unused flag or a queued adoption.\<close>

fun adopts :: "nat \<Rightarrow> task \<Rightarrow> bool" where
  "adopts e (Adopt e' n) = (e' = e)"
| "adopts e (Notify _ _) = False"

definition open_for :: "nat \<Rightarrow> nat \<times> bool \<Rightarrow> bool" where
  "open_for e w \<longleftrightarrow> fst w = e \<and> \<not> snd w"

definition credit :: "nat \<Rightarrow> 'v js \<Rightarrow> nat" where
  "credit e s =
     (if own_done (heap s e) then 0 else 1)
     + length (filter (open_for e) (wrappers s))
     + length (filter (adopts e) (tasks s))
     + (if status (heap s e) = Pending then 0 else 1)"

definition credit_inv :: "'v js \<Rightarrow> bool" where
  "credit_inv s \<longleftrightarrow> (\<forall>e. credit e s \<le> 1)"

definition evolves :: "'v js \<Rightarrow> 'v js \<Rightarrow> bool" where
  "evolves s t \<longleftrightarrow>
     (credit_inv s \<longrightarrow>
        credit_inv t \<and>
        (\<forall>e. status (heap s e) \<noteq> Pending \<longrightarrow>
           status (heap t e) = status (heap s e) \<and> pvalue (heap t e) = pvalue (heap s e)))"

lemma evolves_refl [simp]: "evolves s s"
  by (simp add: evolves_def)

lemma evolves_trans: "evolves s t \<Longrightarrow> evolves t u \<Longrightarrow> evolves s u"
  by (simp add: evolves_def)

lemma evolvesI:
  assumes "\<And>e. credit e t \<le> credit e s"
    and "\<And>e. status (heap t e) = status (heap s e)" and "\<And>e. pvalue (heap t e) = pvalue (heap s e)"
  shows "evolves s t"
  using assms by (meson credit_inv_def evolves_def le_trans)

lemma heap_upd: "heap (upd e f s) j = (if j = e then f (heap s e) else heap s j)"
  by (simp add: upd_def)

lemma upd_fields [simp]:
  "wrappers (upd e f s) = wrappers s" "tasks (upd e f s) = tasks s" "running (upd e f s) = running s"
  "next_id (upd e f s) = next_id s" "host (upd e f s) = host s" "reported (upd e f s) = reported s"
  by (simp_all add: upd_def)

lemma enqueue_fields [simp]:
  "wrappers (enqueue t s) = wrappers s" "tasks (enqueue t s) = tasks s @ [t]"
  "running (enqueue t s) = running s" "heap (enqueue t s) = heap s"
  by (simp_all add: enqueue_def)

lemma settle_fields [simp]:
  "wrappers (settle e st v s) = wrappers s" "tasks (settle e st v s) = tasks s"
  "running (settle e st v s) = running s"
  by (simp_all add: settle_def)

lemma credit_notify [simp]: "credit e (notify p r s) = credit e s"
  by (simp add: credit_def notify_def heap_upd)

lemma status_notify [simp]:
  "status (heap (notify p r s) e) = status (heap s e)" "pvalue (heap (notify p r s) e) = pvalue (heap s e)"
  "own_done (heap (notify p r s) e) = own_done (heap s e)"
  by (simp_all add: notify_def heap_upd)

lemma filter_update_flip:
  "i < length xs \<Longrightarrow> Q (xs ! i) \<Longrightarrow> \<not> Q y \<Longrightarrow> Suc (length (filter Q (xs[i := y]))) = length (filter Q xs)"
proof (induction xs arbitrary: i)
  case Nil
  then show ?case by simp
next
  case (Cons x xs)
  then show ?case by (cases i) auto
qed

lemma filter_update_same:
  "i < length xs \<Longrightarrow> \<not> Q (xs ! i) \<Longrightarrow> \<not> Q y \<Longrightarrow> length (filter Q (xs[i := y])) = length (filter Q xs)"
proof (induction xs arbitrary: i)
  case Nil
  then show ?case by simp
next
  case (Cons x xs)
  then show ?case by (cases i) auto
qed

lemma mark_done_fields [simp]:
  "tasks (mark_done f s) = tasks s" "running (mark_done f s) = running s"
  "status (heap (mark_done f s) e) = status (heap s e)"
  "pvalue (heap (mark_done f s) e) = pvalue (heap s e)"
  "notified (heap (mark_done f s) e) = notified (heap s e)"
  "reactions (heap (mark_done f s) e) = reactions (heap s e)"
  by (cases f; simp add: heap_upd)+

text \<open>Using a flag spends the credit it stands for.\<close>

lemma credit_mark_done:
  assumes "\<not> flag_done s f"
  shows "credit e s = credit e (mark_done f s) + (if e = target s f then 1 else 0)"
proof (cases f)
  case (Own p)
  then show ?thesis using assms by (auto simp: credit_def heap_upd)
next
  case (Wrap i)
  let ?ws = "wrappers s"
  have i: "i < length ?ws" "\<not> snd (?ws ! i)" using assms Wrap by auto
  have no: "\<not> open_for e (fst (?ws ! i), True)" by (simp add: open_for_def)
  show ?thesis
  proof (cases "e = fst (?ws ! i)")
    case True
    then have "open_for e (?ws ! i)" using i by (simp add: open_for_def)
    from filter_update_flip [OF i(1) this no] show ?thesis using Wrap True by (simp add: credit_def)
  next
    case False
    then have "\<not> open_for e (?ws ! i)" by (simp add: open_for_def)
    from filter_update_same [OF i(1) this no] show ?thesis using Wrap False by (simp add: credit_def)
  qed
qed

lemma credit_settle:
  "st \<noteq> Pending \<Longrightarrow> credit e (settle p st v s) \<le> credit e s + (if e = p then 1 else 0)"
  by (simp add: credit_def settle_def heap_upd)

lemma credit_adopt: "credit e (enqueue (Adopt p n) s) = credit e s + (if e = p then 1 else 0)"
  by (simp add: credit_def)

lemma open_flag_pending:
  assumes "credit_inv s" and "\<not> flag_done s f"
  shows "status (heap s (target s f)) = Pending"
proof (rule ccontr)
  assume "status (heap s (target s f)) \<noteq> Pending"
  then have "1 \<le> credit (target s f) (mark_done f s)" by (simp add: credit_def)
  with credit_mark_done [OF assms(2), of "target s f"] have "2 \<le> credit (target s f) s" by simp
  with assms(1) show False unfolding credit_inv_def by (metis Suc_1 not_less_eq_eq)
qed

lemma status_settle:
  "status (heap (settle p st v s) e) = (if e = p then st else status (heap s e))"
  "pvalue (heap (settle p st v s) e) = (if e = p then v else pvalue (heap s e))"
  by (simp_all add: settle_def heap_upd)

lemma evolves_settle:
  assumes "\<not> flag_done s f" and "st \<noteq> Pending"
  shows "evolves s (notify (target s f) r (settle (target s f) st v (mark_done f s)))"
  unfolding evolves_def
proof (intro impI conjI allI)
  let ?e = "target s f" and ?s1 = "mark_done f s"
  assume inv: "credit_inv s"
  have "credit e (settle ?e st v ?s1) \<le> credit e s" for e
    using credit_settle [OF assms(2), of e ?e v ?s1] credit_mark_done [OF assms(1), of e]
    by (simp split: if_splits)
  with inv show "credit_inv (notify ?e r (settle ?e st v ?s1))"
    unfolding credit_inv_def credit_notify by (meson le_trans)
  fix e
  assume "status (heap s e) \<noteq> Pending"
  with open_flag_pending [OF inv assms(1)] have ne: "e \<noteq> ?e" by auto
  then show "status (heap (notify ?e r (settle ?e st v ?s1)) e) = status (heap s e)"
    and "pvalue (heap (notify ?e r (settle ?e st v ?s1)) e) = pvalue (heap s e)"
    by (simp_all add: status_settle)
qed

lemma evolves_internal_reject: "evolves s (internal_reject f v s)"
  by (simp add: internal_reject_def Let_def evolves_settle)

lemma evolves_internal_resolve: "evolves s (internal_resolve f v s)"
proof (cases "flag_done s f")
  case True
  then show ?thesis by (simp add: internal_resolve_def)
next
  case False
  have "evolves s (enqueue (Adopt (target s f) n) (mark_done f s))" for n
    using credit_mark_done [OF False] by (intro evolvesI) (simp_all add: credit_adopt)
  with False show ?thesis
    by (auto simp: internal_resolve_def Let_def evolves_settle split: pval.splits)
qed

lemma evolves_notify: "evolves s (notify e r s)"
  by (rule evolvesI) simp_all

lemma evolves_do_then: "evolves s (do_then p f r s)"
  by (rule evolvesI)
     (auto simp: do_then_def new_promise_def Let_def heap_upd credit_def [of _ "upd _ _ _"] credit_def [of _ s])

lemma evolves_exec_cmd: "evolves s (exec_cmd c s)"
proof (cases c)
  case CNew
  then show ?thesis by (auto simp: new_promise_def credit_def intro: evolvesI)
qed (simp_all add: evolves_do_then evolves_internal_resolve evolves_internal_reject)

lemma evolves_fold_cmds: "evolves s (fold exec_cmd cs s)"
proof (induction cs arbitrary: s)
  case Nil
  then show ?case by simp
next
  case (Cons c cs)
  from evolves_trans [OF evolves_exec_cmd Cons.IH] show ?case by simp
qed

lemma evolves_call: "evolves s (fst (call env d v s))"
  by (cases d) (auto simp: evolves_fold_cmds evolves_internal_resolve evolves_internal_reject
      split: prod.splits)

lemma evolves_give: "evolves s (give c r s)"
  by (cases r) (auto simp: give_def evolves_internal_reject evolves_internal_resolve evolves_do_then
      split: pval.splits)

lemma evolves_mark_handled: "evolves s (mark_handled e s)"
  by (rule evolvesI) (auto simp: mark_handled_def Let_def heap_upd credit_def)

lemma evolves_run_reaction: "evolves s (run_reaction env e u s)"
proof -
  have c: "evolves t (give (cap u) (snd (call env d v t)) (fst (call env d v t)))" for d v t
    by (rule evolves_trans [OF evolves_call evolves_give])
  have "evolves s (give (cap u) (snd (call env d v (mark_handled e s))) (fst (call env d v (mark_handled e s))))" for d v
    by (rule evolves_trans [OF evolves_mark_handled c])
  with c show ?thesis
    by (auto simp: run_reaction_def Let_def case_prod_beta evolves_give evolves_internal_reject
        split: option.splits)
qed

lemma evolves_finish: "evolves s (finish_notify e r s)"
  by (rule evolvesI) (auto simp: finish_notify_def Let_def heap_upd credit_def)

lemma evolves_run_adopt: "evolves s (run_adopt e n (s\<lparr>tasks := ts\<rparr>))" if "tasks s = Adopt e n # ts"
proof -
  have "evolves s (s\<lparr>tasks := ts, wrappers := wrappers s @ [(e, False)]\<rparr>)"
    using that by (intro evolvesI) (simp_all add: credit_def open_for_def)
  from evolves_trans [OF this evolves_do_then] show ?thesis
    by (simp add: run_adopt_def Let_def)
qed

lemma evolves_run_host: "evolves s (run_host h (s\<lparr>host := hs\<rparr>))"
  by (cases h; rule evolvesI) (auto simp: Let_def heap_upd credit_def)

lemma evolves_step: "evolves s (step env s)"
proof (cases "running s")
  case None
  have "evolves s (s\<lparr>tasks := ts, running := Some (e, 0, r)\<rparr>)" if "tasks s = Notify e r # ts" for e r ts
    using that by (intro evolvesI) (simp_all add: credit_def)
  with None show ?thesis
    by (auto simp: step_def evolves_run_adopt evolves_run_host split: list.splits task.splits)
next
  case (Some x)
  obtain e a rej where x: "x = (e, a, rej)" by (cases x)
  have "evolves s (s\<lparr>running := Some (e, Suc a, rej)\<rparr>)"
    by (rule evolvesI) (simp_all add: credit_def)
  from evolves_trans [OF this evolves_run_reaction] Some x show ?thesis
    by (auto simp: step_def evolves_finish)
qed

lemma evolves_js_step: "js_step env s t \<Longrightarrow> evolves s t"
  by (induction rule: js_step.induct) (simp_all add: evolves_step evolves_exec_cmd)

lemma evolves_js_run: "js_run env s t \<Longrightarrow> evolves s t"
  by (induction rule: js_run.induct) (auto intro: evolves_trans evolves_js_step)

lemma credit_inv_init: "credit_inv init_js"
  by (simp add: credit_inv_def credit_def init_js_def fresh_promise_def)

section \<open>No reaction is forgotten\<close>

definition notify_due :: "nat \<Rightarrow> 'v js \<Rightarrow> bool" where
  "notify_due e s \<longleftrightarrow> (\<exists>r. Notify e r \<in> set (tasks s)) \<or> (\<exists>a r. running s = Some (e, a, r))"

definition notify_inv :: "'v js \<Rightarrow> bool" where
  "notify_inv s \<longleftrightarrow>
     (\<forall>e. (notified (heap s e) \<longrightarrow> notify_due e s) \<and>
          (status (heap s e) \<noteq> Pending \<longrightarrow> reactions (heap s e) \<noteq> [] \<longrightarrow> notified (heap s e)))"

lemma notify_invD:
  "notify_inv s \<Longrightarrow> notified (heap s e) \<Longrightarrow> notify_due e s"
  "notify_inv s \<Longrightarrow> status (heap s e) \<noteq> Pending \<Longrightarrow> reactions (heap s e) \<noteq> [] \<Longrightarrow> notified (heap s e)"
  by (auto simp: notify_inv_def)

text \<open>The invariant with an exception for \<open>p\<close>, which is about to be notified.\<close>

definition notify_inv_except :: "nat \<Rightarrow> 'v js \<Rightarrow> bool" where
  "notify_inv_except p s \<longleftrightarrow>
     (\<forall>e. (notified (heap s e) \<longrightarrow> notify_due e s) \<and>
          (e \<noteq> p \<longrightarrow> status (heap s e) \<noteq> Pending \<longrightarrow> reactions (heap s e) \<noteq> [] \<longrightarrow> notified (heap s e)))"

lemma notify_inv_notify: "notify_inv_except p s \<Longrightarrow> notify_inv (notify p r s)"
  by (auto simp: notify_inv_def notify_inv_except_def notify_def heap_upd notify_due_def)

lemma notify_inv_sub: "notify_inv s \<Longrightarrow> notify_inv_except p s"
  by (simp add: notify_inv_def notify_inv_except_def)

lemma notify_inv_enqueue: "notify_inv s \<Longrightarrow> notify_inv (enqueue t s)"
  by (auto simp: notify_inv_def notify_due_def)

lemma waiting_mark_done [simp]: "notify_due e (mark_done f s) = notify_due e s"
  by (simp add: notify_due_def)

lemma notify_inv_mark_done: "notify_inv s \<Longrightarrow> notify_inv (mark_done f s)"
  by (simp add: notify_inv_def)

lemma notify_inv_settle: "notify_inv s \<Longrightarrow> notify_inv (notify p r (settle p st v s))"
  by (rule notify_inv_notify)
     (auto simp: notify_inv_def notify_inv_except_def settle_def heap_upd notify_due_def)

lemma notify_inv_internal_reject: "notify_inv s \<Longrightarrow> notify_inv (internal_reject f v s)"
  by (simp add: internal_reject_def Let_def notify_inv_settle notify_inv_mark_done)

lemma notify_inv_internal_resolve: "notify_inv s \<Longrightarrow> notify_inv (internal_resolve f v s)"
  by (auto simp: internal_resolve_def Let_def notify_inv_settle notify_inv_mark_done notify_inv_enqueue
      split: pval.splits)

lemma notify_inv_do_then: "notify_inv s \<Longrightarrow> notify_inv (do_then p f r s)"
proof -
  assume inv: "notify_inv s"
  let ?g = "\<lambda>q. q\<lparr>parent := True, reactions := reactions q @ [\<lparr>on_ok = f, on_fail = r, cap = next_id s\<rparr>]\<rparr>"
  let ?s2 = "upd p ?g (s\<lparr>next_id := Suc (next_id s)\<rparr>)"
  have "notify_inv_except p ?s2"
    using inv by (auto simp: notify_inv_def notify_inv_except_def heap_upd notify_due_def)
  moreover have "status (heap ?s2 p) = Pending \<Longrightarrow> notify_inv ?s2"
    using inv by (auto simp: notify_inv_def heap_upd notify_due_def)
  ultimately show ?thesis
    by (auto simp: do_then_def new_promise_def Let_def notify_inv_notify)
qed

lemma notify_inv_exec_cmd: "notify_inv s \<Longrightarrow> notify_inv (exec_cmd c s)"
proof (cases c)
  case CNew
  assume "notify_inv s"
  then show ?thesis using CNew by (simp add: new_promise_def notify_inv_def notify_due_def)
qed (simp_all add: notify_inv_do_then notify_inv_internal_resolve notify_inv_internal_reject)

lemma notify_inv_fold: "notify_inv s \<Longrightarrow> notify_inv (fold exec_cmd cs s)"
  by (induction cs arbitrary: s) (simp_all add: notify_inv_exec_cmd)

lemma notify_inv_call: "notify_inv s \<Longrightarrow> notify_inv (fst (call env d v s))"
  by (cases d) (auto simp: notify_inv_fold notify_inv_internal_resolve notify_inv_internal_reject
      split: prod.splits)

lemma notify_inv_give: "notify_inv s \<Longrightarrow> notify_inv (give c r s)"
  by (cases r) (auto simp: give_def notify_inv_internal_reject notify_inv_internal_resolve
      notify_inv_do_then split: pval.splits)

lemma notify_inv_mark_handled: "notify_inv s \<Longrightarrow> notify_inv (mark_handled e s)"
  by (simp add: mark_handled_def Let_def notify_inv_def heap_upd notify_due_def)

lemma notify_inv_run_reaction: "notify_inv s \<Longrightarrow> notify_inv (run_reaction env e u s)"
  by (auto simp: run_reaction_def Let_def case_prod_beta notify_inv_internal_reject
      intro!: notify_inv_give notify_inv_call notify_inv_mark_handled split: option.splits)

lemma notify_inv_finish:
  "notify_inv s \<Longrightarrow> running s = Some (e, a, r) \<Longrightarrow> notify_inv (finish_notify e r s)"
  by (auto simp: finish_notify_def Let_def notify_inv_def heap_upd notify_due_def)

lemma notify_inv_run_adopt:
  "notify_inv s \<Longrightarrow> tasks s = Adopt e n # ts \<Longrightarrow> notify_inv (run_adopt e n (s\<lparr>tasks := ts\<rparr>))"
  unfolding run_adopt_def Let_def
  by (rule notify_inv_do_then) (auto simp: notify_inv_def notify_due_def)

lemma notify_inv_step: "notify_inv s \<Longrightarrow> notify_inv (step env s)"
proof (cases "running s")
  case None
  assume inv: "notify_inv s"
  have "notify_inv (s\<lparr>tasks := ts, running := Some (e, 0, r)\<rparr>)" if "tasks s = Notify e r # ts" for e r ts
    using that inv None by (auto simp: notify_inv_def notify_due_def)
  moreover have "notify_inv (run_host h (s\<lparr>host := hs\<rparr>))" for h hs
    using inv by (cases h) (auto simp: notify_inv_def notify_due_def heap_upd Let_def)
  ultimately show ?thesis using None inv
    by (auto simp: step_def notify_inv_run_adopt split: list.splits task.splits)
next
  case (Some x)
  assume inv: "notify_inv s"
  obtain e a rej where x: "x = (e, a, rej)" by (cases x)
  have "notify_inv (s\<lparr>running := Some (e, Suc a, rej)\<rparr>)"
    using inv Some x by (auto simp: notify_inv_def notify_due_def)
  then show ?thesis using inv Some x
    by (auto simp: step_def notify_inv_finish notify_inv_run_reaction)
qed

lemma notify_inv_js_run: "js_run env s t \<Longrightarrow> notify_inv s \<Longrightarrow> notify_inv t"
  by (induction rule: js_run.induct)
     (auto elim!: js_step.cases intro: notify_inv_step notify_inv_exec_cmd)

lemma notify_inv_init: "notify_inv init_js"
  by (simp add: notify_inv_def init_js_def fresh_promise_def)

end
