(* ===== verification/Samples.thy ===== *)
theory Samples
  imports TodoRaces Webpack RouterNav JsPromise
begin

text \<open>
  Concrete values on which the properties of the root theory are applied: a browser without the
  cookie, a table of three todos with the page that shows it, a store that refuses to save, two
  small programs for the module loader, and two routes.
\<close>

section \<open>The todo list\<close>

definition sample_env :: environment where
  "sample_env = \<lparr>custom_transform = (\<lambda>_ e t. (e, t)), custom_validate = (\<lambda>_ _. True),
     custom_serializer = (\<lambda>_ _. []), cookie = (\<lambda>_. None), same_origin = (\<lambda>_. True)\<rparr>"

lemma sample_cookie: "cookie sample_env ''XSRF-TOKEN'' = None"
  by (simp add: sample_env_def)

definition sample_rows :: "todo list" where
  "sample_rows = [\<lparr>ID = 1, Title = ''tea'', Status = False\<rparr>, \<lparr>ID = 2, Title = ''bread'', Status = True\<rparr>,
     \<lparr>ID = 3, Title = ''milk'', Status = False\<rparr>]"

definition sample_world :: "todo list world" where
  "sample_world =
     \<lparr>page = init_client\<lparr>tableData := Table (of_list [0, 1, 2]), next_row := 3,
        row_heap := (\<lambda>a. todo_json (sample_rows ! a))\<rparr>,
      db = sample_rows, flights = []\<rparr>"

lemma sample_ok: "ids_distinct sample_rows"
  by (simp add: ids_distinct_def sample_rows_def ids_def table_limit_def)

lemma sample_settled: "settled_world (\<lambda>d. d) ids_distinct sample_world"
  using sample_ok
  by (auto simp: settled_world_def sample_world_def shows_rows_def sample_rows_def max_safe_def
      intro!: exI [of _ "[0, 1, 2 :: nat]"])

lemma list_store_up: "store_up list_store (\<lambda>d. d) ids_distinct"
  unfolding store_up_def
proof (intro allI impI conjI ballI)
  fix d :: "todo list" and t i
  show "\<exists>ts. db_find list_store d = Inr ts" by (simp add: list_store_def)
  show "length d < table_limit \<Longrightarrow> \<exists>p. db_create list_store t d = Inr p" by (simp add: list_store_def Let_def)
  show "\<exists>d'. db_save list_store t d = Inr d'" by (simp add: list_store_def)
  show "\<exists>d'. db_delete list_store (show_int i) d = Inr d'" by (simp add: list_store_def)
  assume "i \<in> set (ids d)"
  then obtain u where "u \<in> set d" "ID u = i" by (auto simp: ids_def)
  then have "filter (\<lambda>t. show_int (ID t) = show_int i) d \<noteq> []" by (auto simp: filter_empty_conv)
  then show "\<exists>t. db_first list_store (show_int i) d = Inr t"
    by (auto simp: list_store_def split: list.splits)
qed

definition read_only_store :: "todo list store" where
  "read_only_store = list_store\<lparr>db_save := (\<lambda>t d. Inl ''read-only'')\<rparr>"

definition broken_store :: "todo list store" where
  "broken_store = list_store\<lparr>db_find := (\<lambda>d. Inl ''no connection'')\<rparr>"

section \<open>The module loader\<close>

definition sample_vendors :: chunk_data where
  "sample_vendors = \<lparr>chunk_ids = [''chunk-vendors''], more_modules = [(''vue'', [Effect 1]), (''axios'', [Req ''vue'', Effect 2])],
     execute = []\<rparr>"

definition other_chunk :: chunk_data where
  "other_chunk = \<lparr>chunk_ids = [''other''], more_modules = [(''extra'', [Effect 9])], execute = []\<rparr>"

definition sample_app :: modules where
  "sample_app = [(''0'', [Req ''56d7'']), (''56d7'', [Req ''axios'', Req ''vue'', Effect 3])]"

section \<open>Routes\<close>

definition sample_route :: "string \<Rightarrow> nat list \<Rightarrow> route" where
  "sample_route p ms = \<lparr>rt_start = False, rt_name = [], rt_path = p, rt_hash = [], rt_query = [], rt_params = [],
     rt_matched = ms\<rparr>"

definition sample_guards :: guard_table where
  "sample_guards = \<lparr>leave_of = (\<lambda>r. [[r]]), update_of = (\<lambda>_. []), enter_of = (\<lambda>r. [[r]]),
     before_enter_of = (\<lambda>_. None), before_hooks = [7], resolve_hooks = []\<rparr>"

text \<open>Reachable states of the router: a navigation at its last guard, and two at their first.\<close>

lemma one_at_its_last_guard:
  "\<exists>h. nav_reachable sample_guards h \<and> pending h = Some 0 \<and> current h = start_route
     \<and> waiting h 0 = Some \<lparr>nv_target = sample_route ''/a'' [1], nv_queues = resolve_queue [] [1], nv_todo = [Enter 1], nv_stage = Second\<rparr>"
proof -
  let ?e = "sample_route ''/a'' [1]"
  have s: "\<not> is_same_route ?e start_route" by (simp add: is_same_route_def start_route_def sample_route_def)
  have q: "first_queue sample_guards (resolve_queue [] [1]) = [BeforeEach 7, AsyncComponents]"
    "second_queue sample_guards (resolve_queue [] [1]) = [Enter 1]"
    by (simp_all add: first_queue_def second_queue_def sample_guards_def resolve_queue_def extract_guards_def)
  have m: "rt_matched ?e = [1]" "rt_matched start_route = []" by (simp_all add: sample_route_def start_route_def)
  obtain h1 where h1: "nav_step sample_guards (Navigate ?e) nav_init = Some h1" "pending h1 = Some 0" "current h1 = start_route"
    "waiting h1 0 = Some \<lparr>nv_target = ?e, nv_queues = resolve_queue [] [1], nv_todo = [BeforeEach 7, AsyncComponents], nv_stage = First\<rparr>"
    using s q m by (simp add: confirm_def nav_init_def advance_def call_guard_def Let_def)
  then obtain h2 where h2: "nav_step sample_guards (Next 0 Proceed) h1 = Some h2" "pending h2 = Some 0" "current h2 = start_route"
    "waiting h2 0 = Some \<lparr>nv_target = ?e, nv_queues = resolve_queue [] [1], nv_todo = [AsyncComponents], nv_stage = First\<rparr>"
    by (simp add: guard_next_def advance_def call_guard_def Let_def)
  then obtain h3 where h3: "nav_step sample_guards (Next 0 Proceed) h2 = Some h3" "pending h3 = Some 0" "current h3 = start_route"
    "waiting h3 0 = Some \<lparr>nv_target = ?e, nv_queues = resolve_queue [] [1], nv_todo = [Enter 1], nv_stage = Second\<rparr>"
    using q by (simp add: guard_next_def advance_def call_guard_def Let_def)
  have "nav_reachable sample_guards h3" using nav_next [OF nav_next [OF nav_next [OF nav_start h1(1)] h2(1)] h3(1)] .
  then show ?thesis using h3 by blast
qed

lemma two_at_their_first_guard:
  "\<exists>h. nav_reachable sample_guards h \<and> next_nav h = 2 \<and> pending h = Some 1 \<and> current h = start_route
     \<and> endings h = [] \<and> waiting h 0 \<noteq> None"
proof -
  let ?e = "sample_route ''/a'' [1]" let ?f = "sample_route ''/b'' [2]"
  have s: "\<not> is_same_route ?e start_route" "\<not> is_same_route ?f start_route"
    by (simp_all add: is_same_route_def start_route_def sample_route_def)
  obtain h1 where h1: "nav_step sample_guards (Navigate ?e) nav_init = Some h1" "pending h1 = Some 0" "current h1 = start_route"
    "next_nav h1 = 1" "endings h1 = []" "waiting h1 0 \<noteq> None"
    using s by (simp add: confirm_def nav_init_def advance_def call_guard_def Let_def first_queue_not_Nil)
  then obtain h2 where "nav_step sample_guards (Navigate ?f) h1 = Some h2" "pending h2 = Some 1" "current h2 = start_route"
    "next_nav h2 = 2" "endings h2 = []" "waiting h2 0 \<noteq> None"
    using s by (simp add: confirm_def advance_def call_guard_def Let_def first_queue_not_Nil)
  then show ?thesis using nav_next [OF nav_next [OF nav_start h1(1)]] by blast
qed

end
