(* ===== verification/NodePath.thy ===== *)
theory NodePath
  imports Prelude
begin

text \<open>
  The POSIX path module bundled for the front end (\<open>chunk-vendors.ddcb6f91.js\<close>, module
  \<open>df7c\<close>): \<open>normalizeArray\<close> (\<open>n\<close>), which scans from the right with a counter, and
  \<open>normalize\<close>, \<open>isAbsolute\<close>, \<open>join\<close>, \<open>resolve\<close> on top of it. The scan is compared with the walk from the left.
\<close>

definition dot :: string where "dot = ''.''"
definition dotdot :: string where "dotdot = ''..''"

lemma dot_neq [simp]: "dot \<noteq> dotdot" "dot \<noteq> []" "dotdot \<noteq> []" "dotdot \<noteq> dot"
  by (simp_all add: dot_def dotdot_def)

section \<open>Normalising a list of segments\<close>

text \<open>The loop \<open>for (i = e.length - 1; i >= 0; i--)\<close>: the segments still to see, last first, the
  counter, and what is kept to the right.\<close>

fun scan_up :: "string list \<Rightarrow> nat \<Rightarrow> string list \<Rightarrow> string list \<times> nat" where
  "scan_up [] n acc = (acc, n)"
| "scan_up (r # rs) n acc =
     (if r = dot then scan_up rs n acc
      else if r = dotdot then scan_up rs (Suc n) acc
      else if n \<noteq> 0 then scan_up rs (n - 1) acc
      else scan_up rs n (r # acc))"

definition normalize_array :: "string list \<Rightarrow> bool \<Rightarrow> string list" where
  "normalize_array e t =
     (case scan_up (rev e) 0 [] of (ys, n) \<Rightarrow> if t then replicate n dotdot @ ys else ys)"

definition path_segments :: "string \<Rightarrow> string list" where
  "path_segments e = filter (\<lambda>s. s \<noteq> []) (split_on (CHR ''/'') e)"

definition is_absolute :: "string \<Rightarrow> bool" where
  "is_absolute e \<longleftrightarrow> e \<noteq> [] \<and> hd e = CHR ''/''"

definition normalize_path :: "string \<Rightarrow> string" where
  "normalize_path e =
     (let i = is_absolute e;
          a = (e \<noteq> [] \<and> last e = CHR ''/'');
          e1 = join_with ''/'' (normalize_array (path_segments e) (\<not> i));
          e2 = (if e1 = [] \<and> \<not> i then dot else e1);
          e3 = (if e2 \<noteq> [] \<and> a then e2 @ ''/'' else e2)
      in (if i then ''/'' else []) @ e3)"

definition join_path :: "string list \<Rightarrow> string" where
  "join_path es = normalize_path (join_with ''/'' es)"

text \<open>\<open>resolve\<close>: from the last argument back, until the path is absolute; the working directory
  comes after the first.\<close>

fun resolve_args :: "string list \<Rightarrow> string \<Rightarrow> string \<times> bool" where
  "resolve_args [] t = (t, False)"
| "resolve_args (a # as) t =
     (if a = [] then resolve_args as t
      else if is_absolute a then (a @ ''/'' @ t, True)
      else resolve_args as (a @ ''/'' @ t))"

definition path_resolve :: "string \<Rightarrow> string list \<Rightarrow> string" where
  "path_resolve cwd args =
     (let (t, i) = resolve_args (rev args @ [cwd]) [];
          r = (if i then ''/'' else []) @ join_with ''/'' (normalize_array (path_segments t) (\<not> i))
      in if r = [] then dot else r)"

section \<open>The scan from the right is the walk from the left\<close>

text \<open>The reference: leading steps up, and a stack of names.\<close>

fun walk_step :: "string \<Rightarrow> nat \<times> string list \<Rightarrow> nat \<times> string list" where
  "walk_step s (m, zs) =
     (if s = dot then (m, zs)
      else if s = dotdot then (if zs = [] then (Suc m, []) else (m, butlast zs))
      else (m, zs @ [s]))"

fun scan_right :: "string list \<Rightarrow> string list \<times> nat" where
  "scan_right [] = ([], 0)"
| "scan_right (x # xs) =
     (case scan_right xs of (ys, n) \<Rightarrow>
        if x = dot then (ys, n) else if x = dotdot then (ys, Suc n)
        else if n \<noteq> 0 then (ys, n - 1) else (x # ys, 0))"

lemma scan_up_append:
  "scan_up (rs @ [x]) n acc =
     (case scan_up rs n acc of (ys, m) \<Rightarrow>
        if x = dot then (ys, m) else if x = dotdot then (ys, Suc m)
        else if m \<noteq> 0 then (ys, m - 1) else (x # ys, 0))"
  by (induction rs n acc rule: scan_up.induct) auto

lemma scan_up_right: "scan_up (rev xs) 0 [] = scan_right xs"
  by (induction xs) (auto simp: scan_up_append split: prod.splits)

lemma walk_scan:
  "fold walk_step xs (m, zs) =
     (case scan_right xs of (ys, n) \<Rightarrow> (m + (n - length zs), take (length zs - n) zs @ ys))"
proof (induction xs arbitrary: m zs)
  case Nil
  then show ?case by simp
next
  case (Cons x xs)
  obtain ys n where s: "scan_right xs = (ys, n)" by fastforce
  show ?case
  proof (cases "x = dot \<or> x = dotdot")
    case True
    then show ?thesis
    proof (cases "x = dotdot \<and> zs \<noteq> []")
      case True
      then obtain us u where "zs = us @ [u]" by (cases zs rule: rev_cases) auto
      then show ?thesis using True Cons.IH s by simp
    qed (use Cons.IH s in auto)
  next
    case False
    then have "fold walk_step (x # xs) (m, zs) = (m + (n - Suc (length zs)), take (Suc (length zs) - n) (zs @ [x]) @ ys)"
      using Cons.IH s by simp
    moreover have "scan_right (x # xs) = (if n \<noteq> 0 then (ys, n - 1) else (x # ys, 0))"
      using False s by simp
    ultimately show ?thesis by (auto simp: Suc_diff_le)
  qed
qed

lemma normalize_array_walk:
  "normalize_array e t = (case fold walk_step e (0, []) of (m, zs) \<Rightarrow> if t then replicate m dotdot @ zs else zs)"
  by (simp add: normalize_array_def scan_up_right walk_scan split: prod.splits)

section \<open>Normal paths\<close>

definition names :: "string list \<Rightarrow> bool" where
  "names ys \<longleftrightarrow> (\<forall>y \<in> set ys. y \<noteq> dot \<and> y \<noteq> dotdot)"

lemma walk_names: "fold walk_step ys (m, zs) = (m, zs @ ys)" if "names ys"
  using that by (induction ys arbitrary: zs) (auto simp: names_def)

lemma walk_ups: "fold walk_step (replicate n dotdot) (m, []) = (m + n, [])"
  by (induction n arbitrary: m) auto

lemma walk_keeps_names:
  "names zs \<Longrightarrow> fold walk_step xs (m, zs) = (m', zs') \<Longrightarrow> names zs' \<and> set zs' \<subseteq> set zs \<union> set xs"
proof (induction xs arbitrary: m zs)
  case Nil
  then show ?case by simp
next
  case (Cons x xs)
  obtain m1 z1 where s: "walk_step x (m, zs) = (m1, z1)" by fastforce
  then have "names z1" and sub: "set z1 \<subseteq> set zs \<union> {x}"
    using Cons.prems(1) by (auto simp: names_def dest: in_set_butlastD split: if_splits)
  then show ?case using Cons.IH [of z1 m1] Cons.prems(2) s by auto
qed

lemma normalize_array_idem: "normalize_array (normalize_array e t) t = normalize_array e t"
proof -
  obtain m zs where w: "fold walk_step e (0, []) = (m, zs)" by fastforce
  have "names zs" using walk_keeps_names [OF _ w] by (simp add: names_def)
  then show ?thesis
    by (simp add: normalize_array_walk w walk_ups walk_names fold_append del: fold_replicate)
qed

lemma normalize_array_set: "set (normalize_array e t) \<subseteq> set e"
proof -
  have "m = 0 \<or> dotdot \<in> set xs \<or> m \<le> k" if "fold walk_step xs (k, zs) = (m, zs')" for xs k zs m zs'
    using that
  proof (induction xs arbitrary: k zs)
    case Nil
    then show ?case by simp
  next
    case (Cons x xs)
    then show ?case by (cases "x = dotdot") (auto split: if_splits)
  qed
  then have up: "fold walk_step e (0, []) = (m, zs) \<Longrightarrow> m = 0 \<or> dotdot \<in> set e" for m zs by blast
  obtain m zs where w: "fold walk_step e (0, []) = (m, zs)" by fastforce
  have "set zs \<subseteq> set e" using walk_keeps_names [OF _ w] by (simp add: names_def)
  then show ?thesis using up [OF w] by (auto simp: normalize_array_walk w)
qed

lemma path_segments_join:
  assumes "\<forall>s \<in> set ss. s \<noteq> [] \<and> CHR ''/'' \<notin> set s" and "ss \<noteq> []"
    and "x = [] \<or> x = ''/''" and "y = [] \<or> y = ''/''"
  shows "path_segments (x @ join_with ''/'' ss @ y) = ss"
proof -
  have f: "filter (\<lambda>s. s \<noteq> []) ss = ss" using assms(1) by (simp add: filter_id_conv)
  have "x @ join_with ''/'' ss @ y = join_with ''/'' ((if x = [] then [] else [[]]) @ ss @ (if y = [] then [] else [[]]))"
    using assms(2-4) by (auto simp: join_with_Cons join_with_append)
  moreover have "split_on (CHR ''/'') (join_with ''/'' ((if x = [] then [] else [[]]) @ ss @ (if y = [] then [] else [[]])))
      = (if x = [] then [] else [[]]) @ ss @ (if y = [] then [] else [[]])"
    using assms(1,2) by (intro split_on_join) (auto split: if_splits)
  ultimately show ?thesis using f by (simp add: path_segments_def)
qed

lemma path_segments_ok: "s \<in> set (path_segments e) \<Longrightarrow> s \<noteq> [] \<and> CHR ''/'' \<notin> set s"
  by (auto simp: path_segments_def dest: split_on_pieces)

lemma normalize_path_idem: "normalize_path (normalize_path e) = normalize_path e"
proof -
  let ?i = "is_absolute e" and ?a = "e \<noteq> [] \<and> last e = CHR ''/''"
  define ss where "ss = normalize_array (path_segments e) (\<not> is_absolute e)"
  have ok: "\<forall>s \<in> set ss. s \<noteq> [] \<and> CHR ''/'' \<notin> set s"
    using normalize_array_set path_segments_ok unfolding ss_def by blast
  have fix_ss: "normalize_array ss (\<not> ?i) = ss" unfolding ss_def by (rule normalize_array_idem)
  let ?x = "if ?i then ''/'' else []" and ?y = "if ?a then ''/'' else []"
  show ?thesis
  proof (cases "ss = []")
    case True
    have n: "normalize_path e = (if ?i then ''/'' else dot @ ?y)"
      using True by (simp add: normalize_path_def ss_def [symmetric])
    have "normalize_path ''/'' = ''/''" "normalize_path dot = dot" "normalize_path (dot @ ''/'') = dot @ ''/''"
      by code_simp+
    then show ?thesis using n by auto
  next
    case False
    obtain s t where s: "ss = s # t" "s \<noteq> []" "CHR ''/'' \<notin> set s" using False ok by (cases ss) auto
    then have j: "join_with ''/'' ss \<noteq> []" "hd (join_with ''/'' ss) \<noteq> CHR ''/''"
      by (cases s; auto simp: join_with_Cons)+
    obtain us u where u: "ss = us @ [u]" using False by (cases ss rule: rev_cases) auto
    then have "u \<noteq> []" "CHR ''/'' \<notin> set u" using ok by auto
    moreover have "last (join_with ''/'' ss) = last u"
      using \<open>u \<noteq> []\<close> u by (cases "us = []") (simp_all add: join_with_append)
    ultimately have l: "last (join_with ''/'' ss) \<noteq> CHR ''/''" using last_in_set by metis
    have n: "normalize_path e = ?x @ join_with ''/'' ss @ ?y"
      using j by (simp add: normalize_path_def ss_def [symmetric])
    have "path_segments (normalize_path e) = ss"
      unfolding n using ok False by (intro path_segments_join) auto
    moreover have "is_absolute (normalize_path e) = ?i" unfolding n using j by (auto simp: is_absolute_def)
    moreover have "(normalize_path e \<noteq> [] \<and> last (normalize_path e) = CHR ''/'') = ?a" unfolding n using j l by auto
    ultimately show ?thesis
      unfolding normalize_path_def [of "normalize_path e"] using fix_ss j n by (simp add: Let_def)
  qed
qed

end
