(* ===== verification/PathNames.thy ===== *)
theory PathNames
  imports NodePath
begin

text \<open>
  The rest of the path module (\<open>chunk-vendors.ddcb6f91.js\<close>, module \<open>df7c\<close>): \<open>relative\<close>, \<open>dirname\<close>,
  \<open>basename\<close> with its helper \<open>i\<close>, and \<open>extname\<close>, whose loops scan a path from its end. A relative path
  leads from the one place to the other; the base name is the last segment, and the extension is the
  end of it from its last dot.
\<close>

section \<open>Relative paths\<close>

text \<open>\<open>trim\<close>, the inner function \<open>i\<close> of \<open>relative\<close>: empty segments at both ends are dropped; \<open>slice(t, n - t + 1)\<close>.\<close>

definition trim_segments :: "string list \<Rightarrow> string list" where
  "trim_segments e =
     (let t = int (length (takeWhile (\<lambda>s. s = []) e));
          n = int (length e) - 1 - int (length (takeWhile (\<lambda>s. s = []) (rev e)))
      in if t > n then [] else drop (nat t) (take (nat (n - t + 1)) e))"

text \<open>The loop that counts the segments both paths start with.\<close>

fun same_parts :: "string list \<Rightarrow> string list \<Rightarrow> nat" where
  "same_parts (x # r) (y # u) = (if x \<noteq> y then 0 else Suc (same_parts r u))"
| "same_parts _ _ = 0"

definition path_relative :: "string \<Rightarrow> string \<Rightarrow> string \<Rightarrow> string" where
  "path_relative cwd e n =
     (let r = trim_segments (split_on (CHR ''/'') (tl (path_resolve cwd [e])));
          u = trim_segments (split_on (CHR ''/'') (tl (path_resolve cwd [n])));
          s = same_parts r u
      in join_with ''/'' (replicate (length r - s) dotdot @ drop s u))"

section \<open>Names and extensions\<close>

text \<open>The loops look at the characters from the end: their first argument holds those still to see, last
  first, so the index of the first of them is the number of the others. \<open>dirname\<close> does not look at the
  character at 0; \<open>r\<close> while only slashes have been seen.\<close>

fun dir_scan :: "string \<Rightarrow> bool \<Rightarrow> nat option" where
  "dir_scan (c # d # e) r =
     (if c = CHR ''/'' then (if \<not> r then Some (Suc (length e)) else dir_scan (d # e) r) else dir_scan (d # e) False)"
| "dir_scan _ r = None"

definition dir_name :: "string \<Rightarrow> string" where
  "dir_name e =
     (if e = [] then dot
      else
        let n = (hd e = CHR ''/'') in
        case dir_scan (rev e) True of
          None \<Rightarrow> if n then ''/'' else dot
        | Some i \<Rightarrow> if n \<and> i = 1 then ''/'' else take i e)"

text \<open>The helper \<open>i\<close>: the start and the end of the name. Only slashes have been seen while there is no
  end, so \<open>r\<close> is left out.\<close>

fun base_scan :: "string \<Rightarrow> nat option \<Rightarrow> nat \<times> nat option" where
  "base_scan [] i = (0, i)"
| "base_scan (c # e) i =
     (if c = CHR ''/'' then (if i \<noteq> None then (Suc (length e), i) else base_scan e i)
      else base_scan e (if i = None then Some (Suc (length e)) else i))"

definition last_part :: "string \<Rightarrow> string" where
  "last_part e = (case base_scan (rev e) None of (n, None) \<Rightarrow> [] | (n, Some i) \<Rightarrow> drop n (take i e))"

text \<open>\<open>basename(e, t)\<close>; \<open>substr\<close> with a negative start counts from the end, not beyond the start.\<close>

definition base_name :: "string \<Rightarrow> string \<Rightarrow> string" where
  "base_name e t =
     (let n = last_part e in
      if t \<noteq> [] \<and> drop (length n - length t) n = t then take (length n - length t) n else n)"

text \<open>\<open>extname\<close>: the last dot, the end, and the state \<open>o\<close> of the dots: 0 while nothing stands before the
  dot, 1 after another dot, -1 after another character.\<close>

record ext_state =
  start_dot :: "nat option"
  name_end :: "nat option"
  dot_state :: int

fun ext_scan :: "string \<Rightarrow> ext_state \<Rightarrow> nat \<times> ext_state" where
  "ext_scan [] st = (0, st)"
| "ext_scan (c # e) st =
     (if c \<noteq> CHR ''/'' then
        let st1 = (if name_end st = None then st\<lparr>name_end := Some (Suc (length e))\<rparr> else st);
            st2 = (if c = CHR ''.'' then
                     (if start_dot st1 = None then st1\<lparr>start_dot := Some (length e)\<rparr>
                      else if dot_state st1 \<noteq> 1 then st1\<lparr>dot_state := 1\<rparr> else st1)
                   else if start_dot st1 \<noteq> None then st1\<lparr>dot_state := -1\<rparr> else st1)
        in ext_scan e st2
      else if name_end st \<noteq> None then (Suc (length e), st)
      else ext_scan e st)"

definition ext_name :: "string \<Rightarrow> string" where
  "ext_name e =
     (case ext_scan (rev e) \<lparr>start_dot = None, name_end = None, dot_state = 0\<rparr> of (n, st) \<Rightarrow>
        (case (start_dot st, name_end st) of
           (Some t, Some i) \<Rightarrow>
             if dot_state st = 0 \<or> dot_state st = 1 \<and> Suc t = i \<and> t = Suc n then [] else drop t (take i e)
         | _ \<Rightarrow> []))"

section \<open>The relative path leads there\<close>

lemma trim_nonempty:
  assumes "\<forall>s \<in> set ss. s \<noteq> []"
  shows "trim_segments ss = ss"
proof -
  have "takeWhile (\<lambda>s. s = []) ss = []" using assms by (cases ss) auto
  moreover have "takeWhile (\<lambda>s. s = []) (rev ss) = []" using assms by (cases ss rule: rev_cases) auto
  ultimately show ?thesis by (cases "ss = []") (simp_all add: trim_segments_def)
qed

lemma trim_root: "trim_segments [[]] = []"
  by (simp add: trim_segments_def)

lemma split_on_mid: "split_on c (a @ c # b) = split_on c a @ split_on c b"
  by (induction c a rule: split_on.induct) (auto split: list.split)

lemma path_segments_append:
  "path_segments (a @ CHR ''/'' # b) = path_segments a @ path_segments b" "path_segments [] = []"
  by (simp_all add: path_segments_def split_on_mid)

text \<open>The segments that a last argument leads to.\<close>

definition place :: "string \<Rightarrow> string \<Rightarrow> string list" where
  "place cwd e = (if is_absolute e then path_segments e else path_segments cwd @ path_segments e)"

lemma is_absolute_append: "a \<noteq> [] \<Longrightarrow> is_absolute (a @ b) = is_absolute a"
  by (simp add: is_absolute_def)

lemma resolve_one:
  assumes "is_absolute cwd"
  shows "\<exists>t. resolve_args [e, cwd] [] = (t, True) \<and> path_segments t = place cwd e"
  using assms by (cases "e = []") (auto simp: place_def is_absolute_def path_segments_append)

lemma resolve_text:
  assumes "is_absolute cwd"
  shows "path_resolve cwd [e] = ''/'' @ join_with ''/'' (normalize_array (place cwd e) False)"
proof -
  obtain t where "resolve_args [e, cwd] [] = (t, True)" "path_segments t = place cwd e" using resolve_one [OF assms] by blast
  then show ?thesis by (simp add: path_resolve_def Let_def)
qed

lemma place_ok: "s \<in> set (normalize_array (place cwd e) False) \<Longrightarrow> s \<noteq> [] \<and> CHR ''/'' \<notin> set s"
  using normalize_array_set [of "place cwd e" False] path_segments_ok by (auto simp: place_def split: if_splits)

lemma place_read:
  assumes "is_absolute cwd"
  shows "trim_segments (split_on (CHR ''/'') (tl (path_resolve cwd [e]))) = normalize_array (place cwd e) False"
proof (cases "normalize_array (place cwd e) False = []")
  case True
  then show ?thesis by (simp add: resolve_text [OF assms] trim_root)
next
  case False
  then have "split_on (CHR ''/'') (join_with ''/'' (normalize_array (place cwd e) False)) = normalize_array (place cwd e) False"
    using place_ok by (intro split_on_join) auto
  moreover have "trim_segments (normalize_array (place cwd e) False) = normalize_array (place cwd e) False"
    using place_ok by (intro trim_nonempty) blast
  ultimately show ?thesis by (simp add: resolve_text [OF assms])
qed

lemma same_parts_take: "take (same_parts r u) r = take (same_parts r u) u \<and> same_parts r u \<le> length r"
  by (induction r u rule: same_parts.induct) auto

lemma walk_back: "k \<le> length zs \<Longrightarrow> fold walk_step (replicate k dotdot) (m, zs) = (m, take (length zs - k) zs)"
proof (induction k arbitrary: zs)
  case (Suc k)
  then have "zs \<noteq> []" by auto
  then have "fold walk_step (replicate (Suc k) dotdot) (m, zs) = fold walk_step (replicate k dotdot) (m, butlast zs)" by simp
  also have "\<dots> = (m, take (length zs - Suc k) zs)"
    using Suc by (subst Suc.IH) (auto simp: butlast_conv_take min_def)
  finally show ?case .
qed simp

lemma walk_across:
  assumes "fold walk_step xs (0, []) = (m, zs)" and "names ys"
  shows "fold walk_step (xs @ replicate (length zs - same_parts zs ys) dotdot @ drop (same_parts zs ys) ys) (0, []) = (m, ys)"
proof -
  let ?s = "same_parts zs ys"
  have s: "take ?s zs = take ?s ys" "?s \<le> length zs" using same_parts_take by blast+
  have "names (drop ?s ys)" using assms(2) by (auto simp: names_def dest: in_set_dropD)
  then show ?thesis using s by (simp add: assms(1) walk_back walk_names del: fold_replicate)
qed

lemma path_segments_joined:
  assumes "\<forall>s \<in> set ss. s \<noteq> [] \<and> CHR ''/'' \<notin> set s"
  shows "path_segments (join_with ''/'' ss) = ss"
  using path_segments_join [OF assms, of "[]" "[]"] by (cases "ss = []") (simp_all add: path_segments_def)

lemma relative_not_absolute:
  assumes "\<forall>s \<in> set ss. s \<noteq> [] \<and> CHR ''/'' \<notin> set s"
  shows "\<not> is_absolute (join_with ''/'' ss)"
proof (cases ss)
  case (Cons s t)
  then obtain c cs where "s = c # cs" "c \<noteq> CHR ''/''" using assms by (cases s) auto
  then show ?thesis using Cons by (cases t) (simp_all add: is_absolute_def)
qed (simp add: is_absolute_def)

lemma resolve_two:
  assumes "is_absolute cwd" and "\<not> is_absolute r"
  shows "\<exists>t. resolve_args [r, e, cwd] [] = (t, True) \<and> path_segments t = place cwd e @ path_segments r"
  using assms by (cases "e = []"; cases "r = []") (auto simp: place_def is_absolute_def path_segments_append)

lemma relative_leads_there:
  assumes "is_absolute cwd"
  shows "path_resolve cwd [e, path_relative cwd e n] = path_resolve cwd [n]"
proof -
  let ?r = "normalize_array (place cwd e) False" and ?u = "normalize_array (place cwd n) False"
  let ?ss = "replicate (length ?r - same_parts ?r ?u) dotdot @ drop (same_parts ?r ?u) ?u"
  have rel: "path_relative cwd e n = join_with ''/'' ?ss" by (simp add: path_relative_def place_read [OF assms] Let_def)
  have ok: "\<forall>s \<in> set ?ss. s \<noteq> [] \<and> CHR ''/'' \<notin> set s"
    using place_ok by (auto simp: dotdot_def dest: in_set_dropD)
  have "\<not> is_absolute (path_relative cwd e n)" unfolding rel by (rule relative_not_absolute [OF ok])
  from resolve_two [OF assms this, of e] obtain t where t: "resolve_args [path_relative cwd e n, e, cwd] [] = (t, True)"
    "path_segments t = place cwd e @ ?ss" unfolding rel path_segments_joined [OF ok] by blast
  obtain m zs where w: "fold walk_step (place cwd e) (0, []) = (m, zs)" by fastforce
  obtain k ys where y: "fold walk_step (place cwd n) (0, []) = (k, ys)" by fastforce
  have "names ys" using walk_keeps_names [OF _ y] by (simp add: names_def)
  moreover have "?r = zs" "?u = ys" by (simp_all add: normalize_array_walk w y)
  ultimately have "normalize_array (place cwd e @ ?ss) False = ys"
    using walk_across [OF w] by (simp only: normalize_array_walk) simp
  then show ?thesis using t \<open>?u = ys\<close> by (simp add: resolve_text [OF assms] path_resolve_def [of cwd "[e, _]"] Let_def)
qed

section \<open>Names are what they should be\<close>

text \<open>A path with a name: what stands before it, the name, and slashes at the end.\<close>

definition slashes :: "nat \<Rightarrow> string" where
  "slashes k = replicate k (CHR ''/'')"

definition ends_dir :: "string \<Rightarrow> bool" where
  "ends_dir p \<longleftrightarrow> p = [] \<or> last p = CHR ''/''"

lemma path_parts: "(\<exists>k. e = slashes k) \<or> (\<exists>p b k. e = p @ b @ slashes k \<and> b \<noteq> [] \<and> CHR ''/'' \<notin> set b \<and> ends_dir p)"
proof (induction e rule: rev_induct)
  case Nil
  have "[] = slashes 0" by (simp add: slashes_def)
  then show ?case by blast
next
  case (snoc c e)
  show ?case
  proof (cases "c = CHR ''/''")
    case True
    then have s: "slashes k @ [c] = slashes (Suc k)" for k by (simp add: slashes_def replicate_append_same)
    then show ?thesis using snoc by (metis append.assoc)
  next
    case False
    have 1: "ends_dir (slashes k)" for k by (cases k) (simp_all add: ends_dir_def slashes_def)
    from snoc consider k where "e = slashes k" | p b k where "e = p @ b @ slashes k" "b \<noteq> []" "CHR ''/'' \<notin> set b" "ends_dir p"
      by blast
    then obtain p b where "e @ [c] = p @ b @ slashes 0" "b \<noteq> []" "CHR ''/'' \<notin> set b" "ends_dir p"
    proof cases
      case (1 k)
      then show ?thesis using that [of e "[c]"] False \<open>ends_dir (slashes k)\<close> by (simp add: slashes_def)
    next
      case (2 p b k)
      show ?thesis
      proof (cases k)
        case 0
        then show ?thesis using that [of p "b @ [c]"] 2 False by (simp add: slashes_def)
      next
        case (Suc j)
        then have "ends_dir e" using 2(1) by (simp add: ends_dir_def slashes_def)
        then show ?thesis using that [of e "[c]"] False by (simp add: slashes_def)
      qed
    qed
    then show ?thesis by blast
  qed
qed

lemma path_segments_parts:
  assumes "ends_dir p" and "b \<noteq> []" and "CHR ''/'' \<notin> set b"
  shows "path_segments (p @ b @ slashes k) = path_segments p @ [b]"
proof -
  have k: "path_segments (w @ slashes k) = path_segments w" for w
  proof (induction k arbitrary: w)
    case (Suc k)
    have "w @ slashes (Suc k) = (w @ slashes k) @ CHR ''/'' # []" by (simp add: slashes_def replicate_append_same)
    then show ?case using Suc path_segments_append(1) [of "w @ slashes k" "[]"] by (simp add: path_segments_append(2))
  qed (simp add: slashes_def)
  have b: "path_segments b = [b]" using assms(2,3) by (simp add: path_segments_def split_on_no_sep)
  show ?thesis
  proof (cases "p = []")
    case False
    then obtain w where w: "p = w @ [CHR ''/'']" using assms(1) by (cases p rule: rev_cases) (auto simp: ends_dir_def)
    have "path_segments p = path_segments w" using path_segments_append(1) [of w "[]"] w by (simp add: path_segments_append(2))
    then show ?thesis using k [of "p @ b"] w b path_segments_append(1) [of w b] by simp
  qed (use k [of b] b path_segments_append(2) in simp)
qed

lemma path_segments_slashes: "path_segments (slashes k) = []"
  by (induction k) (simp_all add: slashes_def path_segments_def)

lemma base_scan_slashes: "base_scan (slashes k @ e) None = base_scan e None"
  by (induction k) (simp_all add: slashes_def)

lemma base_scan_name: "CHR ''/'' \<notin> set b \<Longrightarrow> base_scan (b @ e) (Some i) = base_scan e (Some i)"
  by (induction b) auto

lemma base_scan_stop: "ends_dir p \<Longrightarrow> base_scan (rev p) (Some i) = (length p, Some i)"
  by (cases p rule: rev_cases) (simp_all add: ends_dir_def)

lemma rev_slashes: "rev (slashes k) = slashes k"
  by (simp add: slashes_def)

lemma last_part_parts:
  assumes "ends_dir p" and "b \<noteq> []" and "CHR ''/'' \<notin> set b"
  shows "last_part (p @ b @ slashes k) = b"
proof -
  obtain w c where b: "b = w @ [c]" using assms(2) by (cases b rule: rev_cases) auto
  have "base_scan (rev (p @ b @ slashes k)) None = (length p, Some (length p + length b))"
    using assms b base_scan_name [of "rev w" "rev p"] base_scan_stop [OF assms(1)]
    by (auto simp: rev_slashes base_scan_slashes)
  then show ?thesis by (simp add: last_part_def)
qed

lemma last_part_slashes: "last_part (slashes k) = []"
  using base_scan_slashes [of k "[]"] by (simp add: last_part_def rev_slashes)

text \<open>The last part is the last segment.\<close>

lemma last_part_segments: "last_part e = (if path_segments e = [] then [] else last (path_segments e))"
  using path_parts [of e]
proof (elim disjE exE conjE)
  fix k assume "e = slashes k"
  then show ?thesis by (simp add: last_part_slashes path_segments_slashes)
next
  fix p b k assume "e = p @ b @ slashes k" "b \<noteq> []" "CHR ''/'' \<notin> set b" "ends_dir p"
  then show ?thesis by (simp add: last_part_parts path_segments_parts)
qed

section \<open>The directory\<close>

lemma dir_scan_slashes: "dir_scan (slashes k @ e) True = (if e = [] then None else dir_scan e True)"
proof (induction k)
  case (Suc k)
  then show ?case by (cases "slashes k @ e") (auto simp: slashes_def)
qed (cases e; simp add: slashes_def)

lemma dir_scan_name: "CHR ''/'' \<notin> set b \<Longrightarrow> b \<noteq> [] \<Longrightarrow> e \<noteq> [] \<Longrightarrow> dir_scan (b @ e) r = dir_scan e False"
proof (induction b arbitrary: r)
  case (Cons x b)
  then show ?case by (cases b; cases e) auto
qed simp

lemma dir_scan_none: "CHR ''/'' \<notin> set b \<Longrightarrow> dir_scan b r = None"
  by (induction b r rule: dir_scan.induct) auto

lemma dir_name_parts:
  assumes "ends_dir p" and "b \<noteq> []" and "CHR ''/'' \<notin> set b"
  shows "dir_name (p @ b @ slashes k) =
    (if p = [] then dot else if p = ''/'' \<or> p = ''//'' then ''/'' else butlast p)"
proof (cases p rule: rev_cases)
  case Nil
  have "dir_scan (rev b) True = None" using assms(3) by (intro dir_scan_none) simp
  moreover have "hd b \<noteq> CHR ''/''" using assms(2,3) by (cases b) auto
  ultimately show ?thesis using Nil assms(2) by (simp add: dir_name_def rev_slashes dir_scan_slashes)
next
  case (snoc w c)
  then have c: "c = CHR ''/''" using assms(1) by (simp add: ends_dir_def)
  have "dir_scan (rev (p @ b @ slashes k)) True = dir_scan (rev b @ rev p) True"
    using snoc by (simp add: rev_slashes dir_scan_slashes)
  also have "\<dots> = dir_scan (rev p) False" using assms(2,3) snoc by (intro dir_scan_name) simp_all
  also have "\<dots> = (if w = [] then None else Some (length w))" using snoc c by (cases w rule: rev_cases) simp_all
  finally have d: "dir_scan (rev (p @ b @ slashes k)) True = (if w = [] then None else Some (length w))" .
  show ?thesis
  proof (cases w)
    case Nil
    then show ?thesis using d snoc c by (simp add: dir_name_def)
  next
    case (Cons x v)
    then show ?thesis using d snoc c by (cases v) (auto simp: dir_name_def)
  qed
qed

lemma dir_name_slashes: "dir_name (slashes k) = (if k = 0 then dot else ''/'')"
proof -
  have "dir_scan (slashes k) True = None" using dir_scan_slashes [of k "[]"] by simp
  then show ?thesis by (cases k) (simp_all add: dir_name_def rev_slashes, simp_all add: slashes_def)
qed

text \<open>The directory and the name lead to the path.\<close>

lemma place_eq:
  assumes "is_absolute cwd" and "normalize_array (place cwd d @ path_segments b) False = normalize_array (place cwd e) False"
    and "\<not> is_absolute b"
  shows "path_resolve cwd [d, b] = path_resolve cwd [e]"
proof -
  obtain t where t: "resolve_args [b, d, cwd] [] = (t, True)" "path_segments t = place cwd d @ path_segments b"
    using resolve_two [OF assms(1,3)] by blast
  show ?thesis unfolding resolve_text [OF assms(1), of e] using t assms(2) by (simp add: path_resolve_def Let_def)
qed

lemma normalize_dots: "normalize_array (xs @ dot # ys) t = normalize_array (xs @ ys) t"
proof -
  have "walk_step dot x = x" for x by (cases x) simp
  then show ?thesis by (simp add: normalize_array_walk)
qed

lemma dir_and_name:
  assumes "is_absolute cwd"
  shows "path_resolve cwd [dir_name e, base_name e []] = path_resolve cwd [e]"
proof (rule place_eq [OF assms])
  have n: "\<not> is_absolute b" if "CHR ''/'' \<notin> set b" for b using that by (cases b) (auto simp: is_absolute_def)
  have b: "base_name e [] = last_part e" by (simp add: base_name_def Let_def)
  have d: "path_segments dot = [dot]" by (simp add: path_segments_def dot_def)
  have r: "path_segments ''/'' = []" "path_segments ''//'' = []" by (simp_all add: path_segments_def)
  show "normalize_array (place cwd (dir_name e) @ path_segments (base_name e [])) False = normalize_array (place cwd e) False"
    using path_parts [of e]
  proof (elim disjE exE conjE)
    fix k assume e: "e = slashes k"
    show ?thesis
    proof (cases k)
      case 0
      have "\<not> is_absolute dot" "\<not> is_absolute []" by (simp_all add: is_absolute_def dot_def)
      then show ?thesis using 0 normalize_dots [of "path_segments cwd" "[]" False]
        by (simp add: b e last_part_slashes dir_name_slashes place_def d path_segments_append(2)) (simp add: slashes_def path_segments_append(2) base_name_def last_part_def)
    next
      case (Suc j)
      have "is_absolute (slashes (Suc j))" "is_absolute ''/''" by (simp_all add: is_absolute_def slashes_def)
      then show ?thesis using Suc
        by (simp add: b e last_part_slashes dir_name_slashes place_def r path_segments_append(2) path_segments_slashes base_name_def)
    qed
  next
    fix p c k assume e: "e = p @ c @ slashes k" and c: "c \<noteq> []" "CHR ''/'' \<notin> set c" and p: "ends_dir p"
    have bc: "path_segments (base_name e []) = [c]"
    proof -
      have "base_name e [] = c" by (simp add: base_name_def e last_part_parts [OF p c])
      then show ?thesis using c by (simp add: path_segments_def split_on_no_sep)
    qed
    show ?thesis
    proof (cases p rule: rev_cases)
      case Nil
      have "\<not> is_absolute e" using Nil e c by (cases c) (auto simp: is_absolute_def)
      moreover have "\<not> is_absolute dot" by (simp add: is_absolute_def dot_def)
      moreover have "dir_name e = dot" "path_segments e = [c]"
        using Nil e dir_name_parts [OF p c, of k] path_segments_parts [OF p c, of k] by (simp_all add: path_segments_append(2))
      ultimately show ?thesis
        using normalize_dots [of "path_segments cwd" "[c]" False] by (simp add: bc place_def d)
    next
      case (snoc w x)
      then have x: "x = CHR ''/''" using p by (simp add: ends_dir_def)
      have "path_segments (dir_name e) = path_segments p \<and> is_absolute (dir_name e) = is_absolute e"
      proof -
        have "dir_name e = (if w = [] \<or> w = ''/'' then ''/'' else w)"
          unfolding e dir_name_parts [OF p c] using snoc x by (cases w) simp_all
        moreover have "path_segments p = path_segments w" using snoc x path_segments_append by simp
        moreover have "is_absolute e = (w = [] \<or> is_absolute w)" using e snoc x by (cases w) (simp_all add: is_absolute_def)
        ultimately show ?thesis by (auto simp: r path_segments_append(2) is_absolute_def)
      qed
      then show ?thesis using path_segments_parts [OF p c, of k] unfolding e [symmetric] by (simp add: bc place_def)
    qed
  qed
  have "CHR ''/'' \<notin> set (last_part e)"
    using path_segments_ok [of "last (path_segments e)" e] by (simp add: last_part_segments)
  then show "\<not> is_absolute (base_name e [])" using n b by simp
qed

section \<open>Extensions\<close>

text \<open>The extension of a name by its last dot: none if no dot is there, or if it is the first character,
  or for two dots.\<close>

definition extension :: "string \<Rightarrow> string" where
  "extension b =
     (let w = takeWhile (\<lambda>c. c \<noteq> CHR ''.'') (rev b); p = drop (Suc (length w)) (rev b)
      in if CHR ''.'' \<notin> set b \<or> p = [] \<or> b = dotdot then [] else CHR ''.'' # rev w)"

lemma ext_scan_slashes: "name_end st = None \<Longrightarrow> ext_scan (slashes k @ e) st = ext_scan e st"
  by (induction k) (simp_all add: slashes_def)

lemma ext_scan_plain:
  "CHR ''/'' \<notin> set w \<Longrightarrow> CHR ''.'' \<notin> set w \<Longrightarrow> start_dot st = None \<Longrightarrow> name_end st = Some i \<Longrightarrow> ext_scan (w @ e) st = ext_scan e st"
  by (induction w) (auto simp: Let_def)

lemma ext_scan_rest:
  "CHR ''/'' \<notin> set w \<Longrightarrow> start_dot st = Some t \<Longrightarrow> name_end st = Some i \<Longrightarrow>
     ext_scan (w @ e) st = ext_scan e (st\<lparr>dot_state := (if w = [] then dot_state st else if last w = CHR ''.'' then 1 else -1)\<rparr>)"
proof (induction w arbitrary: st)
  case (Cons c w)
  have c: "c \<noteq> CHR ''/''" "CHR ''/'' \<notin> set w" using Cons.prems(1) by auto
  let ?st = "st\<lparr>dot_state := (if c = CHR ''.'' then 1 else -1)\<rparr>"
  have "ext_scan ((c # w) @ e) st = ext_scan (w @ e) ?st" using c Cons.prems(2,3) by (cases st) (simp add: Let_def)
  also have "\<dots> = ext_scan e (?st\<lparr>dot_state := (if w = [] then dot_state ?st else if last w = CHR ''.'' then 1 else -1)\<rparr>)"
    using c Cons.prems by (intro Cons.IH) simp_all
  finally show ?case by simp
qed simp

lemma ext_scan_stop: "ends_dir p \<Longrightarrow> name_end st = Some i \<Longrightarrow> ext_scan (rev p) st = (length p, st)"
  by (cases p rule: rev_cases) (simp_all add: ends_dir_def)

lemma ext_scan_first:
  assumes "c \<noteq> CHR ''/''" and "name_end st = None"
  shows "ext_scan (c # e) st = ext_scan (c # e) (st\<lparr>name_end := Some (Suc (length e))\<rparr>)"
  using assms by (cases st) (simp add: Let_def)

lemma ext_name_parts:
  assumes p: "ends_dir p" and b: "b \<noteq> []" "CHR ''/'' \<notin> set b"
  shows "ext_name (p @ b @ slashes k) = extension b"
proof -
  let ?i = "length p + length b"
  let ?st = "\<lparr>start_dot = None, name_end = Some ?i, dot_state = 0\<rparr>"
  obtain c v where c: "rev b = c # v" using b(1) by (cases "rev b") auto
  have "c \<in> set (rev b)" unfolding c by simp
  moreover have "length (rev b) = Suc (length v)" unfolding c by simp
  ultimately have cs: "c \<noteq> CHR ''/''" "Suc (length (v @ rev p)) = ?i" using b(2) by auto
  have s: "ext_scan (rev (p @ b @ slashes k)) \<lparr>start_dot = None, name_end = None, dot_state = 0\<rparr> = ext_scan (rev b @ rev p) ?st"
    using ext_scan_first [OF cs(1), of "\<lparr>start_dot = None, name_end = None, dot_state = 0\<rparr>" "v @ rev p"] cs(2) c
    by (simp add: rev_slashes ext_scan_slashes add.commute del: ext_scan.simps)
  let ?w = "takeWhile (\<lambda>c. c \<noteq> CHR ''.'') (rev b)"
  have w: "CHR ''.'' \<notin> set ?w" "CHR ''/'' \<notin> set ?w" using b(2) by (auto dest: set_takeWhileD)
  show ?thesis
  proof (cases "CHR ''.'' \<in> set b")
    case False
    then have "?w = rev b" by (auto simp: takeWhile_eq_all_conv)
    then have "ext_scan (rev b @ rev p) ?st = (length p, ?st)"
      using ext_scan_plain [of "rev b" ?st ?i "rev p"] False b(2) ext_scan_stop [OF p, of ?st ?i] by simp
    then show ?thesis using False s by (simp add: ext_name_def extension_def Let_def)
  next
    case True
    obtain v u where vu: "rev b = v @ CHR ''.'' # u" "CHR ''.'' \<notin> set v"
      using True split_list_first [of "CHR ''.''" "rev b"] by auto
    then have wv: "?w = v" by (simp add: takeWhile_sep)
    then have u: "drop (Suc (length ?w)) (rev b) = u" and rb: "rev b = ?w @ CHR ''.'' # u" using vu(1) by simp_all
    have bu: "b = rev u @ CHR ''.'' # rev ?w" using arg_cong [OF rb, of rev] by simp
    have us: "CHR ''/'' \<notin> set u" using b(2) bu by (metis Un_iff set_append set_rev)
    let ?t = "length p + length u"
    let ?sd = "?st\<lparr>start_dot := Some ?t\<rparr>"
    let ?o = "if u = [] then 0 else if last u = CHR ''.'' then 1 else -1 :: int"
    have "ext_scan (rev b @ rev p) ?st = ext_scan (?w @ CHR ''.'' # u @ rev p) ?st" by (subst rb) simp
    also have "\<dots> = ext_scan (CHR ''.'' # u @ rev p) ?st" using w by (intro ext_scan_plain) simp_all
    also have "\<dots> = ext_scan (u @ rev p) ?sd" by (simp add: Let_def add.commute)
    also have "\<dots> = ext_scan (rev p) (?sd\<lparr>dot_state := ?o\<rparr>)" using ext_scan_rest [OF us, of ?sd ?t ?i "rev p"] by simp
    also have "\<dots> = (length p, ?sd\<lparr>dot_state := ?o\<rparr>)" using p by (intro ext_scan_stop) simp_all
    finally have e: "ext_scan (rev (p @ b @ slashes k)) \<lparr>start_dot = None, name_end = None, dot_state = 0\<rparr>
        = (length p, ?sd\<lparr>dot_state := ?o\<rparr>)" unfolding s .
    have lb: "length b = length u + Suc (length ?w)" by (subst bu) simp
    have two: "b = dotdot \<longleftrightarrow> u = ''.'' \<and> ?w = []"
    proof
      assume "b = dotdot"
      then show "u = ''.'' \<and> ?w = []" unfolding u [symmetric] by (simp add: dotdot_def)
    next
      assume "u = ''.'' \<and> ?w = []"
      then show "b = dotdot" using bu by (simp add: dotdot_def)
    qed
    have one: "last u = CHR ''.'' \<and> Suc ?t = ?i \<and> ?t = Suc (length p) \<longleftrightarrow> u = ''.'' \<and> ?w = []" if "u \<noteq> []"
      using that lb by (cases u) auto
    have "drop ?t (take ?i (p @ b @ slashes k)) = CHR ''.'' # rev ?w"
    proof -
      have "take ?i (p @ b @ slashes k) = p @ b" by simp
      moreover have "drop ?t (p @ b) = drop (length u) b" by simp
      moreover have "drop (length u) b = CHR ''.'' # rev ?w" by (subst bu) simp
      ultimately show ?thesis by simp
    qed
    then show ?thesis using e one two True unfolding extension_def Let_def u
      by (auto simp: ext_name_def)
  qed
qed

lemma ext_name_slashes: "ext_name (slashes k) = []"
  using ext_scan_slashes [of "\<lparr>start_dot = None, name_end = None, dot_state = 0\<rparr>" k "[]"] by (simp add: ext_name_def rev_slashes)

lemma ext_name_base: "ext_name e = extension (last_part e)"
  using path_parts [of e]
proof (elim disjE exE conjE)
  fix k assume "e = slashes k"
  then show ?thesis by (simp add: last_part_slashes ext_name_slashes extension_def)
next
  fix p b k assume "e = p @ b @ slashes k" "b \<noteq> []" "CHR ''/'' \<notin> set b" "ends_dir p"
  then show ?thesis by (simp add: last_part_parts ext_name_parts)
qed

lemma extension_suffix: "\<exists>a. b = a @ extension b"
proof (cases "extension b = []")
  case False
  then have "CHR ''.'' \<in> set b" by (simp add: extension_def Let_def split: if_splits)
  then obtain v u where vu: "rev b = v @ CHR ''.'' # u" "CHR ''.'' \<notin> set v"
    using split_list_first [of "CHR ''.''" "rev b"] by auto
  then have "extension b = CHR ''.'' # rev v" using False by (simp add: extension_def Let_def takeWhile_sep split: if_splits)
  moreover have "b = rev u @ CHR ''.'' # rev v" using arg_cong [OF vu(1), of rev] by simp
  ultimately have "b = rev u @ extension b" by simp
  then show ?thesis by (rule exI)
qed auto

lemma base_and_extension: "base_name e (ext_name e) @ ext_name e = base_name e []"
proof -
  obtain a where a: "last_part e = a @ ext_name e" using extension_suffix [of "last_part e"] ext_name_base by metis
  then show ?thesis by (simp add: base_name_def Let_def)
qed

end
