(* ===== verification/Probes.thy ===== *)
theory Probes
  imports Prelude
begin

text \<open>
  Two feature probes of the bundled libraries (\<open>chunk-vendors.ddcb6f91.js\<close>): \<open>isBuffer\<close>
  (module \<open>c7ce\<close>), which axios asks before it sends a body, and \<open>isEventSupported\<close> (module
  \<open>7b3e\<close>), which the table's wheel handling asks of the browser. What they look at is a record
  of the environment.
\<close>

section \<open>Buffers\<close>

text \<open>\<open>ctor v\<close> is \<open>v.constructor\<close>, \<open>None\<close> when it is \<open>null\<close> or \<open>undefined\<close>; a constructor is its
  \<open>isBuffer\<close> when that is a function. The argument \<open>None\<close> is \<open>null\<close> or \<open>undefined\<close>.\<close>

definition is_buffer :: "('v \<Rightarrow> (('v \<Rightarrow> bool) option) option) \<Rightarrow> 'v option \<Rightarrow> bool" where
  "is_buffer ctor e =
     (case e of
        None \<Rightarrow> False
      | Some v \<Rightarrow>
          (case ctor v of
             None \<Rightarrow> False
           | Some None \<Rightarrow> False
           | Some (Some f) \<Rightarrow> f v))"

section \<open>Events\<close>

record browser =
  can_use_dom :: bool
  has_listeners :: bool
  in_document :: "string \<Rightarrow> bool"
  installs_handler :: "string \<Rightarrow> bool"
  feature_test :: bool
  empty_feature :: bool
  wheel_feature :: bool

text \<open>The module's variable \<open>i\<close>: the implementation has \<open>hasFeature\<close> and it does not say yes to
  everything.\<close>

definition use_has_feature :: "browser \<Rightarrow> bool" where
  "use_has_feature b \<longleftrightarrow> can_use_dom b \<and> feature_test b \<and> \<not> empty_feature b"

definition is_event_supported :: "browser \<Rightarrow> string \<Rightarrow> bool \<Rightarrow> bool" where
  "is_event_supported b e t =
     (if \<not> can_use_dom b \<or> t \<and> \<not> has_listeners b then False
      else
        let n = ''on'' @ e;
            o1 = (if in_document b n then True else installs_handler b n)
        in if \<not> o1 \<and> use_has_feature b \<and> e = ''wheel'' then wheel_feature b else o1)"

lemma is_event_supported_sources:
  "is_event_supported b e t \<longleftrightarrow>
     can_use_dom b \<and> (t \<longrightarrow> has_listeners b) \<and>
     (in_document b (''on'' @ e) \<or> installs_handler b (''on'' @ e)
        \<or> e = ''wheel'' \<and> use_has_feature b \<and> wheel_feature b)"
  by (auto simp: is_event_supported_def Let_def)

end
