(* ===== verification/VueDom.thy ===== *)
theory VueDom
  imports Prelude
begin

text \<open>
  The elements of Vue 2.6 (\<open>chunk-vendors.ddcb6f91.js\<close>, module \<open>2b0e\<close>): virtual nodes (\<open>ye\<close>), the
  document's nodes, the node operations \<open>Cr\<close>, the attribute module \<open>zr\<close> with \<open>Br\<close> and \<open>Rr\<close>, and
  \<open>createElm\<close> (\<open>f\<close>). Of a virtual node's data the attributes are modelled; components, hooks,
  directives, name spaces and the other data modules are not. A document node is a tree whose nodes
  carry an identity, by which its parent's list of children finds it.
\<close>

section \<open>Attributes\<close>

text \<open>The value of an attribute in a virtual node: a text, or \<open>false\<close> or \<open>null\<close>, which \<open>Ki\<close> calls
  falsy.\<close>

datatype attr_value = AText string | AFalse | ANull

fun falsy_attr :: "attr_value \<Rightarrow> bool" where
  "falsy_attr (AText s) = False"
| "falsy_attr _ = True"

fun attr_string :: "attr_value \<Rightarrow> string" where
  "attr_string (AText s) = s"
| "attr_string AFalse = ''false''"
| "attr_string ANull = ''null''"

definition enumerated_attrs :: "string list" where
  "enumerated_attrs = [''contenteditable'', ''draggable'', ''spellcheck'']"

definition boolean_attrs :: "string list" where
  "boolean_attrs =
     [''allowfullscreen'', ''async'', ''autofocus'', ''autoplay'', ''checked'', ''compact'', ''controls'',
      ''declare'', ''default'', ''defaultchecked'', ''defaultmuted'', ''defaultselected'', ''defer'',
      ''disabled'', ''enabled'', ''formnovalidate'', ''hidden'', ''indeterminate'', ''inert'', ''ismap'',
      ''itemscope'', ''loop'', ''multiple'', ''muted'', ''nohref'', ''noresize'', ''noshade'', ''novalidate'',
      ''nowrap'', ''open'', ''pauseonexit'', ''readonly'', ''required'', ''reversed'', ''scoped'', ''seamless'',
      ''selected'', ''sortable'', ''translate'', ''truespeed'', ''typemustmatch'', ''visible'']"

text \<open>\<open>Hi(e, t)\<close>\<close>

definition enumerated_text :: "string \<Rightarrow> attr_value \<Rightarrow> string" where
  "enumerated_text e t =
     (if falsy_attr t \<or> t = AText ''false'' then ''false''
      else if e = ''contenteditable'' \<and> attr_string t \<in> {''events'', ''caret'', ''typing'', ''plaintext-only''}
      then attr_string t
      else ''true'')"

text \<open>\<open>Br(e, t, n)\<close> and \<open>Rr(e, t, n)\<close>: the tag in lower case, the attributes of the element, the name
  and the value. Attributes of the \<open>xlink\<close> name space are set and removed under their full name.\<close>

definition base_set_attr :: "string \<Rightarrow> attr_value \<Rightarrow> string obj \<Rightarrow> string obj" where
  "base_set_attr t n el = (if falsy_attr n then odel t el else oset t (attr_string n) el)"

definition set_attr :: "string \<Rightarrow> string \<Rightarrow> attr_value \<Rightarrow> string obj \<Rightarrow> string obj" where
  "set_attr tag t n el =
     (if CHR ''-'' \<in> set tag then base_set_attr t n el
      else if t \<in> set boolean_attrs then
        (if falsy_attr n then odel t el
         else oset t (if t = ''allowfullscreen'' \<and> tag = ''embed'' then ''true'' else t) el)
      else if t \<in> set enumerated_attrs then oset t (enumerated_text t n) el
      else base_set_attr t n el)"

text \<open>\<open>zr(e, t)\<close> on the old and new attributes of an element.\<close>

definition update_attrs :: "string \<Rightarrow> attr_value obj \<Rightarrow> attr_value obj \<Rightarrow> string obj \<Rightarrow> string obj" where
  "update_attrs tag c u el =
     (let el1 = fold (\<lambda>(k, a) el. if oget c k \<noteq> Some a then set_attr tag k a el else el) u el
      in fold (\<lambda>(k, s) el.
           if (oget u k = None \<or> oget u k = Some ANull) \<and> k \<notin> set enumerated_attrs then odel k el else el) c el1)"

text \<open>What an element shows for an attribute of its virtual node.\<close>

definition attr_shown :: "string \<Rightarrow> string \<Rightarrow> attr_value \<Rightarrow> string option" where
  "attr_shown tag t n = oget (set_attr tag t n []) t"

definition shows_attrs :: "string \<Rightarrow> attr_value obj \<Rightarrow> string obj \<Rightarrow> bool" where
  "shows_attrs tag u el \<longleftrightarrow>
     (\<forall>k. k \<notin> set enumerated_attrs \<longrightarrow> oget el k = Option.bind (oget u k) (attr_shown tag k))"

lemma set_attr_get: "oget (set_attr tag t n el) k = (if k = t then attr_shown tag t n else oget el k)"
  by (auto simp: set_attr_def base_set_attr_def attr_shown_def obj_simps)

lemma attr_shown_null: "t \<notin> set enumerated_attrs \<Longrightarrow> attr_shown tag t ANull = None"
  by (simp add: attr_shown_def set_attr_def base_set_attr_def)

lemma set_attrs_get:
  "distinct (okeys u) \<Longrightarrow>
     oget (fold (\<lambda>(k, a) el. if oget c k \<noteq> Some a then set_attr tag k a el else el) u el) k
       = (case oget u k of None \<Rightarrow> oget el k
          | Some a \<Rightarrow> if oget c k \<noteq> Some a then attr_shown tag k a else oget el k)"
proof (induction u arbitrary: el)
  case Nil
  then show ?case by simp
next
  case (Cons p u)
  obtain j b where p: "p = (j, b)" by fastforce
  with Cons.prems have "oget u j = None" by (auto simp: map_of_eq_None_iff)
  with Cons p show ?case by (auto simp: set_attr_get split: option.split)
qed

lemma remove_attrs_get:
  "oget (fold (\<lambda>(k, s) el. if P k then odel k el else el) c el) k
     = (if P k \<and> k \<in> set (okeys c) then None else oget el k)"
  by (induction c arbitrary: el) (auto simp: obj_simps split: if_splits)

text \<open>The attribute module brings an element that shows the old attributes to show the new ones.
  The three enumerated attributes are never removed, so they are left out.\<close>

lemma update_attrs_shows:
  assumes "shows_attrs tag c el" and "distinct (okeys u)"
  shows "shows_attrs tag u (update_attrs tag c u el)"
  unfolding shows_attrs_def
proof (intro allI impI)
  fix k :: string
  assume k: "k \<notin> set enumerated_attrs"
  note old = assms(1) [unfolded shows_attrs_def, rule_format, OF k]
  let ?P = "\<lambda>k. (oget u k = None \<or> oget u k = Some ANull) \<and> k \<notin> set enumerated_attrs"
  have get: "oget (update_attrs tag c u el) k =
      (if ?P k \<and> k \<in> set (okeys c) then None
       else case oget u k of None \<Rightarrow> oget el k
          | Some a \<Rightarrow> if oget c k \<noteq> Some a then attr_shown tag k a else oget el k)"
    unfolding update_attrs_def Let_def
    by (simp only: remove_attrs_get [of ?P c] set_attrs_get [OF assms(2)])
  show "oget (update_attrs tag c u el) k = Option.bind (oget u k) (attr_shown tag k)"
  proof (cases "oget u k")
    case None
    then have "k \<notin> set (okeys c) \<Longrightarrow> oget el k = None" using old by (simp add: map_of_eq_None_iff [symmetric])
    with None k show ?thesis unfolding get by auto
  next
    case (Some a)
    show ?thesis
    proof (cases "oget c k = Some a")
      case True
      then show ?thesis unfolding get using Some old attr_shown_null [OF k] by auto
    next
      case False
      then show ?thesis unfolding get using Some attr_shown_null [OF k] by auto
    qed
  qed
qed

section \<open>Virtual nodes and the document\<close>

datatype key = KText string | KNum int

text \<open>The property name a key becomes in the object \<open>Tr\<close> builds.\<close>

fun key_string :: "key \<Rightarrow> string" where
  "key_string (KText s) = s"
| "key_string (KNum i) = show_int i"

text \<open>Of \<open>data\<close>, when it is there, \<open>attrs\<close>, when it is there.\<close>

record vlabel =
  lb_key :: "key option"
  lb_tag :: "string option"
  lb_comment :: bool
  lb_data :: "attr_value obj option option"
  lb_text :: "string option"

text \<open>\<open>elm\<close> is the document node of a virtual node that has been rendered; one that has not carries
  nothing.\<close>

datatype 'e vnode = VNode (elm: 'e) (label: vlabel) (children: "'e vnode list option")

datatype dom =
    Element nat string "string obj" "dom list"
  | TextNode nat string
  | CommentNode nat string

fun dom_id :: "dom \<Rightarrow> nat" where
  "dom_id (Element i tag es kids) = i"
| "dom_id (TextNode i s) = i"
| "dom_id (CommentNode i s) = i"

fun child_nodes :: "dom \<Rightarrow> dom list" where
  "child_nodes (Element i tag es kids) = kids"
| "child_nodes d = []"

fun set_child_nodes :: "dom list \<Rightarrow> dom \<Rightarrow> dom" where
  "set_child_nodes ks (Element i tag es kids) = Element i tag es ks"
| "set_child_nodes ks d = d"

definition attrs_of :: "vlabel \<Rightarrow> attr_value obj" where
  "attrs_of lb = (case lb_data lb of Some (Some u) \<Rightarrow> u | _ \<Rightarrow> [])"

abbreviation kids_of :: "'e vnode \<Rightarrow> 'e vnode list" where
  "kids_of v \<equiv> (case children v of None \<Rightarrow> [] | Some cs \<Rightarrow> cs)"

text \<open>\<open>dr(e, t)\<close> and the \<open>create\<close> hook of the attribute module, which runs when there is data.\<close>

definition created_attrs :: "string \<Rightarrow> vlabel \<Rightarrow> string obj" where
  "created_attrs tag lb =
     (let el0 = (if tag = ''select'' \<and> oget (attrs_of lb) ''multiple'' \<noteq> None then [(''multiple'', ''multiple'')] else [])
      in if lb_data lb = None then el0 else update_attrs tag [] (attrs_of lb) el0)"

definition text_or_undefined :: "vlabel \<Rightarrow> string" where
  "text_or_undefined lb = (case lb_text lb of Some s \<Rightarrow> s | None \<Rightarrow> ''undefined'')"

text \<open>\<open>f\<close> without a place to insert, and \<open>y\<close>: the tree and the rendered virtual node. New document
  nodes take the next identities. A text or comment has no children.\<close>

fun create_elm :: "nat \<Rightarrow> unit vnode \<Rightarrow> dom \<times> nat vnode \<times> nat"
  and create_list :: "nat \<Rightarrow> unit vnode list \<Rightarrow> dom list \<times> nat vnode list \<times> nat" where
  "create_elm n (VNode u lb (Some cs)) =
     (case lb_tag lb of
        Some tag \<Rightarrow>
          (let (ds, vs, n') = create_list (Suc n) cs
           in (Element n tag (created_attrs tag lb) ds, VNode n lb (Some vs), n'))
      | None \<Rightarrow>
          ((if lb_comment lb then CommentNode n (text_or_undefined lb) else TextNode n (text_or_undefined lb)),
           VNode n lb None, Suc n))"
| "create_elm n (VNode u lb None) =
     (case lb_tag lb of
        Some tag \<Rightarrow>
          (case lb_text lb of
             Some s \<Rightarrow> (Element n tag (created_attrs tag lb) [TextNode (Suc n) s], VNode n lb None, Suc (Suc n))
           | None \<Rightarrow> (Element n tag (created_attrs tag lb) [], VNode n lb None, Suc n))
      | None \<Rightarrow>
          ((if lb_comment lb then CommentNode n (text_or_undefined lb) else TextNode n (text_or_undefined lb)),
           VNode n lb None, Suc n))"
| "create_list n [] = ([], [], n)"
| "create_list n (c # cs) =
     (let (d, v, n1) = create_elm n c; (ds, vs, n2) = create_list n1 cs in (d # ds, v # vs, n2))"

section \<open>What it means to be rendered\<close>

abbreviation unrendered :: "'e vnode \<Rightarrow> unit vnode" where
  "unrendered \<equiv> map_vnode (\<lambda>_. ())"

fun renders :: "dom \<Rightarrow> nat vnode \<Rightarrow> bool" where
  "renders (Element i tag es kids) (VNode e lb (Some cs)) \<longleftrightarrow>
     i = e \<and> lb_tag lb = Some tag \<and> shows_attrs tag (attrs_of lb) es \<and> list_all2 renders kids cs"
| "renders (Element i tag es kids) (VNode e lb None) \<longleftrightarrow>
     i = e \<and> lb_tag lb = Some tag \<and> shows_attrs tag (attrs_of lb) es \<and> kids = []"
| "renders (TextNode i s) (VNode e lb cs) \<longleftrightarrow> i = e \<and> lb_tag lb = None \<and> \<not> lb_comment lb \<and> lb_text lb = Some s"
| "renders (CommentNode i s) (VNode e lb cs) \<longleftrightarrow> i = e \<and> lb_tag lb = None \<and> lb_comment lb \<and> lb_text lb = Some s"

text \<open>The shapes the render functions produce: an element has no text of its own, a text or comment
  has a text and neither children nor data; the keys of siblings differ as property names and are no
  names of inherited properties.\<close>

definition child_keys :: "'e vnode list \<Rightarrow> string list" where
  "child_keys cs = concat (map (\<lambda>c. case lb_key (label c) of None \<Rightarrow> [] | Some k \<Rightarrow> [key_string k]) cs)"

definition keys_ok :: "'e vnode list \<Rightarrow> bool" where
  "keys_ok cs \<longleftrightarrow> distinct (child_keys cs) \<and> set (child_keys cs) \<inter> set inherited_names = {}"

definition wf_label :: "vlabel \<Rightarrow> bool \<Rightarrow> bool" where
  "wf_label lb leaf \<longleftrightarrow>
     (case lb_tag lb of
        Some tag \<Rightarrow> lb_text lb = None \<and> \<not> lb_comment lb
      | None \<Rightarrow> leaf \<and> lb_text lb \<noteq> None \<and> lb_data lb = None)
     \<and> distinct (okeys (attrs_of lb))"

fun wf_vnode :: "'e vnode \<Rightarrow> bool" where
  "wf_vnode (VNode e lb None) \<longleftrightarrow> wf_label lb True"
| "wf_vnode (VNode e lb (Some cs)) \<longleftrightarrow> wf_label lb False \<and> keys_ok cs \<and> list_all wf_vnode cs"

text \<open>Identities are below the counter and name a node among its siblings.\<close>

fun sound :: "nat \<Rightarrow> dom \<Rightarrow> bool" where
  "sound n (Element i tag es kids) \<longleftrightarrow> i < n \<and> distinct (map dom_id kids) \<and> list_all (sound n) kids"
| "sound n (TextNode i s) \<longleftrightarrow> i < n"
| "sound n (CommentNode i s) \<longleftrightarrow> i < n"

section \<open>Creation\<close>

lemma sound_mono: "sound n d \<Longrightarrow> n \<le> m \<Longrightarrow> sound m d"
  by (induction n d rule: sound.induct) (auto simp: list_all_iff)

lemma sound_id: "sound n d \<Longrightarrow> dom_id d < n"
  by (cases d) auto

lemma renders_id: "renders d v \<Longrightarrow> dom_id d = elm v"
  by (cases "(d, v)" rule: renders.cases) auto

lemma unrendered_fields [simp]:
  "label (map_vnode f v) = label v" "children (map_vnode f v) = map_option (map (map_vnode f)) (children v)"
  by (cases v; simp)+

lemma child_keys_map [simp]: "child_keys (map (map_vnode f) cs) = child_keys cs"
  by (simp add: child_keys_def comp_def)

lemma keys_ok_map [simp]: "keys_ok (map (map_vnode f) cs) = keys_ok cs"
  by (simp add: keys_ok_def)

lemma wf_vnode_map [simp]: "wf_vnode (map_vnode f v) = wf_vnode v"
  by (induction v rule: wf_vnode.induct) (auto simp: list_all_iff)

lemma created_attrs_shows:
  assumes "distinct (okeys (attrs_of lb))"
  shows "shows_attrs tag (attrs_of lb) (created_attrs tag lb)"
proof (cases "lb_data lb")
  case None
  then show ?thesis by (simp add: shows_attrs_def created_attrs_def attrs_of_def)
next
  case (Some u)
  let ?el0 = "if tag = ''select'' \<and> oget (attrs_of lb) ''multiple'' \<noteq> None then [(''multiple'', ''multiple'')] else []"
  have "oget (update_attrs tag [] (attrs_of lb) ?el0) k = Option.bind (oget (attrs_of lb) k) (attr_shown tag k)" for k
    unfolding update_attrs_def Let_def using set_attrs_get [OF assms, of "[]" tag ?el0 k]
    by (auto split: option.split)
  then show ?thesis using Some by (simp add: shows_attrs_def created_attrs_def)
qed

lemma create_leaf:
  assumes "wf_label lb leaf" and "lb_tag lb = None"
  shows "renders (if lb_comment lb then CommentNode n (text_or_undefined lb) else TextNode n (text_or_undefined lb)) (VNode n lb None)"
  using assms by (auto simp: wf_label_def text_or_undefined_def split: option.split)

text \<open>A created tree renders its virtual node, and everything in it is new.\<close>

lemma create_spec:
  "wf_vnode v \<Longrightarrow> create_elm n v = (d, v', n') \<Longrightarrow>
     renders d v' \<and> unrendered v' = v \<and> dom_id d = n \<and> n < n' \<and> sound n' d"
  "list_all wf_vnode cs \<Longrightarrow> create_list n cs = (ds, vs, n') \<Longrightarrow>
     list_all2 renders ds vs \<and> map unrendered vs = cs \<and> n \<le> n' \<and> list_all (sound n') ds
     \<and> (\<forall>d \<in> set ds. n \<le> dom_id d) \<and> distinct (map dom_id ds)"
proof (induction n v and n cs arbitrary: d v' n' and ds vs n' rule: create_elm_create_list.induct)
  case (1 n u lb cs)
  show ?case
  proof (cases "lb_tag lb")
    case None
    then show ?thesis using 1 by (simp add: wf_label_def)
  next
    case (Some tag)
    obtain ds vs m where c: "create_list (Suc n) cs = (ds, vs, m)" by (rule prod_cases3)
    from "1.IH" [OF Some _ c] "1.prems"(1)
    have ih: "list_all2 renders ds vs" "map unrendered vs = cs" "Suc n \<le> m" "list_all (sound m) ds" "distinct (map dom_id ds)"
      by simp_all
    have r: "d = Element n tag (created_attrs tag lb) ds" "v' = VNode n lb (Some vs)" "n' = m"
      using "1.prems"(2) Some c by simp_all
    have "distinct (okeys (attrs_of lb))" using "1.prems"(1) by (simp add: wf_label_def)
    from created_attrs_shows [OF this] Some ih show ?thesis unfolding r by simp
  qed
next
  case (2 n u lb)
  show ?case
  proof (cases "lb_tag lb")
    case None
    then show ?thesis using 2 create_leaf [of lb True n] by (auto split: if_splits)
  next
    case (Some tag)
    then have "lb_text lb = None" "distinct (okeys (attrs_of lb))" using 2(1) by (simp_all add: wf_label_def)
    then show ?thesis using 2(2) Some created_attrs_shows by auto
  qed
next
  case (3 n)
  then show ?case by simp
next
  case (4 n c cs)
  obtain d v n1 where c: "create_elm n c = (d, v, n1)" by (rule prod_cases3)
  obtain ds' vs' n2 where cs: "create_list n1 cs = (ds', vs', n2)" by (rule prod_cases3)
  have r: "ds = d # ds'" "vs = v # vs'" "n' = n2" using "4.prems"(2) c cs by simp_all
  from "4.IH"(1) [OF _ c] "4.prems"(1)
  have 1: "renders d v" "unrendered v = c" "dom_id d = n" "n < n1" "sound n1 d" by simp_all
  from "4.IH"(2) [OF c [symmetric] refl refl _ cs] "4.prems"(1)
  have 2: "list_all2 renders ds' vs'" "map unrendered vs' = cs" "n1 \<le> n2" "list_all (sound n2) ds'"
    "\<forall>d \<in> set ds'. n1 \<le> dom_id d" "distinct (map dom_id ds')" by simp_all
  have "n \<notin> dom_id ` set ds'" using 2(5) 1(4) by fastforce
  moreover have "\<forall>d \<in> set ds'. n \<le> dom_id d" using 2(5) 1(4) by fastforce
  ultimately show ?case unfolding r using 1 2 sound_mono [OF 1(5) 2(3)] by simp
qed

end
