(* ===== verification/VuePatch.thy ===== *)
theory VuePatch
  imports VueDom
begin

text \<open>
  The patch algorithm of Vue 2.6 (\<open>chunk-vendors.ddcb6f91.js\<close>, module \<open>2b0e\<close>): \<open>sameVnode\<close> (\<open>Dr\<close>),
  \<open>createKeyToOldIdx\<close> (\<open>Tr\<close>), and inside \<open>createPatchFunction\<close> (\<open>Pr\<close>) the functions \<open>updateChildren\<close>
  (\<open>$\<close>), \<open>findIdxInOld\<close> (\<open>D\<close>), \<open>addVnodes\<close> (\<open>C\<close>), \<open>removeVnodes\<close> (\<open>S\<close>), \<open>patchVnode\<close> (\<open>E\<close>), the
  patch of a root, and a component's \<open>_update\<close>. An exception of the code is \<open>None\<close>. Removal is immediate:
  transitions, which may delay it, are not modelled. The theories \<open>VueChildren\<close> and \<open>VueRender\<close> hold the
  proofs.
\<close>

section \<open>When a node may be patched\<close>

datatype input_kind = NoAttrs | InputType "attr_value option"

definition input_kind :: "vlabel \<Rightarrow> input_kind" where
  "input_kind lb = (case lb_data lb of Some (Some u) \<Rightarrow> InputType (oget u ''type'') | _ \<Rightarrow> NoAttrs)"

definition text_input :: "input_kind \<Rightarrow> bool" where
  "text_input k \<longleftrightarrow>
     (\<exists>s \<in> set [''text'', ''number'', ''password'', ''search'', ''email'', ''tel'', ''url'']. k = InputType (Some (AText s)))"

text \<open>\<open>Er(e, t)\<close> and \<open>Dr(e, t)\<close>\<close>

definition same_input :: "vlabel \<Rightarrow> vlabel \<Rightarrow> bool" where
  "same_input e t \<longleftrightarrow>
     lb_tag e \<noteq> Some ''input'' \<or> input_kind e = input_kind t \<or> text_input (input_kind e) \<and> text_input (input_kind t)"

definition same_vnode :: "vlabel \<Rightarrow> vlabel \<Rightarrow> bool" where
  "same_vnode e t \<longleftrightarrow>
     lb_key e = lb_key t \<and> lb_tag e = lb_tag t \<and> lb_comment e = lb_comment t
     \<and> (lb_data e = None \<longleftrightarrow> lb_data t = None) \<and> same_input e t"

section \<open>A parent's list of children\<close>

definition node_at :: "nat \<Rightarrow> dom list \<Rightarrow> dom option" where
  "node_at x ks = find (\<lambda>k. dom_id k = x) ks"

definition put_before :: "dom \<Rightarrow> nat \<Rightarrow> dom list \<Rightarrow> dom list" where
  "put_before d r ks = takeWhile (\<lambda>k. dom_id k \<noteq> r) ks @ d # dropWhile (\<lambda>k. dom_id k \<noteq> r) ks"

text \<open>\<open>insertBefore\<close> with a node that is a child already, which moves it; a reference that is no child
  is an exception. \<open>b(e, t, n)\<close> places a new node, and does nothing when the reference is no child.\<close>

definition move_before :: "nat \<Rightarrow> nat option \<Rightarrow> dom list \<Rightarrow> dom list option" where
  "move_before x r ks =
     (case node_at x ks of
        None \<Rightarrow> None
      | Some d \<Rightarrow>
        if r = Some x then Some ks
        else
          let rest = filter (\<lambda>k. dom_id k \<noteq> x) ks in
          (case r of
             None \<Rightarrow> Some (rest @ [d])
           | Some y \<Rightarrow> if y \<in> dom_id ` set rest then Some (put_before d y rest) else None))"

definition insert_new :: "dom \<Rightarrow> nat option \<Rightarrow> dom list \<Rightarrow> dom list" where
  "insert_new d r ks =
     (case r of None \<Rightarrow> ks @ [d] | Some y \<Rightarrow> if y \<in> dom_id ` set ks then put_before d y ks else ks)"

definition next_sibling :: "nat \<Rightarrow> dom list \<Rightarrow> nat option" where
  "next_sibling x ks = (case dropWhile (\<lambda>k. dom_id k \<noteq> x) ks of _ # k # _ \<Rightarrow> Some (dom_id k) | _ \<Rightarrow> None)"

definition remove_child :: "nat \<Rightarrow> dom list \<Rightarrow> dom list" where
  "remove_child x ks = filter (\<lambda>k. dom_id k \<noteq> x) ks"

section \<open>The loop of updateChildren\<close>

text \<open>The old array with its holes, the new one with what has been rendered, the object of keys, and
  the four indices, the two ends one beyond the code's \<open>m\<close> and \<open>b\<close>. The variables \<open>v\<close> and \<open>g\<close> hold
  \<open>t[h]\<close> and \<open>t[m]\<close>: a hole is never made at the ends of the window.\<close>

record update_state =
  kids :: "dom list"
  olds :: "nat vnode option list"
  news :: "nat vnode option list"
  counter :: nat
  keymap :: "nat obj option"
  os :: nat
  oe :: nat
  ns :: nat
  ne :: nat

text \<open>\<open>patchVnode\<close>, a parameter of the loop: the old and the new virtual node, the old one's document
  node, the next identity.\<close>

type_synonym patcher = "nat vnode \<Rightarrow> unit vnode \<Rightarrow> dom \<Rightarrow> nat \<Rightarrow> (dom \<times> nat vnode \<times> nat) option"

definition patch_kid :: "patcher \<Rightarrow> nat vnode \<Rightarrow> unit vnode list \<Rightarrow> nat \<Rightarrow> update_state \<Rightarrow> update_state option" where
  "patch_kid pt v N j st =
     (case node_at (elm v) (kids st) of
        None \<Rightarrow> None
      | Some d \<Rightarrow>
        (case pt v (N ! j) d (counter st) of
           None \<Rightarrow> None
         | Some (d', y, c) \<Rightarrow>
             Some (st\<lparr>kids := map (\<lambda>k. if dom_id k = elm v then d' else k) (kids st),
                     news := (news st)[j := Some y], counter := c\<rparr>)))"

definition move_kid :: "nat vnode \<Rightarrow> nat option \<Rightarrow> update_state \<Rightarrow> update_state option" where
  "move_kid v r st = map_option (\<lambda>ks. st\<lparr>kids := ks\<rparr>) (move_before (elm v) r (kids st))"

definition create_kid :: "unit vnode list \<Rightarrow> nat option \<Rightarrow> nat \<Rightarrow> update_state \<Rightarrow> update_state" where
  "create_kid N r j st =
     (let (d, y, c) = create_elm (counter st) (N ! j)
      in st\<lparr>kids := insert_new d r (kids st), news := (news st)[j := Some y], counter := c\<rparr>)"

text \<open>\<open>Tr(e, t, n)\<close>; a hole has no key to read.\<close>

definition key_map :: "nat vnode option list \<Rightarrow> nat \<Rightarrow> nat \<Rightarrow> nat obj option" where
  "key_map t lo hi =
     (if list_all (\<lambda>i. t ! i \<noteq> None) [lo..<hi]
      then Some (fold (\<lambda>i s. case lb_key (label (the (t ! i))) of None \<Rightarrow> s | Some k \<Rightarrow> oset (key_string k) i s) [lo..<hi] [])
      else None)"

text \<open>\<open>D(e, t, n, i)\<close>, which leaves the last index out.\<close>

definition find_old :: "vlabel \<Rightarrow> nat vnode option list \<Rightarrow> nat \<Rightarrow> nat \<Rightarrow> nat option" where
  "find_old y t lo hi = find (\<lambda>i. case t ! i of None \<Rightarrow> False | Some a \<Rightarrow> same_vnode y (label a)) [lo..<hi - 1]"

definition old_index :: "vlabel \<Rightarrow> nat obj \<Rightarrow> update_state \<Rightarrow> nat option" where
  "old_index y s st =
     (case lb_key y of Some k \<Rightarrow> oget s (key_string k) | None \<Rightarrow> find_old y (olds st) (os st) (oe st))"

text \<open>The object of keys is a plain one: a key that is the name of an inherited property finds that
  property, and the code then reads \<open>key\<close> of \<open>undefined\<close>.\<close>

definition inherited_hit :: "vlabel \<Rightarrow> nat obj \<Rightarrow> bool" where
  "inherited_hit y s \<longleftrightarrow>
     (case lb_key y of
        None \<Rightarrow> False
      | Some k \<Rightarrow> key_string k \<in> set inherited_names \<and> (oget s (key_string k) = None \<or> key_string k = ''__proto__''))"

text \<open>The last branch: the new start node is looked up among the old nodes, moved or created.\<close>

definition place_start :: "patcher \<Rightarrow> unit vnode list \<Rightarrow> nat vnode \<Rightarrow> update_state \<Rightarrow> update_state option" where
  "place_start pt N v st =
     (let y = N ! ns st in
      case (case keymap st of Some s \<Rightarrow> Some s | None \<Rightarrow> key_map (olds st) (os st) (oe st)) of
        None \<Rightarrow> None
      | Some s \<Rightarrow>
        let st1 = st\<lparr>keymap := Some s\<rparr> in
        if inherited_hit (label y) s then None
        else map_option (\<lambda>st2. st2\<lparr>ns := Suc (ns st)\<rparr>)
          (case old_index (label y) s st1 of
             None \<Rightarrow> Some (create_kid N (Some (elm v)) (ns st) st1)
           | Some l \<Rightarrow>
             (case olds st ! l of
                None \<Rightarrow> None
              | Some u \<Rightarrow>
                if same_vnode (label u) (label y)
                then Option.bind (patch_kid pt u N (ns st) st1)
                       (\<lambda>st2. move_kid u (Some (elm v)) (st2\<lparr>olds := (olds st2)[l := None]\<rparr>))
                else Some (create_kid N (Some (elm v)) (ns st) st1))))"

definition update_step :: "patcher \<Rightarrow> unit vnode list \<Rightarrow> update_state \<Rightarrow> update_state option" where
  "update_step pt N st =
     (case olds st ! os st of
        None \<Rightarrow> Some (st\<lparr>os := Suc (os st)\<rparr>)
      | Some v \<Rightarrow>
        (case olds st ! (oe st - 1) of
           None \<Rightarrow> Some (st\<lparr>oe := oe st - 1\<rparr>)
         | Some g \<Rightarrow>
           let y = label (N ! ns st); z = label (N ! (ne st - 1)) in
           if same_vnode (label v) y then
             map_option (\<lambda>st1. st1\<lparr>os := Suc (os st), ns := Suc (ns st)\<rparr>) (patch_kid pt v N (ns st) st)
           else if same_vnode (label g) z then
             map_option (\<lambda>st1. st1\<lparr>oe := oe st - 1, ne := ne st - 1\<rparr>) (patch_kid pt g N (ne st - 1) st)
           else if same_vnode (label v) z then
             map_option (\<lambda>st1. st1\<lparr>os := Suc (os st), ne := ne st - 1\<rparr>)
               (Option.bind (patch_kid pt v N (ne st - 1) st)
                  (\<lambda>st1. move_kid v (next_sibling (elm g) (kids st1)) st1))
           else if same_vnode (label g) y then
             map_option (\<lambda>st1. st1\<lparr>oe := oe st - 1, ns := Suc (ns st)\<rparr>)
               (Option.bind (patch_kid pt g N (ns st) st) (\<lambda>st1. move_kid g (Some (elm v)) st1))
           else place_start pt N v st))"

lemma kid_ops_indices:
  "patch_kid pt v N j st = Some st' \<Longrightarrow>
     os st' = os st \<and> oe st' = oe st \<and> ns st' = ns st \<and> ne st' = ne st \<and> olds st' = olds st \<and> keymap st' = keymap st"
  "move_kid v r st = Some st' \<Longrightarrow>
     os st' = os st \<and> oe st' = oe st \<and> ns st' = ns st \<and> ne st' = ne st \<and> olds st' = olds st \<and> keymap st' = keymap st"
  "os (create_kid N r j st) = os st \<and> oe (create_kid N r j st) = oe st \<and> ns (create_kid N r j st) = ns st
     \<and> ne (create_kid N r j st) = ne st \<and> olds (create_kid N r j st) = olds st \<and> keymap (create_kid N r j st) = keymap st"
  by (auto simp: patch_kid_def move_kid_def create_kid_def split: option.splits prod.splits)

text \<open>Every round moves an index towards the other side.\<close>

definition todo_left :: "update_state \<Rightarrow> nat" where
  "todo_left st = (oe st - os st) + (ne st - ns st)"

lemma place_start_indices:
  "place_start pt N v st = Some st' \<Longrightarrow> os st' = os st \<and> oe st' = oe st \<and> ns st' = Suc (ns st) \<and> ne st' = ne st"
  by (auto simp: place_start_def Let_def kid_ops_indices(3) dest!: kid_ops_indices(1,2)
      split: option.splits if_splits bind_splits)

lemma update_step_less:
  assumes "os st < oe st" and "ns st < ne st" and "update_step pt N st = Some st'"
  shows "todo_left st' < todo_left st"
  using assms
  by (auto simp: update_step_def todo_left_def Let_def dest!: kid_ops_indices(1,2) place_start_indices
      split: option.splits if_splits bind_splits)

function update_loop :: "patcher \<Rightarrow> unit vnode list \<Rightarrow> update_state \<Rightarrow> update_state option" where
  "update_loop pt N st =
     (if os st < oe st \<and> ns st < ne st then
        (case update_step pt N st of None \<Rightarrow> None | Some st' \<Rightarrow> update_loop pt N st')
      else Some st)"
  by pat_completeness auto
termination
  by (relation "measure (\<lambda>(pt, N, st). todo_left st)") (simp_all add: update_step_less)

declare update_loop.simps [simp del]

text \<open>\<open>C\<close> and \<open>S\<close>, and what follows the loop.\<close>

definition add_vnodes :: "unit vnode list \<Rightarrow> nat option \<Rightarrow> nat \<Rightarrow> nat \<Rightarrow> update_state \<Rightarrow> update_state" where
  "add_vnodes N r p b st = fold (create_kid N r) [p..<b] st"

definition remove_vnodes :: "nat \<Rightarrow> nat \<Rightarrow> update_state \<Rightarrow> update_state" where
  "remove_vnodes h m st =
     fold (\<lambda>i st. case olds st ! i of None \<Rightarrow> st | Some v \<Rightarrow> st\<lparr>kids := remove_child (elm v) (kids st)\<rparr>) [h..<m] st"

definition finish_update :: "unit vnode list \<Rightarrow> update_state \<Rightarrow> update_state" where
  "finish_update N st =
     (if oe st \<le> os st then
        add_vnodes N (if ne st < length N then map_option elm (news st ! ne st) else None) (ns st) (ne st) st
      else if ne st \<le> ns st then remove_vnodes (os st) (oe st) st
      else st)"

definition start_update :: "nat vnode list \<Rightarrow> unit vnode list \<Rightarrow> dom list \<Rightarrow> nat \<Rightarrow> update_state" where
  "start_update t N ks c =
     \<lparr>kids = ks, olds = map Some t, news = replicate (length N) None, counter = c, keymap = None,
      os = 0, oe = length t, ns = 0, ne = length N\<rparr>"

definition update_children ::
  "patcher \<Rightarrow> nat vnode list \<Rightarrow> unit vnode list \<Rightarrow> dom list \<Rightarrow> nat \<Rightarrow> (dom list \<times> nat vnode list \<times> nat) option" where
  "update_children pt t N ks c =
     (case update_loop pt N (start_update t N ks c) of
        None \<Rightarrow> None
      | Some st \<Rightarrow> let st' = finish_update N st in map_option (\<lambda>ys. (kids st', ys, counter st')) (those (news st')))"

section \<open>patchVnode\<close>

text \<open>\<open>setTextContent\<close>\<close>

definition set_text_content :: "string \<Rightarrow> dom \<Rightarrow> nat \<Rightarrow> dom \<times> nat" where
  "set_text_content s d c =
     (case d of
        Element i tag es ks \<Rightarrow> if s = [] then (Element i tag es [], c) else (Element i tag es [TextNode c s], Suc c)
      | TextNode i u \<Rightarrow> (TextNode i s, c)
      | CommentNode i u \<Rightarrow> (CommentNode i s, c))"

text \<open>The \<open>update\<close> hook of the attribute module.\<close>

definition update_dom :: "vlabel \<Rightarrow> vlabel \<Rightarrow> dom \<Rightarrow> dom" where
  "update_dom e t d =
     (case d of
        Element i tag es ks \<Rightarrow>
          if lb_data e = Some None \<and> lb_data t = Some None then d
          else Element i tag (update_attrs tag (attrs_of e) (attrs_of t) es) ks
      | _ \<Rightarrow> d)"

text \<open>\<open>E(e, t, \<dots>)\<close>; the fuel bounds the depth of the new tree.\<close>

primrec patch_vnode :: "nat \<Rightarrow> patcher" where
  "patch_vnode 0 v y d c = None"
| "patch_vnode (Suc f) v y d c =
     (let e = label v; t = label y;
          d1 = (if lb_data t \<noteq> None \<and> lb_tag t \<noteq> None then update_dom e t d else d) in
      case lb_text t of
        Some s \<Rightarrow>
          (let (d2, c2) = (if lb_text e \<noteq> Some s then set_text_content s d1 c else (d1, c))
           in Some (d2, VNode (elm v) t None, c2))
      | None \<Rightarrow>
        (case (children v, children y) of
           (Some p, Some m) \<Rightarrow>
             map_option (\<lambda>(ks, ys, c2). (set_child_nodes ks d1, VNode (elm v) t (Some ys), c2))
               (update_children (patch_vnode f) p m (child_nodes d1) c)
         | (None, Some m) \<Rightarrow>
             (let (d2, c2) = (if lb_text e \<noteq> None then set_text_content [] d1 c else (d1, c));
                  (ds, ys, c3) = create_list c2 m
              in Some (set_child_nodes (child_nodes d2 @ ds) d2, VNode (elm v) t (Some ys), c3))
         | (Some p, None) \<Rightarrow>
             Some (set_child_nodes (fold (\<lambda>o'. remove_child (elm o')) p (child_nodes d1)) d1, VNode (elm v) t None, c)
         | (None, None) \<Rightarrow>
             (let (d2, c2) = (if lb_text e \<noteq> None then set_text_content [] d1 c else (d1, c))
              in Some (d2, VNode (elm v) t None, c2))))"

fun height :: "'e vnode \<Rightarrow> nat" where
  "height (VNode e lb None) = 1"
| "height (VNode e lb (Some cs)) = Suc (foldr (\<lambda>c h. max (height c) h) cs 0)"

text \<open>The function \<open>Pr\<close> returns, on a root among its siblings: a virtual node that may be patched is, any
  other, or a document node that was there before, is replaced: the new tree is put after it, and it
  is removed.\<close>

definition replace_root :: "nat \<Rightarrow> unit vnode \<Rightarrow> dom list \<Rightarrow> nat \<Rightarrow> dom list \<times> nat vnode \<times> nat" where
  "replace_root p y ks c =
     (let (d, y', c') = create_elm c y in (remove_child p (insert_new d (next_sibling p ks) ks), y', c'))"

definition patch_root :: "nat vnode \<Rightarrow> unit vnode \<Rightarrow> dom list \<Rightarrow> nat \<Rightarrow> (dom list \<times> nat vnode \<times> nat) option" where
  "patch_root v y ks c =
     (if same_vnode (label v) (label y) then
        (case node_at (elm v) ks of
           None \<Rightarrow> None
         | Some d \<Rightarrow>
             map_option (\<lambda>(d', y', c'). (map (\<lambda>k. if dom_id k = elm v then d' else k) ks, y', c'))
               (patch_vnode (height y) v y d c))
      else Some (replace_root (elm v) y ks c))"

section \<open>The updates of a component\<close>

text \<open>\<open>_vnode\<close> and \<open>$el\<close> of a component, and the nodes \<open>$el\<close> is among; \<open>_update\<close>, which patches what was
  rendered before or replaces the element the component is mounted on.\<close>

record view =
  siblings :: "dom list"
  vnode_of :: "nat vnode option"
  el :: nat
  next_node :: nat

definition vue_update :: "unit vnode \<Rightarrow> view \<Rightarrow> view option" where
  "vue_update y vw =
     map_option (\<lambda>(ks, y', c). \<lparr>siblings = ks, vnode_of = Some y', el = elm y', next_node = c\<rparr>)
       (case vnode_of vw of
          Some v \<Rightarrow> patch_root v y (siblings vw) (next_node vw)
        | None \<Rightarrow> Some (replace_root (el vw) y (siblings vw) (next_node vw)))"

primrec vue_updates :: "unit vnode list \<Rightarrow> view \<Rightarrow> view option" where
  "vue_updates [] vw = Some vw"
| "vue_updates (y # ys) vw = Option.bind (vue_update y vw) (vue_updates ys)"

end
