(* ===== verification/VueChildren.thy ===== *)
theory VueChildren
  imports VuePatch
begin

text \<open>
  The correctness of \<open>updateChildren\<close> (\<open>VuePatch\<close>). The list of children always consists of a part
  that is done at the front, the nodes of the old window in order, and a part that is done at the
  back; every round of the loop moves one node over a border, whichever branch it takes. A second
  invariant follows the keys: an old node that has left the window has handed its document node to
  the new node of its key.
\<close>

section \<open>Lists of children\<close>

lemma node_at_mid:
  assumes "distinct (map dom_id (X @ d # Y))"
  shows "node_at (dom_id d) (X @ d # Y) = Some d"
  using assms by (induction X) (auto simp: node_at_def)

lemma replace_mid:
  assumes "distinct (map dom_id (X @ d # Y))"
  shows "map (\<lambda>k. if dom_id k = dom_id d then d' else k) (X @ d # Y) = X @ d' # Y"
proof -
  have "map (\<lambda>k. if dom_id k = dom_id d then d' else k) Z = Z" if "dom_id d \<notin> dom_id ` set Z" for Z
    using that by (intro map_idI) (metis imageI)
  with assms show ?thesis by simp
qed

lemma filter_mid:
  assumes "distinct (map dom_id (X @ d # Y))"
  shows "filter (\<lambda>k. dom_id k \<noteq> dom_id d) (X @ d # Y) = X @ Y"
proof -
  have "filter (\<lambda>k. dom_id k \<noteq> dom_id d) Z = Z" if "dom_id d \<notin> dom_id ` set Z" for Z
    using that unfolding filter_id_conv by (metis imageI)
  with assms show ?thesis by simp
qed

lemma put_before_mid:
  assumes "dom_id z \<notin> dom_id ` set X"
  shows "put_before d (dom_id z) (X @ z # Y) = X @ d # z # Y"
proof -
  have "takeWhile (\<lambda>k. dom_id k \<noteq> dom_id z) (X @ z # Y) = X" "dropWhile (\<lambda>k. dom_id k \<noteq> dom_id z) (X @ z # Y) = z # Y"
    using assms by (induction X) auto
  then show ?thesis by (simp add: put_before_def)
qed

lemma next_sibling_mid:
  assumes "distinct (map dom_id (X @ d # Y))"
  shows "next_sibling (dom_id d) (X @ d # Y) = (case Y of [] \<Rightarrow> None | k # _ \<Rightarrow> Some (dom_id k))"
proof -
  have "dropWhile (\<lambda>k. dom_id k \<noteq> dom_id d) (X @ d # Y) = d # Y" using assms by (induction X) auto
  then show ?thesis by (simp add: next_sibling_def split: list.split)
qed

lemma move_left:
  assumes "distinct (map dom_id (X @ z # Y @ d # Z))"
  shows "move_before (dom_id d) (Some (dom_id z)) (X @ z # Y @ d # Z) = Some (X @ d # z # Y @ Z)"
proof -
  have dz: "distinct (map dom_id ((X @ z # Y) @ d # Z))" using assms by simp
  have f: "filter (\<lambda>k. dom_id k \<noteq> dom_id d) (X @ z # Y @ d # Z) = X @ z # Y @ Z"
    using filter_mid [OF dz] by simp
  have n: "node_at (dom_id d) (X @ z # Y @ d # Z) = Some d" using node_at_mid [OF dz] by simp
  have "put_before d (dom_id z) (X @ z # Y @ Z) = X @ d # z # Y @ Z"
    using assms by (intro put_before_mid) auto
  then show ?thesis using assms n f by (auto simp: move_before_def Let_def)
qed

lemma move_right:
  assumes "distinct (map dom_id (X @ d # Y @ Z))"
  shows "move_before (dom_id d) (case Z of [] \<Rightarrow> None | k # _ \<Rightarrow> Some (dom_id k)) (X @ d # Y @ Z) = Some (X @ Y @ d # Z)"
proof (cases Z)
  case Nil
  then show ?thesis using filter_mid [of X d Y] node_at_mid [of X d Y] assms by (simp add: move_before_def Let_def)
next
  case (Cons z Z')
  have "put_before d (dom_id z) ((X @ Y) @ z # Z') = (X @ Y) @ d # z # Z'"
    using assms Cons by (intro put_before_mid) auto
  then show ?thesis using Cons filter_mid [of X d "Y @ Z"] node_at_mid [of X d "Y @ Z"] assms
    by (auto simp: move_before_def Let_def)
qed

section \<open>The window of old nodes\<close>

fun somes :: "'a option list \<Rightarrow> 'a list" where
  "somes [] = []"
| "somes (None # xs) = somes xs"
| "somes (Some x # xs) = x # somes xs"

definition win :: "'a option list \<Rightarrow> nat \<Rightarrow> nat \<Rightarrow> 'a list" where
  "win xs a b = somes (map ((!) xs) [a..<b])"

lemma somes_append: "somes (xs @ ys) = somes xs @ somes ys"
  by (induction xs rule: somes.induct) auto

lemma win_empty: "b \<le> a \<Longrightarrow> win xs a b = []"
  by (simp add: win_def)

lemma win_split: "a \<le> i \<Longrightarrow> i \<le> b \<Longrightarrow> win xs a b = win xs a i @ win xs i b"
  unfolding win_def by (metis map_append somes_append upt_add_eq_append le_add_diff_inverse)

lemma win_one: "win xs i (Suc i) = (case xs ! i of None \<Rightarrow> [] | Some x \<Rightarrow> [x])"
  by (simp add: win_def split: option.split)

lemma win_first: "a < b \<Longrightarrow> win xs a b = (case xs ! a of None \<Rightarrow> [] | Some x \<Rightarrow> [x]) @ win xs (Suc a) b"
  using win_split [of a "Suc a" b xs] win_one [of xs a] by simp

lemma win_last: "a < b \<Longrightarrow> win xs a b = win xs a (b - 1) @ (case xs ! (b - 1) of None \<Rightarrow> [] | Some x \<Rightarrow> [x])"
  using win_split [of a "b - 1" b xs] win_one [of xs "b - 1"] by simp

lemma win_update: "l < a \<or> b \<le> l \<Longrightarrow> win (xs[l := y]) a b = win xs a b"
  unfolding win_def by (rule arg_cong [where f = somes], rule map_cong) auto

lemma win_hole:
  assumes "a \<le> l" and "l < b" and "l < length xs" and "xs ! l = Some u"
  shows "win xs a b = win xs a l @ u # win xs (Suc l) b" and "win (xs[l := None]) a b = win xs a l @ win xs (Suc l) b"
proof -
  show "win xs a b = win xs a l @ u # win xs (Suc l) b"
    using win_split [of a l b xs] win_first [of l b xs] assms by simp
  show "win (xs[l := None]) a b = win xs a l @ win xs (Suc l) b"
    using win_split [of a l b "xs[l := None]"] win_first [of l b "xs[l := None]"] assms by (simp add: win_update)
qed

lemma set_win: "u \<in> set (win xs a b) \<Longrightarrow> \<exists>i. a \<le> i \<and> i < b \<and> xs ! i = Some u"
proof -
  have "u \<in> set (somes ys) \<Longrightarrow> Some u \<in> set ys" for ys by (induction ys rule: somes.induct) auto
  moreover assume "u \<in> set (win xs a b)"
  ultimately have "Some u \<in> (!) xs ` {a..<b}" unfolding win_def by fastforce
  then show ?thesis by force
qed

section \<open>What the loop keeps\<close>

text \<open>The contract of \<open>patchVnode\<close> on a new node.\<close>

definition pt_ok :: "patcher \<Rightarrow> unit vnode \<Rightarrow> bool" where
  "pt_ok pt y \<longleftrightarrow>
     (\<forall>v d c. same_vnode (label v) (label y) \<longrightarrow> wf_vnode v \<longrightarrow> renders d v \<longrightarrow> sound c d \<longrightarrow>
        (\<exists>d' y' c'. pt v y d c = Some (d', y', c') \<and> renders d' y' \<and> unrendered y' = y
           \<and> dom_id d' = dom_id d \<and> c \<le> c' \<and> sound c' d'))"

definition shown :: "dom list \<Rightarrow> nat vnode option list \<Rightarrow> unit vnode list \<Rightarrow> bool" where
  "shown ds xs vs \<longleftrightarrow> (\<exists>ys. xs = map Some ys \<and> map unrendered ys = vs \<and> list_all2 renders ds ys)"

text \<open>The children are what has been done at the front, the old nodes of the window, and what has
  been done at the back.\<close>

definition split_ok :: "unit vnode list \<Rightarrow> update_state \<Rightarrow> dom list \<Rightarrow> dom list \<Rightarrow> dom list \<Rightarrow> bool" where
  "split_ok N st F M B \<longleftrightarrow>
     kids st = F @ M @ B \<and> shown F (take (ns st) (news st)) (take (ns st) N)
     \<and> list_all2 renders M (win (olds st) (os st) (oe st))
     \<and> shown B (drop (ne st) (news st)) (drop (ne st) N)"

definition bounds_ok :: "nat vnode list \<Rightarrow> unit vnode list \<Rightarrow> update_state \<Rightarrow> bool" where
  "bounds_ok T N st \<longleftrightarrow>
     os st \<le> oe st \<and> oe st \<le> length T \<and> ns st \<le> ne st \<and> ne st \<le> length N
     \<and> length (olds st) = length T \<and> length (news st) = length N
     \<and> (\<forall>i < length T. olds st ! i = None \<or> olds st ! i = Some (T ! i))"

definition ids_ok :: "nat \<Rightarrow> dom list \<Rightarrow> bool" where
  "ids_ok c ks \<longleftrightarrow> distinct (map dom_id ks) \<and> list_all (sound c) ks"

definition upd_ok :: "nat vnode list \<Rightarrow> unit vnode list \<Rightarrow> update_state \<Rightarrow> bool" where
  "upd_ok T N st \<longleftrightarrow> bounds_ok T N st \<and> (\<exists>F M B. split_ok N st F M B) \<and> ids_ok (counter st) (kids st)"

text \<open>Keys: an old node that is gone has been used by a finished new one with its key, the object of
  keys knows the others, and a finished new node has the document node of the old one that it may
  be patched from.\<close>

definition gone :: "update_state \<Rightarrow> nat \<Rightarrow> bool" where
  "gone st i \<longleftrightarrow> i < os st \<or> oe st \<le> i \<or> olds st ! i = None"

definition finished :: "update_state \<Rightarrow> nat \<Rightarrow> bool" where
  "finished st j \<longleftrightarrow> j < ns st \<or> ne st \<le> j"

definition map_inv :: "nat vnode list \<Rightarrow> update_state \<Rightarrow> nat obj \<Rightarrow> bool" where
  "map_inv T st s \<longleftrightarrow>
     (\<forall>ks l. oget s ks = Some l \<longrightarrow> l < length T \<and> (\<exists>k. lb_key (label (T ! l)) = Some k \<and> key_string k = ks))
     \<and> (\<forall>i < length T. \<forall>k. \<not> gone st i \<longrightarrow> lb_key (label (T ! i)) = Some k \<longrightarrow> oget s (key_string k) \<noteq> None)"

definition keys_inv :: "nat vnode list \<Rightarrow> unit vnode list \<Rightarrow> update_state \<Rightarrow> bool" where
  "keys_inv T N st \<longleftrightarrow>
     (\<forall>i < length T. \<forall>k. gone st i \<longrightarrow> lb_key (label (T ! i)) = Some k \<longrightarrow>
        (\<exists>j < length N. finished st j \<and> lb_key (label (N ! j)) = Some k))
     \<and> (keymap st = None \<longrightarrow> (\<forall>i < length T. olds st ! i \<noteq> None))
     \<and> (\<forall>s. keymap st = Some s \<longrightarrow> map_inv T st s)
     \<and> (\<forall>j < length N. \<forall>i < length T. finished st j \<longrightarrow> lb_key (label (N ! j)) \<noteq> None \<longrightarrow>
          same_vnode (label (T ! i)) (label (N ! j)) \<longrightarrow> (\<exists>y. news st ! j = Some y \<and> elm y = elm (T ! i)))"

lemma same_key: "same_vnode e t \<Longrightarrow> lb_key e = lb_key t"
  by (simp add: same_vnode_def)

lemma same_vnode_sym: "same_vnode e t \<longleftrightarrow> same_vnode t e"
  by (auto simp: same_vnode_def same_input_def)

lemma shown_Nil [simp]: "shown [] [] []"
  by (simp add: shown_def)

lemma shown_snoc: "shown ds xs vs \<Longrightarrow> renders d y \<Longrightarrow> unrendered y = v \<Longrightarrow> shown (ds @ [d]) (xs @ [Some y]) (vs @ [v])"
  unfolding shown_def by (elim exE) (rule_tac x = "ys @ [y]" in exI, auto intro: list_all2_appendI)

lemma shown_Cons: "shown ds xs vs \<Longrightarrow> renders d y \<Longrightarrow> unrendered y = v \<Longrightarrow> shown (d # ds) (Some y # xs) (v # vs)"
  unfolding shown_def by (elim exE) (rule_tac x = "y # ys" in exI, auto)

lemma keys_unique:
  "distinct (child_keys cs) \<Longrightarrow> i < length cs \<Longrightarrow> j < length cs \<Longrightarrow> lb_key (label (cs ! i)) = Some k \<Longrightarrow>
     lb_key (label (cs ! j)) = Some k' \<Longrightarrow> key_string k = key_string k' \<Longrightarrow> i = j"
proof (induction cs arbitrary: i j)
  case Nil
  then show ?case by simp
next
  case (Cons c cs)
  have later: "key_string k'' \<in> set (child_keys cs)" if "n < length cs" "lb_key (label (cs ! n)) = Some k''" for n k''
    using that by (force simp: child_keys_def in_set_conv_nth)
  show ?case
    using Cons.prems Cons.IH later
    by (cases i; cases j) (fastforce simp: child_keys_def)+
qed

text \<open>Front and back grow by one.\<close>

lemma shown_front:
  assumes "shown F (take n news0) (take n N)" and "n < length N" and "length news0 = length N"
    and "renders d y" and "unrendered y = N ! n"
  shows "shown (F @ [d]) (take (Suc n) (news0[n := Some y])) (take (Suc n) N)"
proof -
  have "take (Suc n) (news0[n := Some y]) = take n news0 @ [Some y]"
    using assms(2,3) by (simp add: take_Suc_conv_app_nth)
  then show ?thesis using shown_snoc [OF assms(1,4,5)] assms(2) by (simp add: take_Suc_conv_app_nth)
qed

lemma shown_back:
  assumes "shown B (drop m news0) (drop m N)" and "0 < m" and "m \<le> length N" and "length news0 = length N"
    and "renders d y" and "unrendered y = N ! (m - 1)"
  shows "shown (d # B) (drop (m - 1) (news0[m - 1 := Some y])) (drop (m - 1) N)"
proof -
  have "drop (m - 1) (news0[m - 1 := Some y]) = Some y # drop m news0"
    using assms(2-4) Cons_nth_drop_Suc [of "m - 1" "news0[m - 1 := Some y]"] by simp
  moreover have "drop (m - 1) N = N ! (m - 1) # drop m N"
    using assms(2,3) Cons_nth_drop_Suc [of "m - 1" N] by simp
  ultimately show ?thesis using shown_Cons [OF assms(1,5,6)] by simp
qed

lemma patch_kid_mid:
  assumes "pt_ok pt (N ! j)" and "same_vnode (label v) (label (N ! j))" and "wf_vnode v" and "renders d v"
    and k: "kids st = X @ d # Y" and i: "ids_ok (counter st) (kids st)"
  obtains d' y c where
    "patch_kid pt v N j st = Some (st\<lparr>kids := X @ d' # Y, news := (news st)[j := Some y], counter := c\<rparr>)"
    "renders d' y" "unrendered y = N ! j" "dom_id d' = dom_id d" "elm y = elm v" "ids_ok c (X @ d' # Y)" "counter st \<le> c"
proof -
  have dist: "distinct (map dom_id (X @ d # Y))" and s: "sound (counter st) d" and sXY: "list_all (sound (counter st)) (X @ Y)"
    using i k by (simp_all add: ids_ok_def)
  obtain d' y c where p: "pt v (N ! j) d (counter st) = Some (d', y, c)" "renders d' y" "unrendered y = N ! j"
    "dom_id d' = dom_id d" "counter st \<le> c" "sound c d'"
    using assms(1-4) s unfolding pt_ok_def by blast
  have e: "elm v = dom_id d" using renders_id [OF assms(4)] by simp
  have "patch_kid pt v N j st = Some (st\<lparr>kids := X @ d' # Y, news := (news st)[j := Some y], counter := c\<rparr>)"
    unfolding patch_kid_def e k using node_at_mid [OF dist] replace_mid [OF dist] p(1) by simp
  moreover have "elm y = elm v" using renders_id [OF p(2)] p(4) e by simp
  moreover have "ids_ok c (X @ d' # Y)"
    using dist p(4,6) sXY sound_mono [OF _ p(5)] by (auto simp: ids_ok_def list_all_iff)
  ultimately show thesis using that p by blast
qed

lemma create_kid_mid:
  assumes "wf_vnode (N ! j)" and k: "kids st = X @ Y" and i: "ids_ok (counter st) (kids st)"
    and r: "r = (case Y of [] \<Rightarrow> None | z # _ \<Rightarrow> Some (dom_id z))"
  obtains d y c where
    "create_kid N r j st = st\<lparr>kids := X @ d # Y, news := (news st)[j := Some y], counter := c\<rparr>"
    "renders d y" "unrendered y = N ! j" "ids_ok c (X @ d # Y)" "counter st \<le> c"
proof -
  obtain d y c where c: "create_elm (counter st) (N ! j) = (d, y, c)" by (rule prod_cases3)
  note s = create_spec(1) [OF assms(1) c]
  have dist: "distinct (map dom_id (X @ Y))" and sXY: "list_all (sound (counter st)) (X @ Y)"
    using i k by (simp_all add: ids_ok_def)
  have "insert_new d r (X @ Y) = X @ d # Y"
  proof (cases Y)
    case Nil
    then show ?thesis by (simp add: r insert_new_def)
  next
    case (Cons z Y')
    then show ?thesis using put_before_mid [of z X d Y'] dist by (simp add: r insert_new_def)
  qed
  then have "create_kid N r j st = st\<lparr>kids := X @ d # Y, news := (news st)[j := Some y], counter := c\<rparr>"
    by (simp add: create_kid_def c k)
  moreover have "\<forall>x \<in> set (X @ Y). dom_id x < dom_id d"
    using s sXY sound_id by (simp add: list_all_iff)
  then have "ids_ok c (X @ d # Y)"
    using dist s sXY sound_mono [of "counter st" _ c] by (fastforce simp: ids_ok_def list_all_iff)
  moreover have "counter st \<le> c" using s by simp
  ultimately show thesis using that s by blast
qed

section \<open>Keys\<close>

lemma consume:
  assumes inv: "keys_inv T N st" and T: "distinct (child_keys T)" and i: "i < length T" "\<not> gone st i"
    and j: "j < length N" "\<not> finished st j" and same: "same_vnode (label (T ! i)) (label (N ! j))" and e: "elm y = elm (T ! i)"
    and len: "length (news st) = length N" and news: "news st' = (news st)[j := Some y]" and km: "keymap st' = keymap st"
    and g: "\<And>x. x < length T \<Longrightarrow> gone st' x \<longleftrightarrow> gone st x \<or> x = i" and f: "\<And>x. finished st' x \<longleftrightarrow> finished st x \<or> x = j"
    and ol: "keymap st = None \<Longrightarrow> olds st' = olds st"
  shows "keys_inv T N st'"
  unfolding keys_inv_def
proof (intro conjI allI impI)
  note used = inv [unfolded keys_inv_def, THEN conjunct1, rule_format]
  note reuse = inv [unfolded keys_inv_def, THEN conjunct2, THEN conjunct2, THEN conjunct2, rule_format]
  show "\<exists>n < length N. finished st' n \<and> lb_key (label (N ! n)) = Some k"
    if "x < length T" "gone st' x" "lb_key (label (T ! x)) = Some k" for x k
  proof (cases "gone st x")
    case True
    then show ?thesis using used [OF that(1) True that(3)] f by blast
  next
    case False
    then have "x = i" using that g by blast
    then show ?thesis using that(3) same_key [OF same] j(1) f by auto
  qed
  show "olds st' ! x \<noteq> None" if "keymap st' = None" "x < length T" for x
    using inv that km ol by (simp add: keys_inv_def)
  show "map_inv T st' s" if "keymap st' = Some s" for s
    using inv that km g by (auto simp: keys_inv_def map_inv_def)
  show "\<exists>y'. news st' ! n = Some y' \<and> elm y' = elm (T ! x)"
    if n: "n < length N" "x < length T" "finished st' n" "lb_key (label (N ! n)) \<noteq> None" "same_vnode (label (T ! x)) (label (N ! n))" for n x
  proof (cases "n = j")
    case True
    then have "lb_key (label (T ! x)) = lb_key (label (T ! i))" using n(5) same same_key by metis
    moreover have "lb_key (label (T ! x)) \<noteq> None" using n(4,5) same_key by metis
    ultimately have "x = i" using keys_unique [OF T n(2) i(1)] by (metis not_Some_eq)
    then show ?thesis using True news len j(1) e by simp
  next
    case False
    then show ?thesis using reuse [OF n(1,2) _ n(4,5)] n(3) f news by auto
  qed
qed

lemma produce:
  assumes inv: "keys_inv T N st" and j: "j < length N" "\<not> finished st j"
    and no: "\<And>i. i < length T \<Longrightarrow> lb_key (label (N ! j)) \<noteq> None \<Longrightarrow> \<not> same_vnode (label (T ! i)) (label (N ! j))"
    and st': "news st' = (news st)[j := Some y]" "keymap st' = keymap st" "olds st' = olds st" "os st' = os st" "oe st' = oe st"
    and f: "\<And>x. finished st' x \<longleftrightarrow> finished st x \<or> x = j"
  shows "keys_inv T N st'"
proof -
  have g: "gone st' x = gone st x" for x using st' by (simp add: gone_def)
  have "map_inv T st' s = map_inv T st s" for s by (simp add: map_inv_def g)
  moreover have "\<exists>y'. news st' ! n = Some y' \<and> elm y' = elm (T ! x)"
    if n: "n < length N" "x < length T" "finished st' n" "lb_key (label (N ! n)) \<noteq> None" "same_vnode (label (T ! x)) (label (N ! n))" for n x
    using inv n no f st'(1) unfolding keys_inv_def by (cases "n = j") auto
  ultimately show ?thesis using inv st' f g unfolding keys_inv_def by metis
qed

lemma unused_key:
  assumes inv: "keys_inv T N st" and N: "distinct (child_keys N)" and j: "j < length N" "\<not> finished st j"
    and i: "i < length T" "gone st i" and k: "lb_key (label (N ! j)) = Some k" "lb_key (label (T ! i)) = Some k'"
  shows "key_string k \<noteq> key_string k'"
proof
  assume s: "key_string k = key_string k'"
  obtain n where n: "n < length N" "finished st n" "lb_key (label (N ! n)) = Some k'"
    using inv i k(2) unfolding keys_inv_def by blast
  then have "j = n" using keys_unique [OF N j(1) n(1) k(1) n(3) s] by simp
  then show False using j(2) n(2) by simp
qed

lemma key_fold:
  defines "f \<equiv> \<lambda>T i (s :: nat obj). case lb_key (label (T ! i)) of None \<Rightarrow> s | Some k \<Rightarrow> oset (key_string k) i s"
  shows "oget (fold (f T) xs s) ks = Some l \<Longrightarrow>
      oget s ks = Some l \<or> l \<in> set xs \<and> (\<exists>k. lb_key (label (T ! l)) = Some k \<and> key_string k = ks)"
    and "oget s ks \<noteq> None \<or> (\<exists>i \<in> set xs. \<exists>k. lb_key (label (T ! i)) = Some k \<and> key_string k = ks) \<Longrightarrow>
      oget (fold (f T) xs s) ks \<noteq> None"
proof (induction xs arbitrary: s)
  case Nil
  { case 1 then show ?case by simp
  next case 2 then show ?case by simp }
next
  case (Cons x xs)
  { case 1
    then have "oget (fold (f T) xs (f T x s)) ks = Some l" by simp
    from Cons.IH(1) [OF this] show ?case by (auto simp: f_def obj_simps split: option.splits if_splits)
  next
    case 2
    then have "oget (f T x s) ks \<noteq> None \<or> (\<exists>i \<in> set xs. \<exists>k. lb_key (label (T ! i)) = Some k \<and> key_string k = ks)"
      by (auto simp: f_def obj_simps split: option.splits)
    then show ?case using Cons.IH(2) by simp }
qed

lemma key_map_spec:
  assumes "\<And>i. lo \<le> i \<Longrightarrow> i < hi \<Longrightarrow> t ! i = Some (T ! i)"
  obtains s where "key_map t lo hi = Some s"
    "\<And>ks l. oget s ks = Some l \<Longrightarrow> l < hi \<and> (\<exists>k. lb_key (label (T ! l)) = Some k \<and> key_string k = ks)"
    "\<And>i k. lo \<le> i \<Longrightarrow> i < hi \<Longrightarrow> lb_key (label (T ! i)) = Some k \<Longrightarrow> oget s (key_string k) \<noteq> None"
proof -
  let ?f = "\<lambda>T i (s :: nat obj). case lb_key (label (T ! i)) of None \<Rightarrow> s | Some k \<Rightarrow> oset (key_string k) i s"
  have "fold (\<lambda>i s. case lb_key (label (the (t ! i))) of None \<Rightarrow> s | Some k \<Rightarrow> oset (key_string k) i s) [lo..<hi] [] = fold (?f T) [lo..<hi] []"
    by (rule fold_cong) (auto simp: assms)
  then have m: "key_map t lo hi = Some (fold (?f T) [lo..<hi] [])"
    by (simp add: key_map_def list_all_iff assms)
  show thesis
  proof (rule that [OF m])
    fix ks l
    assume "oget (fold (?f T) [lo..<hi] []) ks = Some l"
    from key_fold(1) [OF this] show "l < hi \<and> (\<exists>k. lb_key (label (T ! l)) = Some k \<and> key_string k = ks)" by auto
  next
    fix i k
    assume "lo \<le> i" "i < hi" "lb_key (label (T ! i)) = Some k"
    then show "oget (fold (?f T) [lo..<hi] []) (key_string k) \<noteq> None" by (intro key_fold(2)) auto
  qed
qed

text \<open>The object of keys is made once, when no hole has been made yet, or is there already.\<close>

lemma with_keymap:
  assumes inv: "keys_inv T N st" and b: "bounds_ok T N st"
  obtains s where "(case keymap st of Some s \<Rightarrow> Some s | None \<Rightarrow> key_map (olds st) (os st) (oe st)) = Some s"
    "keys_inv T N (st\<lparr>keymap := Some s\<rparr>)"
proof (cases "keymap st")
  case None
  have no: "olds st ! i = Some (T ! i)" if "i < oe st" for i
    using None inv b that unfolding keys_inv_def bounds_ok_def by (meson less_le_trans)
  obtain s where s: "key_map (olds st) (os st) (oe st) = Some s"
    "\<And>ks l. oget s ks = Some l \<Longrightarrow> l < oe st \<and> (\<exists>k. lb_key (label (T ! l)) = Some k \<and> key_string k = ks)"
    "\<And>i k. os st \<le> i \<Longrightarrow> i < oe st \<Longrightarrow> lb_key (label (T ! i)) = Some k \<Longrightarrow> oget s (key_string k) \<noteq> None"
    using key_map_spec [of "os st" "oe st" "olds st" T] no by blast
  have oe: "oe st \<le> length T" using b by (simp add: bounds_ok_def)
  have "map_inv T st s"
    unfolding map_inv_def using s(2,3) oe by (auto simp: gone_def not_less not_le dest: less_le_trans)
  then have "keys_inv T N (st\<lparr>keymap := Some s\<rparr>)"
    using inv unfolding keys_inv_def map_inv_def by (simp add: gone_def finished_def)
  then show thesis using that s(1) None by simp
next
  case (Some s)
  then have e: "st\<lparr>keymap := Some s\<rparr> = st" by simp
  show thesis
  proof (rule that [of s])
    show "(case keymap st of Some s \<Rightarrow> Some s | None \<Rightarrow> key_map (olds st) (os st) (oe st)) = Some s" using Some by simp
    show "keys_inv T N (st\<lparr>keymap := Some s\<rparr>)" unfolding e by (rule inv)
  qed
qed

section \<open>One round of the loop\<close>

definition setting :: "patcher \<Rightarrow> nat vnode list \<Rightarrow> unit vnode list \<Rightarrow> bool" where
  "setting pt T N \<longleftrightarrow>
     list_all (pt_ok pt) N \<and> list_all wf_vnode N \<and> list_all wf_vnode T \<and> distinct (child_keys T) \<and> keys_ok N"

definition inv :: "nat \<Rightarrow> nat vnode list \<Rightarrow> unit vnode list \<Rightarrow> update_state \<Rightarrow> bool" where
  "inv c0 T N st \<longleftrightarrow> upd_ok T N st \<and> keys_inv T N st \<and> c0 \<le> counter st"

lemma settingD:
  assumes "setting pt T N"
  shows "j < length N \<Longrightarrow> pt_ok pt (N ! j)" "j < length N \<Longrightarrow> wf_vnode (N ! j)" "i < length T \<Longrightarrow> wf_vnode (T ! i)"
    "distinct (child_keys T)" "distinct (child_keys N)" "keys_ok N"
  using assms by (auto simp: setting_def list_all_length keys_ok_def)

lemma keys_skip:
  assumes "keys_inv T N st" and "\<And>x. x < length T \<Longrightarrow> gone st' x = gone st x"
    and "ns st' = ns st" "ne st' = ne st" "keymap st' = keymap st" "olds st' = olds st" "news st' = news st"
  shows "keys_inv T N st'"
  using assms by (auto simp: keys_inv_def map_inv_def finished_def)

lemma old_node: "bounds_ok T N st \<Longrightarrow> i < length T \<Longrightarrow> olds st ! i = Some v \<Longrightarrow> v = T ! i"
  by (auto simp: bounds_ok_def)

lemma list_all2_snoc2: "list_all2 P xs (ys @ [y]) \<Longrightarrow> \<exists>us u. xs = us @ [u] \<and> list_all2 P us ys \<and> P u y"
  by (auto simp: list_all2_append2 list_all2_Cons2)

lemma round_start:
  assumes set: "setting pt T N" and i: "inv c0 T N st" and l: "os st < oe st" "ns st < ne st"
    and v: "olds st ! os st = Some v" and same: "same_vnode (label v) (label (N ! ns st))"
  shows "\<exists>st1. patch_kid pt v N (ns st) st = Some st1 \<and> inv c0 T N (st1\<lparr>os := Suc (os st), ns := Suc (ns st)\<rparr>)"
proof -
  obtain F M B where b: "bounds_ok T N st" and sp: "split_ok N st F M B" and ids: "ids_ok (counter st) (kids st)"
    and key: "keys_inv T N st"
    using i by (auto simp: inv_def upd_ok_def)
  have j: "ns st < length N" and x: "os st < length T" and len: "length (news st) = length N"
    using b l by (auto simp: bounds_ok_def)
  have vT: "v = T ! os st" by (rule old_node [OF b x v])
  have w: "win (olds st) (os st) (oe st) = v # win (olds st) (Suc (os st)) (oe st)"
    using win_first [OF l(1), of "olds st"] v by simp
  then obtain d M' where M: "M = d # M'" "renders d v" "list_all2 renders M' (win (olds st) (Suc (os st)) (oe st))"
    using sp by (auto simp: split_ok_def list_all2_Cons2)
  have k: "kids st = F @ d # (M' @ B)" using sp M(1) by (simp add: split_ok_def)
  obtain d' y c where p: "patch_kid pt v N (ns st) st = Some (st\<lparr>kids := F @ d' # (M' @ B), news := (news st)[ns st := Some y], counter := c\<rparr>)"
    "renders d' y" "unrendered y = N ! ns st" "elm y = elm v" "ids_ok c (F @ d' # (M' @ B))" "counter st \<le> c"
    using patch_kid_mid [OF settingD(1) [OF set j] same settingD(3) [OF set x, folded vT] M(2) k ids] by blast
  let ?st = "(st\<lparr>kids := F @ d' # (M' @ B), news := (news st)[ns st := Some y], counter := c\<rparr>)\<lparr>os := Suc (os st), ns := Suc (ns st)\<rparr>"
  have "split_ok N ?st (F @ [d']) M' B"
    using sp M(3) shown_front [of F "ns st" "news st" N d' y] j len p(2,3) l by (simp add: split_ok_def)
  moreover have "bounds_ok T N ?st" using b l by (auto simp: bounds_ok_def)
  moreover have "keys_inv T N ?st"
    using l v by (intro consume [OF key settingD(4) [OF set] x _ j _ same [unfolded vT] p(4) [unfolded vT] len])
      (auto simp: gone_def finished_def)
  moreover have "c0 \<le> c" using i \<open>counter st \<le> c\<close> by (simp add: inv_def)
  ultimately show ?thesis using p(1,5) unfolding inv_def upd_ok_def by auto
qed

lemma round_end:
  assumes set: "setting pt T N" and i: "inv c0 T N st" and l: "os st < oe st" "ns st < ne st"
    and g: "olds st ! (oe st - 1) = Some g" and same: "same_vnode (label g) (label (N ! (ne st - 1)))"
  shows "\<exists>st1. patch_kid pt g N (ne st - 1) st = Some st1 \<and> inv c0 T N (st1\<lparr>oe := oe st - 1, ne := ne st - 1\<rparr>)"
proof -
  obtain F M B where b: "bounds_ok T N st" and sp: "split_ok N st F M B" and ids: "ids_ok (counter st) (kids st)"
    and key: "keys_inv T N st"
    using i by (auto simp: inv_def upd_ok_def)
  have j: "ne st - 1 < length N" and x: "oe st - 1 < length T" and len: "length (news st) = length N"
    using b l by (auto simp: bounds_ok_def)
  have gT: "g = T ! (oe st - 1)" by (rule old_node [OF b x g])
  have w: "win (olds st) (os st) (oe st) = win (olds st) (os st) (oe st - 1) @ [g]"
    using win_last [OF l(1), of "olds st"] g by simp
  then obtain d M' where M: "M = M' @ [d]" "renders d g" "list_all2 renders M' (win (olds st) (os st) (oe st - 1))"
    using sp by (auto simp: split_ok_def list_all2_append2 list_all2_Cons2)
  have k: "kids st = (F @ M') @ d # B" using sp M(1) by (simp add: split_ok_def)
  obtain d' y c where p: "patch_kid pt g N (ne st - 1) st = Some (st\<lparr>kids := (F @ M') @ d' # B, news := (news st)[ne st - 1 := Some y], counter := c\<rparr>)"
    "renders d' y" "unrendered y = N ! (ne st - 1)" "elm y = elm g" "ids_ok c ((F @ M') @ d' # B)" "counter st \<le> c"
    using patch_kid_mid [OF settingD(1) [OF set j] same settingD(3) [OF set x, folded gT] M(2) k ids] by blast
  let ?st = "(st\<lparr>kids := (F @ M') @ d' # B, news := (news st)[ne st - 1 := Some y], counter := c\<rparr>)\<lparr>oe := oe st - 1, ne := ne st - 1\<rparr>"
  have "split_ok N ?st F M' (d' # B)"
    using sp M(3) shown_back [of B "ne st" "news st" N d' y] j len p(2,3) l by (simp add: split_ok_def)
  moreover have "bounds_ok T N ?st" using b l by (auto simp: bounds_ok_def)
  moreover have "keys_inv T N ?st"
    using l g by (intro consume [OF key settingD(4) [OF set] x _ j _ same [unfolded gT] p(4) [unfolded gT] len])
      (auto simp: gone_def finished_def)
  moreover have "c0 \<le> c" using i \<open>counter st \<le> c\<close> by (simp add: inv_def)
  ultimately show ?thesis using p(1,5) unfolding inv_def upd_ok_def by auto
qed

text \<open>The old start node is the new end node: it moves behind the old end node.\<close>

lemma round_right:
  assumes set: "setting pt T N" and i: "inv c0 T N st" and l: "os st < oe st - 1" "ns st < ne st"
    and v: "olds st ! os st = Some v" and g: "olds st ! (oe st - 1) = Some g"
    and same: "same_vnode (label v) (label (N ! (ne st - 1)))"
  shows "\<exists>st1. Option.bind (patch_kid pt v N (ne st - 1) st) (\<lambda>st1. move_kid v (next_sibling (elm g) (kids st1)) st1) = Some st1
     \<and> inv c0 T N (st1\<lparr>os := Suc (os st), ne := ne st - 1\<rparr>)"
proof -
  obtain F M B where b: "bounds_ok T N st" and sp: "split_ok N st F M B" and ids: "ids_ok (counter st) (kids st)"
    and key: "keys_inv T N st"
    using i by (auto simp: inv_def upd_ok_def)
  have j: "ne st - 1 < length N" and x: "os st < length T" and len: "length (news st) = length N"
    using b l by (auto simp: bounds_ok_def)
  have vT: "v = T ! os st" by (rule old_node [OF b x v])
  have w: "win (olds st) (os st) (oe st) = v # win (olds st) (Suc (os st)) (oe st)"
    "win (olds st) (Suc (os st)) (oe st) = win (olds st) (Suc (os st)) (oe st - 1) @ [g]"
    using win_first [of "os st" "oe st" "olds st"] win_last [of "Suc (os st)" "oe st" "olds st"] v g l by simp_all
  then obtain d M1 where "M = d # M1" "renders d v" and M1: "list_all2 renders M1 (win (olds st) (Suc (os st)) (oe st))"
    using sp by (auto simp: split_ok_def list_all2_Cons2)
  moreover obtain W dg where "M1 = W @ [dg]" "renders dg g" using list_all2_snoc2 [OF M1 [unfolded w(2)]] by blast
  ultimately have M: "M = d # W @ [dg]" "renders d v" "renders dg g"
    "list_all2 renders (W @ [dg]) (win (olds st) (Suc (os st)) (oe st))" by simp_all
  have k: "kids st = F @ d # (W @ dg # B)" using sp M(1) by (simp add: split_ok_def)
  obtain d' y c where p: "patch_kid pt v N (ne st - 1) st = Some (st\<lparr>kids := F @ d' # (W @ dg # B), news := (news st)[ne st - 1 := Some y], counter := c\<rparr>)"
    "renders d' y" "unrendered y = N ! (ne st - 1)" "dom_id d' = dom_id d" "elm y = elm v" "ids_ok c (F @ d' # (W @ dg # B))" "counter st \<le> c"
    using patch_kid_mid [OF settingD(1) [OF set j] same settingD(3) [OF set x, folded vT] M(2) k ids] by blast
  have dist: "distinct (map dom_id (F @ d' # (W @ dg # B)))" using p(6) by (simp add: ids_ok_def)
  have n: "next_sibling (elm g) (F @ d' # (W @ dg # B)) = (case B of [] \<Rightarrow> None | k # _ \<Rightarrow> Some (dom_id k))"
    using next_sibling_mid [of "F @ d' # W" dg B] dist renders_id [OF M(3)] by simp
  have mv: "move_before (elm v) (case B of [] \<Rightarrow> None | k # _ \<Rightarrow> Some (dom_id k)) (F @ d' # (W @ dg # B)) = Some (F @ (W @ [dg]) @ d' # B)"
    using move_right [of F d' "W @ [dg]" B] dist p(4) renders_id [OF M(2)] by simp
  let ?st1 = "st\<lparr>kids := F @ (W @ [dg]) @ d' # B, news := (news st)[ne st - 1 := Some y], counter := c\<rparr>"
  let ?st = "?st1\<lparr>os := Suc (os st), ne := ne st - 1\<rparr>"
  have "Option.bind (patch_kid pt v N (ne st - 1) st) (\<lambda>st1. move_kid v (next_sibling (elm g) (kids st1)) st1) = Some ?st1"
    using p(1) n mv by (simp add: move_kid_def)
  moreover have "split_ok N ?st F (W @ [dg]) (d' # B)"
    using sp M(4) shown_back [of B "ne st" "news st" N d' y] j len p(2,3) l by (simp add: split_ok_def)
  moreover have "bounds_ok T N ?st" using b l by (auto simp: bounds_ok_def)
  moreover have "keys_inv T N ?st"
    using l v by (intro consume [OF key settingD(4) [OF set] x _ j _ same [unfolded vT] p(5) [unfolded vT] len])
      (auto simp: gone_def finished_def)
  moreover have "ids_ok c (kids ?st)" using p(6) by (auto simp: ids_ok_def)
  moreover have "c0 \<le> c" using i \<open>counter st \<le> c\<close> by (simp add: inv_def)
  ultimately show ?thesis unfolding inv_def upd_ok_def by auto
qed

text \<open>The old end node is the new start node: it moves before the old start node.\<close>

lemma round_left:
  assumes set: "setting pt T N" and i: "inv c0 T N st" and l: "os st < oe st - 1" "ns st < ne st"
    and v: "olds st ! os st = Some v" and g: "olds st ! (oe st - 1) = Some g"
    and same: "same_vnode (label g) (label (N ! ns st))"
  shows "\<exists>st1. Option.bind (patch_kid pt g N (ns st) st) (\<lambda>st1. move_kid g (Some (elm v)) st1) = Some st1
     \<and> inv c0 T N (st1\<lparr>oe := oe st - 1, ns := Suc (ns st)\<rparr>)"
proof -
  obtain F M B where b: "bounds_ok T N st" and sp: "split_ok N st F M B" and ids: "ids_ok (counter st) (kids st)"
    and key: "keys_inv T N st"
    using i by (auto simp: inv_def upd_ok_def)
  have j: "ns st < length N" and x: "oe st - 1 < length T" and len: "length (news st) = length N"
    using b l by (auto simp: bounds_ok_def)
  have gT: "g = T ! (oe st - 1)" by (rule old_node [OF b x g])
  have w: "win (olds st) (os st) (oe st) = win (olds st) (os st) (oe st - 1) @ [g]"
    "win (olds st) (os st) (oe st - 1) = v # win (olds st) (Suc (os st)) (oe st - 1)"
    using win_first [of "os st" "oe st - 1" "olds st"] win_last [of "os st" "oe st" "olds st"] v g l by simp_all
  then obtain M1 dg where "M = M1 @ [dg]" "renders dg g" and M1: "list_all2 renders M1 (win (olds st) (os st) (oe st - 1))"
    using sp list_all2_snoc2 [of renders M "win (olds st) (os st) (oe st - 1)" g] by (auto simp: split_ok_def)
  moreover obtain d W where "M1 = d # W" "renders d v" using M1 [unfolded w(2)] by (auto simp: list_all2_Cons2)
  ultimately have M: "M = d # W @ [dg]" "renders d v" "renders dg g"
    "list_all2 renders (d # W) (win (olds st) (os st) (oe st - 1))" by simp_all
  have k: "kids st = (F @ d # W) @ dg # B" using sp M(1) by (simp add: split_ok_def)
  obtain d' y c where p: "patch_kid pt g N (ns st) st = Some (st\<lparr>kids := (F @ d # W) @ d' # B, news := (news st)[ns st := Some y], counter := c\<rparr>)"
    "renders d' y" "unrendered y = N ! ns st" "dom_id d' = dom_id dg" "elm y = elm g" "ids_ok c ((F @ d # W) @ d' # B)" "counter st \<le> c"
    using patch_kid_mid [OF settingD(1) [OF set j] same settingD(3) [OF set x, folded gT] M(3) k ids] by blast
  have mv: "move_before (elm g) (Some (elm v)) ((F @ d # W) @ d' # B) = Some ((F @ [d']) @ (d # W) @ B)"
    using move_left [of F d W d' B] p(4,6) renders_id [OF M(2)] renders_id [OF M(3)] by (simp add: ids_ok_def)
  let ?st1 = "st\<lparr>kids := (F @ [d']) @ (d # W) @ B, news := (news st)[ns st := Some y], counter := c\<rparr>"
  let ?st = "?st1\<lparr>oe := oe st - 1, ns := Suc (ns st)\<rparr>"
  have "Option.bind (patch_kid pt g N (ns st) st) (\<lambda>st1. move_kid g (Some (elm v)) st1) = Some ?st1"
    using p(1) mv by (simp add: move_kid_def)
  moreover have "split_ok N ?st (F @ [d']) (d # W) B"
    using sp M(4) shown_front [of F "ns st" "news st" N d' y] j len p(2,3) l by (simp add: split_ok_def)
  moreover have "bounds_ok T N ?st" using b l by (auto simp: bounds_ok_def)
  moreover have "keys_inv T N ?st"
    using l g by (intro consume [OF key settingD(4) [OF set] x _ j _ same [unfolded gT] p(5) [unfolded gT] len])
      (auto simp: gone_def finished_def)
  moreover have "ids_ok c (kids ?st)" using p(6) by (auto simp: ids_ok_def)
  moreover have "c0 \<le> c" using i \<open>counter st \<le> c\<close> by (simp add: inv_def)
  ultimately show ?thesis unfolding inv_def upd_ok_def by auto
qed

lemma keymap_entry:
  assumes "keys_inv T N st" and "keymap st = Some s" and "oget s ks = Some l"
  shows "l < length T \<and> (\<exists>k. lb_key (label (T ! l)) = Some k \<and> key_string k = ks)"
proof -
  have "map_inv T st s" using assms(1,2) by (simp add: keys_inv_def)
  then show ?thesis using assms(3) unfolding map_inv_def by blast
qed

lemma keymap_knows:
  assumes "keys_inv T N st" and "keymap st = Some s" and "i < length T" and "\<not> gone st i" and "lb_key (label (T ! i)) = Some k"
  shows "oget s (key_string k) \<noteq> None"
proof -
  have "map_inv T st s" using assms(1,2) by (simp add: keys_inv_def)
  then show ?thesis using assms(3-5) unfolding map_inv_def by blast
qed

text \<open>The lookup: what it finds is in the window, and what it does not find has no old node with the
  same key.\<close>

lemma lookup_in_window:
  assumes set: "setting pt T N" and i: "inv c0 T N st" and s: "keymap st = Some s" and l: "ns st < ne st"
    and o': "old_index (label (N ! ns st)) s st = Some x"
  shows "(\<exists>u. olds st ! x = Some u) \<and> x < length T
     \<and> (\<forall>u. olds st ! x = Some u \<longrightarrow> same_vnode (label u) (label (N ! ns st)) \<longrightarrow> \<not> gone st x)"
proof -
  have b: "bounds_ok T N st" and key: "keys_inv T N st" using i by (simp_all add: inv_def upd_ok_def)
  have j: "ns st < length N" using b l by (simp add: bounds_ok_def)
  have nf: "\<not> finished st (ns st)" using l by (simp add: finished_def)
  show ?thesis
  proof (cases "lb_key (label (N ! ns st))")
    case None
    then have f: "find_old (label (N ! ns st)) (olds st) (os st) (oe st) = Some x" using o' by (simp add: old_index_def)
    then have x: "os st \<le> x" "x < oe st" "olds st ! x \<noteq> None"
      by (auto simp: find_old_def find_Some_iff split: option.splits dest!: nth_mem)
    then show ?thesis using b by (auto simp: gone_def bounds_ok_def)
  next
    case (Some k)
    then have "oget s (key_string k) = Some x" using o' by (simp add: old_index_def)
    then obtain k' where x: "x < length T" "lb_key (label (T ! x)) = Some k'" "key_string k' = key_string k"
      using keymap_entry [OF key s] by blast
    have "\<not> gone st x" using unused_key [OF key settingD(5) [OF set] j nf x(1) _ Some x(2)] x(3) by auto
    then show ?thesis using x(1) by (auto simp: gone_def)
  qed
qed

lemma lookup_misses:
  assumes set: "setting pt T N" and i: "inv c0 T N st" and s: "keymap st = Some s" and l: "ns st < ne st"
    and o': "\<forall>x u. old_index (label (N ! ns st)) s st = Some x \<longrightarrow> olds st ! x = Some u \<longrightarrow> \<not> same_vnode (label u) (label (N ! ns st))"
    and x: "x < length T" "lb_key (label (N ! ns st)) \<noteq> None"
  shows "\<not> same_vnode (label (T ! x)) (label (N ! ns st))"
proof
  assume same: "same_vnode (label (T ! x)) (label (N ! ns st))"
  have b: "bounds_ok T N st" and key: "keys_inv T N st" using i by (simp_all add: inv_def upd_ok_def)
  have j: "ns st < length N" using b l by (simp add: bounds_ok_def)
  have nf: "\<not> finished st (ns st)" using l by (simp add: finished_def)
  obtain k where k: "lb_key (label (N ! ns st)) = Some k" "lb_key (label (T ! x)) = Some k"
    using x(2) same_key [OF same] by auto
  show False
  proof (cases "gone st x")
    case True
    then show ?thesis using unused_key [OF key settingD(5) [OF set] j nf x(1) True k] by simp
  next
    case False
    then obtain n where n: "oget s (key_string k) = Some n"
      using keymap_knows [OF key s x(1) False k(2)] by blast
    then obtain k' where m: "n < length T" "lb_key (label (T ! n)) = Some k'" "key_string k' = key_string k"
      using keymap_entry [OF key s n] by blast
    have "n = x" by (rule keys_unique [OF settingD(4) [OF set] m(1) x(1) m(2) k(2) m(3)])
    moreover have "olds st ! x = Some (T ! x)" using False old_node [OF b x(1)] by (auto simp: gone_def)
    moreover have "old_index (label (N ! ns st)) s st = Some n" using n k(1) by (simp add: old_index_def)
    ultimately show ?thesis using o' same by blast
  qed
qed

lemma no_inherited:
  assumes "setting pt T N" and "j < length N"
  shows "\<not> inherited_hit (label (N ! j)) s"
proof (cases "lb_key (label (N ! j))")
  case (Some k)
  then have "key_string k \<in> set (child_keys N)"
    using nth_mem [OF assms(2)] by (force simp: child_keys_def)
  then show ?thesis using settingD(6) [OF assms(1)] Some by (auto simp: inherited_hit_def keys_ok_def)
qed (simp add: inherited_hit_def)

text \<open>Creation before the old start node, and the move of a node found inside the window.\<close>

lemma round_create:
  assumes set: "setting pt T N" and i: "inv c0 T N st" and l: "os st < oe st" "ns st < ne st"
    and v: "olds st ! os st = Some v"
    and no: "\<And>x. x < length T \<Longrightarrow> lb_key (label (N ! ns st)) \<noteq> None \<Longrightarrow> \<not> same_vnode (label (T ! x)) (label (N ! ns st))"
  shows "inv c0 T N ((create_kid N (Some (elm v)) (ns st) st)\<lparr>ns := Suc (ns st)\<rparr>)"
proof -
  obtain F M B where b: "bounds_ok T N st" and sp: "split_ok N st F M B" and ids: "ids_ok (counter st) (kids st)"
    and key: "keys_inv T N st"
    using i by (auto simp: inv_def upd_ok_def)
  have j: "ns st < length N" and len: "length (news st) = length N" using b l by (auto simp: bounds_ok_def)
  have w: "win (olds st) (os st) (oe st) = v # win (olds st) (Suc (os st)) (oe st)"
    using win_first [OF l(1), of "olds st"] v by simp
  then obtain d M' where M: "M = d # M'" "renders d v" using sp by (auto simp: split_ok_def list_all2_Cons2)
  have k: "kids st = F @ (d # M' @ B)" using sp M(1) by (simp add: split_ok_def)
  have r: "Some (elm v) = (case d # M' @ B of [] \<Rightarrow> None | z # _ \<Rightarrow> Some (dom_id z))"
    using renders_id [OF M(2)] by simp
  obtain n y c where p: "create_kid N (Some (elm v)) (ns st) st = st\<lparr>kids := F @ n # (d # M' @ B), news := (news st)[ns st := Some y], counter := c\<rparr>"
    "renders n y" "unrendered y = N ! ns st" "ids_ok c (F @ n # (d # M' @ B))" "counter st \<le> c"
    using create_kid_mid [OF settingD(2) [OF set j] k ids r] by blast
  let ?st = "st\<lparr>kids := F @ n # (d # M' @ B), news := (news st)[ns st := Some y], counter := c\<rparr>\<lparr>ns := Suc (ns st)\<rparr>"
  have "split_ok N ?st (F @ [n]) M B"
    using sp M(1) shown_front [of F "ns st" "news st" N n y] j len p(2,3) l by (simp add: split_ok_def)
  moreover have "bounds_ok T N ?st" using b l by (auto simp: bounds_ok_def)
  moreover have "keys_inv T N ?st"
    using l no by (intro produce [OF key j, of ?st y]) (auto simp: finished_def)
  moreover have "c0 \<le> c" using i \<open>counter st \<le> c\<close> by (simp add: inv_def)
  ultimately show ?thesis using p(1,4) unfolding inv_def upd_ok_def by auto
qed

lemma round_found:
  assumes set: "setting pt T N" and i: "inv c0 T N st" and l: "os st < x" "x < oe st" "ns st < ne st"
    and v: "olds st ! os st = Some v" and u: "olds st ! x = Some u" and s: "keymap st = Some s"
    and same: "same_vnode (label u) (label (N ! ns st))"
  shows "\<exists>st1. Option.bind (patch_kid pt u N (ns st) st) (\<lambda>st2. move_kid u (Some (elm v)) (st2\<lparr>olds := (olds st2)[x := None]\<rparr>)) = Some st1
     \<and> inv c0 T N (st1\<lparr>ns := Suc (ns st)\<rparr>)"
proof -
  obtain F M B where b: "bounds_ok T N st" and sp: "split_ok N st F M B" and ids: "ids_ok (counter st) (kids st)"
    and key: "keys_inv T N st"
    using i by (auto simp: inv_def upd_ok_def)
  have j: "ns st < length N" and x: "x < length T" and xo: "x < length (olds st)" and len: "length (news st) = length N"
    using b l by (auto simp: bounds_ok_def)
  have uT: "u = T ! x" by (rule old_node [OF b x u])
  let ?W1 = "win (olds st) (Suc (os st)) x" let ?W2 = "win (olds st) (Suc x) (oe st)"
  have a: "win (olds st) (os st) x = v # ?W1" using win_first [OF l(1), of "olds st"] v by simp
  have w: "win (olds st) (os st) (oe st) = v # ?W1 @ u # ?W2" "win ((olds st)[x := None]) (os st) (oe st) = v # ?W1 @ ?W2"
    using win_hole [of "os st" x "oe st" "olds st" u] l xo u a by simp_all
  then obtain d X du Y where M: "M = d # X @ du # Y" "renders d v" "list_all2 renders X ?W1" "renders du u" "list_all2 renders Y ?W2"
    using sp by (auto simp: split_ok_def list_all2_append2 list_all2_Cons2)
  have k: "kids st = (F @ d # X) @ du # (Y @ B)" using sp M(1) by (simp add: split_ok_def)
  obtain d' y c where p: "patch_kid pt u N (ns st) st = Some (st\<lparr>kids := (F @ d # X) @ d' # (Y @ B), news := (news st)[ns st := Some y], counter := c\<rparr>)"
    "renders d' y" "unrendered y = N ! ns st" "dom_id d' = dom_id du" "elm y = elm u" "ids_ok c ((F @ d # X) @ d' # (Y @ B))" "counter st \<le> c"
    using patch_kid_mid [OF settingD(1) [OF set j] same settingD(3) [OF set x, folded uT] M(4) k ids] by blast
  have mv: "move_before (elm u) (Some (elm v)) ((F @ d # X) @ d' # (Y @ B)) = Some ((F @ [d']) @ (d # X @ Y) @ B)"
    using move_left [of F d X d' "Y @ B"] p(4,6) renders_id [OF M(2)] renders_id [OF M(4)] by (simp add: ids_ok_def)
  let ?st1 = "st\<lparr>kids := (F @ [d']) @ (d # X @ Y) @ B, news := (news st)[ns st := Some y], counter := c, olds := (olds st)[x := None]\<rparr>"
  let ?st = "?st1\<lparr>ns := Suc (ns st)\<rparr>"
  have "Option.bind (patch_kid pt u N (ns st) st) (\<lambda>st2. move_kid u (Some (elm v)) (st2\<lparr>olds := (olds st2)[x := None]\<rparr>)) = Some ?st1"
    using p(1) mv by (simp add: move_kid_def)
  moreover have "list_all2 renders (d # X @ Y) (win (olds ?st) (os ?st) (oe ?st))"
    using M(2,3,5) w(2) by (simp add: list_all2_appendI)
  then have "split_ok N ?st (F @ [d']) (d # X @ Y) B"
    using sp shown_front [of F "ns st" "news st" N d' y] j len p(2,3) l by (simp add: split_ok_def)
  moreover have "bounds_ok T N ?st" using b l by (auto simp: bounds_ok_def nth_list_update)
  moreover have "keys_inv T N ?st"
    using l u xo s by (intro consume [OF key settingD(4) [OF set] x _ j _ same [unfolded uT] p(5) [unfolded uT] len])
      (auto simp: gone_def finished_def nth_list_update)
  moreover have "ids_ok c (kids ?st)" using p(6) by (auto simp: ids_ok_def)
  moreover have "c0 \<le> c" using i \<open>counter st \<le> c\<close> by (simp add: inv_def)
  ultimately show ?thesis unfolding inv_def upd_ok_def by auto
qed

section \<open>The loop and what follows it\<close>

lemma inv_skip:
  assumes i: "inv c0 T N st" and l: "os st < oe st"
  shows "olds st ! os st = None \<Longrightarrow> inv c0 T N (st\<lparr>os := Suc (os st)\<rparr>)"
    and "olds st ! (oe st - 1) = None \<Longrightarrow> inv c0 T N (st\<lparr>oe := oe st - 1\<rparr>)"
proof -
  obtain F M B where b: "bounds_ok T N st" and sp: "split_ok N st F M B" and ids: "ids_ok (counter st) (kids st)"
    and key: "keys_inv T N st" and c: "c0 \<le> counter st"
    using i by (auto simp: inv_def upd_ok_def)
  {
    assume h: "olds st ! os st = None"
    have "split_ok N (st\<lparr>os := Suc (os st)\<rparr>) F M B"
      using sp win_first [OF l, of "olds st"] h by (simp add: split_ok_def)
    moreover have "keys_inv T N (st\<lparr>os := Suc (os st)\<rparr>)"
      by (rule keys_skip [OF key]) (use h in \<open>auto simp: gone_def less_Suc_eq\<close>)
    ultimately show "inv c0 T N (st\<lparr>os := Suc (os st)\<rparr>)"
      using b l ids c unfolding inv_def upd_ok_def by (auto simp: bounds_ok_def)
  next
    assume h: "olds st ! (oe st - 1) = None"
    have "split_ok N (st\<lparr>oe := oe st - 1\<rparr>) F M B"
      using sp win_last [OF l, of "olds st"] h by (simp add: split_ok_def)
    moreover have "gone (st\<lparr>oe := oe st - 1\<rparr>) x = gone st x" for x
    proof (cases "x = oe st - 1")
      case True
      then show ?thesis using h l by (simp add: gone_def)
    next
      case False
      then have "oe st - 1 \<le> x \<longleftrightarrow> oe st \<le> x" using l by linarith
      then show ?thesis by (simp add: gone_def)
    qed
    then have "keys_inv T N (st\<lparr>oe := oe st - 1\<rparr>)" by (intro keys_skip [OF key]) simp_all
    ultimately show "inv c0 T N (st\<lparr>oe := oe st - 1\<rparr>)"
      using b l ids c unfolding inv_def upd_ok_def by (auto simp: bounds_ok_def)
  }
qed

lemma place_start_ok:
  assumes set: "setting pt T N" and i: "inv c0 T N st" and l: "os st < oe st" "ns st < ne st"
    and v: "olds st ! os st = Some v" and nv: "\<not> same_vnode (label v) (label (N ! ns st))"
  shows "\<exists>st'. place_start pt N v st = Some st' \<and> inv c0 T N st'"
proof -
  have b: "bounds_ok T N st" and key: "keys_inv T N st" using i by (simp_all add: inv_def upd_ok_def)
  obtain s where s: "(case keymap st of Some s \<Rightarrow> Some s | None \<Rightarrow> key_map (olds st) (os st) (oe st)) = Some s"
    "keys_inv T N (st\<lparr>keymap := Some s\<rparr>)" by (rule with_keymap [OF key b])
  let ?st1 = "st\<lparr>keymap := Some s\<rparr>"
  have i1: "inv c0 T N ?st1"
  proof -
    have "split_ok N ?st1 = split_ok N st" by (simp add: fun_eq_iff split_ok_def)
    then show ?thesis using i s(2) unfolding inv_def upd_ok_def by (simp add: bounds_ok_def)
  qed
  have j: "ns st < length N" using b l by (simp add: bounds_ok_def)
  note hit = no_inherited [OF set j, of s]
  let ?y = "label (N ! ns st)"
  have create: "inv c0 T N ((create_kid N (Some (elm v)) (ns st) ?st1)\<lparr>ns := Suc (ns st)\<rparr>)"
    if "\<forall>x u. old_index ?y s ?st1 = Some x \<longrightarrow> olds st ! x = Some u \<longrightarrow> \<not> same_vnode (label u) ?y"
    using round_create [OF set i1, of v] lookup_misses [OF set i1, of s] that l v by simp
  show ?thesis
  proof (cases "old_index ?y s ?st1")
    case None
    then show ?thesis using create s(1) hit by (simp add: place_start_def Let_def)
  next
    case (Some x)
    have w: "(\<exists>u. olds st ! x = Some u) \<and> x < length T
        \<and> (\<forall>u. olds st ! x = Some u \<longrightarrow> same_vnode (label u) ?y \<longrightarrow> \<not> gone st x)"
      using lookup_in_window [OF set i1, of s x] Some l(2) by (simp add: gone_def)
    then obtain u where u: "olds st ! x = Some u" by blast
    show ?thesis
    proof (cases "same_vnode (label u) ?y")
      case False
      then show ?thesis using create s(1) hit Some u by (simp add: place_start_def Let_def)
    next
      case True
      then have "\<not> gone st x" using w u by blast
      moreover have "x \<noteq> os st" using True nv u v by auto
      ultimately have x: "os st < x" "x < oe st" by (auto simp: gone_def)
      have "\<exists>st2. Option.bind (patch_kid pt u N (ns st) ?st1) (\<lambda>st2. move_kid u (Some (elm v)) (st2\<lparr>olds := (olds st2)[x := None]\<rparr>)) = Some st2
          \<and> inv c0 T N (st2\<lparr>ns := Suc (ns st)\<rparr>)"
        using round_found [OF set i1, of x v u s] x l v u True by simp
      then show ?thesis using s(1) hit Some u True by (auto simp: place_start_def Let_def)
    qed
  qed
qed

lemma update_step_ok:
  assumes set: "setting pt T N" and i: "inv c0 T N st" and l: "os st < oe st" "ns st < ne st"
  shows "\<exists>st'. update_step pt N st = Some st' \<and> inv c0 T N st'"
proof (cases "olds st ! os st")
  case None
  then show ?thesis using inv_skip(1) [OF i l(1)] by (simp add: update_step_def)
next
  case v: (Some v)
  show ?thesis
  proof (cases "olds st ! (oe st - 1)")
    case None
    then show ?thesis using inv_skip(2) [OF i l(1)] v by (simp add: update_step_def)
  next
    case g: (Some g)
    let ?y = "label (N ! ns st)" let ?z = "label (N ! (ne st - 1))"
    consider "same_vnode (label v) ?y" | "\<not> same_vnode (label v) ?y" "same_vnode (label g) ?z"
      | "\<not> same_vnode (label v) ?y" "\<not> same_vnode (label g) ?z" "same_vnode (label v) ?z"
      | "\<not> same_vnode (label v) ?y" "\<not> same_vnode (label g) ?z" "\<not> same_vnode (label v) ?z" "same_vnode (label g) ?y"
      | "\<not> same_vnode (label v) ?y" "\<not> same_vnode (label g) ?z" "\<not> same_vnode (label v) ?z" "\<not> same_vnode (label g) ?y"
      by blast
    then show ?thesis
    proof cases
      case 1
      then show ?thesis using round_start [OF set i l v] v g by (auto simp: update_step_def Let_def)
    next
      case 2
      then show ?thesis using round_end [OF set i l g] v g by (auto simp: update_step_def Let_def)
    next
      case 3
      have "os st \<noteq> oe st - 1" using 3 v g by auto
      then have "os st < oe st - 1" using l by simp
      from round_right [OF set i this l(2) v g 3(3)] 3 v g show ?thesis by (auto simp: update_step_def Let_def)
    next
      case 4
      have "os st \<noteq> oe st - 1" using 4 v g by auto
      then have "os st < oe st - 1" using l by simp
      from round_left [OF set i this l(2) v g 4(4)] 4 v g show ?thesis by (auto simp: update_step_def Let_def)
    next
      case 5
      then show ?thesis using place_start_ok [OF set i l v] v g by (auto simp: update_step_def Let_def)
    qed
  qed
qed

lemma update_loop_ok:
  assumes "setting pt T N" and "inv c0 T N st"
  shows "\<exists>st'. update_loop pt N st = Some st' \<and> inv c0 T N st' \<and> (os st' = oe st' \<or> ns st' = ne st')"
  using assms(2)
proof (induction "todo_left st" arbitrary: st rule: less_induct)
  case less
  show ?case
  proof (cases "os st < oe st \<and> ns st < ne st")
    case True
    then obtain st1 where st1: "update_step pt N st = Some st1" "inv c0 T N st1"
      using update_step_ok [OF assms(1) less.prems] by blast
    then have "todo_left st1 < todo_left st" using update_step_less True by blast
    from less.hyps [OF this st1(2)] show ?thesis using True st1(1) by (simp add: update_loop.simps [of pt N st])
  next
    case False
    moreover have "os st \<le> oe st" "ns st \<le> ne st" using less.prems by (auto simp: inv_def upd_ok_def bounds_ok_def)
    ultimately have "os st = oe st \<or> ns st = ne st" by linarith
    then show ?thesis using False less.prems by (auto simp: update_loop.simps [of pt N st])
  qed
qed

lemma add_vnodes_ok:
  assumes set: "setting pt T N" and i: "inv c0 T N st" and e: "os st = oe st"
    and r: "r = (if ne st < length N then map_option elm (news st ! ne st) else None)" and p: "ns st \<le> p" "p \<le> ne st"
  shows "inv c0 T N ((add_vnodes N r (ns st) p st)\<lparr>ns := p\<rparr>) \<and> os (add_vnodes N r (ns st) p st) = oe (add_vnodes N r (ns st) p st)
     \<and> ne (add_vnodes N r (ns st) p st) = ne st \<and> drop (ne st) (news (add_vnodes N r (ns st) p st)) = drop (ne st) (news st)"
  using p
proof (induction p rule: dec_induct)
  case base
  then show ?case using i e by (simp add: add_vnodes_def)
next
  case (step p)
  let ?a = "add_vnodes N r (ns st) p st" let ?s = "?a\<lparr>ns := p\<rparr>"
  have ih: "inv c0 T N ?s" "os ?a = oe ?a" "ne ?a = ne st" "drop (ne st) (news ?a) = drop (ne st) (news st)"
    using step.IH step.prems by simp_all
  have next': "add_vnodes N r (ns st) (Suc p) st = create_kid N r p ?a" using step.hyps by (simp add: add_vnodes_def)
  obtain F M B where b: "bounds_ok T N ?s" and sp: "split_ok N ?s F M B" and ids: "ids_ok (counter ?s) (kids ?s)"
    and key: "keys_inv T N ?s" and c0: "c0 \<le> counter ?s"
    using ih(1) by (auto simp: inv_def upd_ok_def)
  have j: "p < length N" and len: "length (news ?a) = length N" using b step.prems ih(3) by (auto simp: bounds_ok_def)
  have "M = []" using sp ih(2) by (simp add: split_ok_def win_empty)
  then have k: "kids ?a = F @ B" using sp by (simp add: split_ok_def)
  have ids_a: "ids_ok (counter ?a) (kids ?a)" using ids by simp
  have rB: "r = (case B of [] \<Rightarrow> None | z # _ \<Rightarrow> Some (dom_id z))"
  proof (cases "ne st < length N")
    case True
    have d: "drop (ne st) (news ?a) = news st ! ne st # drop (Suc (ne st)) (news st)"
      using ih(4) True len Cons_nth_drop_Suc [of "ne st" "news st"] i by (simp add: inv_def upd_ok_def bounds_ok_def)
    obtain zs where z: "drop (ne st) (news ?a) = map Some zs" "list_all2 renders B zs"
      using sp ih(3) by (auto simp: split_ok_def shown_def)
    then obtain z zs' where zz: "zs = z # zs'" "news st ! ne st = Some z" using d by (cases zs) auto
    then obtain b' B' where "B = b' # B'" "renders b' z" using z(2) by (auto simp: list_all2_Cons2)
    then show ?thesis using r True zz(2) renders_id by simp
  next
    case False
    then have "B = []" using sp ih(3) by (auto simp: split_ok_def shown_def)
    then show ?thesis using r False by simp
  qed
  obtain n y c where cr: "create_kid N r p ?a = ?a\<lparr>kids := F @ n # B, news := (news ?a)[p := Some y], counter := c\<rparr>"
    and q: "renders n y" "unrendered y = N ! p" "ids_ok c (F @ n # B)" "counter ?a \<le> c"
    using create_kid_mid [OF settingD(2) [OF set j] k ids_a rB] by blast
  let ?t = "?a\<lparr>kids := F @ n # B, news := (news ?a)[p := Some y], counter := c\<rparr>\<lparr>ns := Suc p\<rparr>"
  have "split_ok N ?t (F @ [n]) [] B"
    using sp shown_front [of F p "news ?a" N n y] j len q(1,2) ih step.prems by (simp add: split_ok_def win_empty)
  moreover have "bounds_ok T N ?t" using b step.prems ih(3) by (simp add: bounds_ok_def)
  moreover have "keys_inv T N ?t"
  proof (rule produce [OF key j, of ?t y])
    have g: "gone ?s x" for x using ih(2) by (auto simp: gone_def)
    have nf: "\<not> finished ?s p" using step.prems ih(3) by (simp add: finished_def)
    then show "\<not> finished ?s p" .
    show "\<not> same_vnode (label (T ! x)) (label (N ! p))" if "x < length T" "lb_key (label (N ! p)) \<noteq> None" for x
    proof
      assume "same_vnode (label (T ! x)) (label (N ! p))"
      then have "lb_key (label (T ! x)) = lb_key (label (N ! p))" by (rule same_key)
      then show False using unused_key [OF key settingD(5) [OF set] j nf that(1) g] that(2) by auto
    qed
    show "finished ?t x \<longleftrightarrow> finished ?s x \<or> x = p" for x by (auto simp: finished_def)
  qed simp_all
  moreover have "ids_ok (counter ?t) (kids ?t)" using q(3) by simp
  moreover have "c0 \<le> counter ?t" using q(4) c0 by simp
  ultimately have "inv c0 T N ?t" unfolding inv_def upd_ok_def by blast
  then show ?case unfolding next' cr using ih step.prems by simp
qed

lemma remove_vnodes_win:
  assumes "h \<le> m"
  shows "remove_vnodes h m st = st\<lparr>kids := filter (\<lambda>k. dom_id k \<notin> elm ` set (win (olds st) h m)) (kids st)\<rparr>"
  using assms
proof (induction m rule: dec_induct)
  case base
  then show ?case by (simp add: remove_vnodes_def win_empty)
next
  case (step m)
  have w: "win (olds st) h (Suc m) = win (olds st) h m @ (case olds st ! m of None \<Rightarrow> [] | Some x \<Rightarrow> [x])"
    using win_split [of h m "Suc m" "olds st"] win_one [of "olds st" m] step.hyps by simp
  have "remove_vnodes h (Suc m) st = (let st' = remove_vnodes h m st in
      case olds st' ! m of None \<Rightarrow> st' | Some v \<Rightarrow> st'\<lparr>kids := remove_child (elm v) (kids st')\<rparr>)"
    using step.hyps by (simp add: remove_vnodes_def Let_def)
  then show ?case
    unfolding step.IH w by (cases "olds st ! m") (simp_all add: remove_child_def Let_def conj_commute)
qed

text \<open>Keyed nodes keep their document node.\<close>

definition reused :: "nat vnode list \<Rightarrow> nat vnode list \<Rightarrow> bool" where
  "reused T ys \<longleftrightarrow>
     (\<forall>t \<in> set T. \<forall>y \<in> set ys. lb_key (label y) \<noteq> None \<longrightarrow> same_vnode (label t) (label y) \<longrightarrow> elm y = elm t)"

lemma all_shown:
  assumes "shown F (take n xs) (take n N)" and "shown B (drop n xs) (drop n N)"
  shows "\<exists>ys. xs = map Some ys \<and> map unrendered ys = N \<and> list_all2 renders (F @ B) ys"
proof -
  obtain ys zs where "take n xs = map Some ys" "map unrendered ys = take n N" "list_all2 renders F ys"
    "drop n xs = map Some zs" "map unrendered zs = drop n N" "list_all2 renders B zs"
    using assms by (auto simp: shown_def)
  then have "take n xs @ drop n xs = map Some (ys @ zs)" "map unrendered (ys @ zs) = take n N @ drop n N"
    "list_all2 renders (F @ B) (ys @ zs)"
    by (simp_all add: list_all2_appendI)
  then show ?thesis unfolding append_take_drop_id by blast
qed

lemma reused_all:
  assumes key: "keys_inv T N st" and e: "ns st = ne st" and ys: "news st = map Some ys" "map unrendered ys = N"
  shows "reused T ys"
  unfolding reused_def
proof (intro ballI impI)
  fix t y
  assume "t \<in> set T" "y \<in> set ys" and k: "lb_key (label y) \<noteq> None" and s: "same_vnode (label t) (label y)"
  then obtain i j where i: "i < length T" "t = T ! i" and j: "j < length ys" "y = ys ! j" by (metis in_set_conv_nth)
  have n: "j < length N" "label (N ! j) = label y" using ys(2) j by auto
  have "finished st j" using e by (auto simp: finished_def)
  then obtain y' where "news st ! j = Some y'" "elm y' = elm (T ! i)"
    using key n i(1) k s unfolding keys_inv_def i(2) by metis
  then show "elm y = elm t" using ys(1) j i(2) by simp
qed

lemma finish_update_ok:
  assumes set: "setting pt T N" and i: "inv c0 T N st" and e: "os st = oe st \<or> ns st = ne st"
  defines "st' \<equiv> finish_update N st"
  shows "\<exists>ys. news st' = map Some ys \<and> map unrendered ys = N \<and> list_all2 renders (kids st') ys
    \<and> ids_ok (counter st') (kids st') \<and> c0 \<le> counter st' \<and> reused T ys"
proof (cases "os st = oe st")
  case True
  let ?r = "if ne st < length N then map_option elm (news st ! ne st) else None"
  have "ns st \<le> ne st" using i by (simp add: inv_def upd_ok_def bounds_ok_def)
  from add_vnodes_ok [OF set i True refl this order_refl]
  have a: "inv c0 T N (st'\<lparr>ns := ne st\<rparr>)" "os st' = oe st'" "ne st' = ne st"
    using True by (simp_all add: st'_def finish_update_def)
  let ?s = "st'\<lparr>ns := ne st\<rparr>"
  obtain F M B where sp: "split_ok N ?s F M B" and ids: "ids_ok (counter ?s) (kids ?s)" and key: "keys_inv T N ?s"
    and c0: "c0 \<le> counter ?s"
    using a(1) unfolding inv_def upd_ok_def by blast
  have M: "M = []" using sp a(2) by (simp add: split_ok_def win_empty)
  then have k: "kids st' = F @ B" using sp by (simp add: split_ok_def)
  obtain ys where "news st' = map Some ys" "map unrendered ys = N" "list_all2 renders (F @ B) ys"
    using all_shown [of F "ne st" "news st'" N B] sp a(3) by (auto simp: split_ok_def)
  then show ?thesis using k ids c0 reused_all [OF key] a(3) by auto
next
  case False
  then have en: "ns st = ne st" and lt: "os st < oe st" using e i by (auto simp: inv_def upd_ok_def bounds_ok_def)
  have st': "st' = remove_vnodes (os st) (oe st) st" using False en lt by (simp add: st'_def finish_update_def)
  let ?W = "win (olds st) (os st) (oe st)"
  have rm: "st' = st\<lparr>kids := filter (\<lambda>k. dom_id k \<notin> elm ` set ?W) (kids st)\<rparr>"
    unfolding st' using remove_vnodes_win [of "os st" "oe st" st] lt by simp
  obtain F M B where sp: "split_ok N st F M B" and ids: "ids_ok (counter st) (kids st)" and key: "keys_inv T N st"
    and c0: "c0 \<le> counter st"
    using i unfolding inv_def upd_ok_def by blast
  have M: "list_all2 renders M ?W" and k: "kids st = F @ M @ B" using sp by (simp_all add: split_ok_def)
  have eW: "map elm ?W = map dom_id M"
    using M by (induction rule: list_all2_induct) (auto dest: renders_id)
  have eq: "elm ` set ?W = dom_id ` set M" using arg_cong [OF eW, of set] by simp
  have dist: "distinct (map dom_id (F @ M @ B))" using ids k by (simp add: ids_ok_def)
  have keep: "filter (\<lambda>k. dom_id k \<notin> dom_id ` set M) Z = Z" if "dom_id ` set Z \<inter> dom_id ` set M = {}" for Z
    unfolding filter_id_conv using that by blast
  have gone': "filter (\<lambda>k. dom_id k \<notin> dom_id ` set M) M = []" by (simp add: filter_empty_conv)
  have "dom_id ` set F \<inter> dom_id ` set M = {}" "dom_id ` set B \<inter> dom_id ` set M = {}" using dist by auto
  then have "kids st' = F @ B" unfolding rm eq k by (simp add: keep gone')
  moreover obtain ys where ys: "news st = map Some ys" "map unrendered ys = N" "list_all2 renders (F @ B) ys"
    using all_shown [of F "ne st" "news st" N B] sp en by (auto simp: split_ok_def)
  moreover have "ids_ok (counter st) (F @ B)" using ids k by (auto simp: ids_ok_def)
  moreover have "news st' = news st" "counter st' = counter st" by (simp_all add: rm)
  ultimately show ?thesis using c0 reused_all [OF key en ys(1,2)] by auto
qed

lemma those_map_Some [simp]: "those (map Some xs) = Some xs"
  by (induction xs) auto

text \<open>\<open>updateChildren\<close>: nothing throws, the children render the new nodes in order, and keyed nodes
  are reused.\<close>

lemma update_children_ok:
  assumes set: "setting pt T N" and r: "list_all2 renders ks T" and ids: "ids_ok c ks"
  shows "\<exists>ks' ys c'. update_children pt T N ks c = Some (ks', ys, c') \<and> list_all2 renders ks' ys
    \<and> map unrendered ys = N \<and> ids_ok c' ks' \<and> c \<le> c' \<and> reused T ys"
proof -
  let ?s = "start_update T N ks c"
  have w: "win (map Some T) 0 (length T) = T"
  proof -
    have "map ((!) (map Some T)) [0..<length T] = map Some T" by (rule nth_equalityI) simp_all
    moreover have "somes (map Some xs) = xs" for xs :: "nat vnode list" by (induction xs) auto
    ultimately show ?thesis by (simp add: win_def)
  qed
  have "split_ok N ?s [] ks []" using r w by (simp add: split_ok_def start_update_def)
  moreover have "bounds_ok T N ?s" by (simp add: bounds_ok_def start_update_def)
  moreover have "keys_inv T N ?s" by (simp add: keys_inv_def start_update_def gone_def finished_def)
  moreover have "ids_ok (counter ?s) (kids ?s)" "c \<le> counter ?s" using ids by (simp_all add: start_update_def)
  ultimately have "inv c T N ?s" unfolding inv_def upd_ok_def by blast
  from update_loop_ok [OF set this] obtain st where st: "update_loop pt N ?s = Some st" "inv c T N st"
    "os st = oe st \<or> ns st = ne st" by blast
  from finish_update_ok [OF set st(2,3)] st(1) show ?thesis
    unfolding update_children_def Let_def by auto
qed

end
