(* ===== verification/VueRender.thy ===== *)
theory VueRender
  imports VueChildren
begin

text \<open>
  The correctness of the whole patch (\<open>VuePatch\<close>): \<open>patchVnode\<close> on texts, comments and elements, by
  induction on the fuel, and the patch of a root among its siblings.
\<close>

section \<open>The whole patch\<close>

lemma update_dom_shows:
  assumes "renders (Element i tag es ks) (VNode e lb cs)" and "wf_label lb' leaf" and "lb_data lb = None \<longleftrightarrow> lb_data lb' = None"
  obtains es' where
    "(if lb_data lb' \<noteq> None \<and> lb_tag lb' \<noteq> None then update_dom lb lb' (Element i tag es ks) else Element i tag es ks) = Element i tag es' ks"
    "lb_tag lb' = Some tag \<Longrightarrow> shows_attrs tag (attrs_of lb') es'"
proof -
  have s: "shows_attrs tag (attrs_of lb) es" using assms(1) by (cases cs) auto
  have d: "distinct (okeys (attrs_of lb'))" using assms(2) by (simp add: wf_label_def)
  show thesis
  proof (cases "lb_data lb' \<noteq> None \<and> lb_tag lb' \<noteq> None \<and> \<not> (lb_data lb = Some None \<and> lb_data lb' = Some None)")
    case True
    then show thesis
      using that [of "update_attrs tag (attrs_of lb) (attrs_of lb') es"] update_attrs_shows [OF s d] by (auto simp: update_dom_def)
  next
    case False
    have "lb_tag lb' = Some tag \<Longrightarrow> attrs_of lb' = attrs_of lb"
      using False assms(3) by (auto simp: attrs_of_def split: option.splits)
    then show thesis using that [of es] s False by (auto simp: update_dom_def)
  qed
qed

lemma height_child: "c \<in> set cs \<Longrightarrow> height c \<le> foldr (\<lambda>c h. max (height c) h) cs 0"
  by (induction cs) (auto simp: max_def)

lemma remove_all:
  assumes "list_all2 renders ks cs"
  shows "fold (\<lambda>o'. remove_child (elm o')) cs ks = []"
proof -
  have f: "fold (\<lambda>o'. remove_child (elm o')) vs zs = filter (\<lambda>k. dom_id k \<notin> elm ` set vs) zs" for vs :: "nat vnode list" and zs
    by (induction vs arbitrary: zs) (auto simp: remove_child_def conj_commute)
  have "map elm cs = map dom_id ks" using assms by (induction rule: list_all2_induct) (auto dest: renders_id)
  then have "elm ` set cs = dom_id ` set ks" by (metis image_set)
  then show ?thesis by (auto simp: f filter_empty_conv)
qed

text \<open>A text or a comment: only its text is written.\<close>

lemma patch_leaf:
  assumes y: "wf_vnode y" and same: "same_vnode (label v) (label y)" and r: "renders d v" and s: "sound c d"
    and leaf: "lb_tag (label y) = None"
  shows "\<exists>d'. patch_vnode (Suc f) v y d c = Some (d', VNode (elm v) (label y) None, c)
    \<and> renders d' (VNode (elm v) (label y) None) \<and> children y = None \<and> dom_id d' = dom_id d \<and> sound c d'"
proof -
  obtain e lb cs where v: "v = VNode e lb cs" by (cases v)
  obtain u lb' cs' where yy: "y = VNode u lb' cs'" by (cases y)
  have c: "children y = None" and "lb_data lb' = None" and "lb_text lb' \<noteq> None"
    using y leaf unfolding yy by (cases cs'; auto simp: wf_label_def)+
  then obtain t where t: "lb_text lb' = Some t" "lb_data lb' = None" by blast
  show ?thesis
    using same r s leaf t c by (cases d; cases cs) (auto simp: v yy same_vnode_def set_text_content_def Let_def)
qed

text \<open>An element: its attributes are updated, then its children are patched, created or removed.\<close>

lemma patch_element:
  assumes y: "wf_vnode y" and v: "wf_vnode v" and same: "same_vnode (label v) (label y)" and r: "renders d v"
    and s: "sound c d" and tag: "lb_tag (label y) = Some tag"
    and sub: "\<And>m. children y = Some m \<Longrightarrow> list_all (pt_ok (patch_vnode f)) m"
  shows "\<exists>d' y' c'. patch_vnode (Suc f) v y d c = Some (d', y', c') \<and> renders d' y' \<and> unrendered y' = y
    \<and> dom_id d' = dom_id d \<and> c \<le> c' \<and> sound c' d'"
proof -
  obtain e lb cs where vv: "v = VNode e lb cs" by (cases v)
  obtain u lb' cs' where yy: "y = VNode u lb' cs'" by (cases y)
  have lb: "lb_tag lb = Some tag" "lb_data lb = None \<longleftrightarrow> lb_data lb' = None" "lb_tag lb' = Some tag"
    using same tag by (simp_all add: vv yy same_vnode_def)
  obtain i es ks where d: "d = Element i tag es ks" using r lb by (cases d; cases cs) (auto simp: vv)
  have wf': "\<exists>leaf. wf_label lb' leaf" using y unfolding yy by (cases cs') auto
  have wf: "\<exists>leaf. wf_label lb leaf" using v unfolding vv by (cases cs) auto
  have nt: "lb_text lb = None" "lb_text lb' = None" using wf wf' lb by (auto simp: wf_label_def)
  obtain es' where u1: "(if lb_data lb' \<noteq> None \<and> lb_tag lb' \<noteq> None then update_dom lb lb' d else d) = Element i tag es' ks"
    and sh: "shows_attrs tag (attrs_of lb') es'"
    using update_dom_shows [of i tag es ks e lb cs lb'] r wf' lb d vv by metis
  have ie: "i = e" and ks: "list_all2 renders ks (case cs of None \<Rightarrow> [] | Some p \<Rightarrow> p)"
    using r by (cases cs; simp add: d vv)+
  have ids: "i < c" "ids_ok c ks" using s by (simp_all add: d ids_ok_def)
  show ?thesis
  proof (cases cs')
    case None
    then have "patch_vnode (Suc f) v y d c = Some (Element i tag es' [], VNode e lb' None, c)"
      using u1 nt remove_all ks by (cases cs) (simp_all add: vv yy)
    then show ?thesis using None sh lb ids ie by (simp add: d yy)
  next
    case (Some m)
    have m: "list_all wf_vnode m" "keys_ok m" using y Some by (simp_all add: yy)
    show ?thesis
    proof (cases cs)
      case None
      obtain ds ys c3 where cr: "create_list c m = (ds, ys, c3)" by (rule prod_cases3)
      have "ks = []" using ks None by simp
      then have "patch_vnode (Suc f) v y d c = Some (Element i tag es' ds, VNode e lb' (Some ys), c3)"
        using u1 nt None Some cr by (simp add: vv yy)
      then show ?thesis using create_spec(2) [OF m(1) cr] sh lb ids ie Some by (simp add: d yy)
    next
      case (Some p)
      have "setting (patch_vnode f) p m"
        using sub m v \<open>cs' = Some m\<close> Some by (simp add: setting_def vv yy keys_ok_def)
      from update_children_ok [OF this _ ids(2)] ks Some
      obtain ks' ys c' where up: "update_children (patch_vnode f) p m ks c = Some (ks', ys, c')"
        "list_all2 renders ks' ys" "map unrendered ys = m" "ids_ok c' ks'" "c \<le> c'" by auto
      then have "patch_vnode (Suc f) v y d c = Some (Element i tag es' ks', VNode e lb' (Some ys), c')"
        using u1 nt Some \<open>cs' = Some m\<close> by (simp add: vv yy)
      then show ?thesis using up sh lb ids ie \<open>cs' = Some m\<close> by (simp add: d yy ids_ok_def)
    qed
  qed
qed

text \<open>Fuel up to the height of the new tree suffices.\<close>

lemma patch_vnode_ok: "height y \<le> f \<Longrightarrow> wf_vnode y \<Longrightarrow> pt_ok (patch_vnode f) y"
proof (induction f arbitrary: y)
  case 0
  then show ?case by (cases y rule: height.cases) auto
next
  case (Suc f)
  have sub: "list_all (pt_ok (patch_vnode f)) m" if m: "children y = Some m" for m
  proof -
    obtain u lb where y: "y = VNode u lb (Some m)" using m by (cases y) auto
    have "pt_ok (patch_vnode f) c" if c: "c \<in> set m" for c
      using Suc.IH [of c] height_child [OF c] Suc.prems c by (auto simp: y list_all_iff)
    then show ?thesis by (simp add: list_all_iff)
  qed
  show ?case
    unfolding pt_ok_def
  proof (intro allI impI)
    fix v d c
    assume a: "same_vnode (label v) (label y)" "wf_vnode v" "renders d v" "sound c d"
    show "\<exists>d' y' c'. patch_vnode (Suc f) v y d c = Some (d', y', c') \<and> renders d' y' \<and> unrendered y' = y
        \<and> dom_id d' = dom_id d \<and> c \<le> c' \<and> sound c' d'"
    proof (cases "lb_tag (label y)")
      case None
      from patch_leaf [OF Suc.prems(2) a(1,3,4) None] obtain d' where
        "patch_vnode (Suc f) v y d c = Some (d', VNode (elm v) (label y) None, c)"
        "renders d' (VNode (elm v) (label y) None)" "children y = None" "dom_id d' = dom_id d" "sound c d'"
        by blast
      then show ?thesis by (cases y) auto
    next
      case (Some tag)
      from patch_element [OF Suc.prems(2) a(2,1,3,4) Some sub] show ?thesis .
    qed
  qed
qed

section \<open>A root among its siblings\<close>

lemma same_vnode_refl [simp]: "same_vnode lb lb"
  by (simp add: same_vnode_def same_input_def)

lemma patch_in_place:
  assumes "same_vnode (label v) (label y)" and "wf_vnode v" and "wf_vnode y" and r: "renders d v" and i: "ids_ok c (X @ d # Y)"
  shows "\<exists>d' y' c'. patch_root v y (X @ d # Y) c = Some (X @ d' # Y, y', c') \<and> renders d' y' \<and> unrendered y' = y
    \<and> dom_id d' = dom_id d \<and> c \<le> c' \<and> ids_ok c' (X @ d' # Y)"
proof -
  have "sound c d" and dist: "distinct (map dom_id (X @ d # Y))" using i by (simp_all add: ids_ok_def)
  with patch_vnode_ok [OF order_refl assms(3)] assms(1,2) r obtain d' y' c' where
    p: "patch_vnode (height y) v y d c = Some (d', y', c')" "renders d' y'" "unrendered y' = y" "dom_id d' = dom_id d"
       "c \<le> c'" "sound c' d'"
    unfolding pt_ok_def by blast
  have "ids_ok c' (X @ d' # Y)" using i p sound_mono [of c _ c'] by (auto simp: ids_ok_def list_all_iff)
  moreover have "patch_root v y (X @ d # Y) c = Some (X @ d' # Y, y', c')"
    using assms(1) p(1) node_at_mid [OF dist] replace_mid [OF dist, of d'] renders_id [OF r] by (simp add: patch_root_def)
  ultimately show ?thesis using p by blast
qed

lemma replace_root_ok:
  assumes "wf_vnode y" and i: "ids_ok c (X @ d # Y)"
  shows "\<exists>d' y' c'. replace_root (dom_id d) y (X @ d # Y) c = (X @ d' # Y, y', c') \<and> renders d' y' \<and> unrendered y' = y
    \<and> c < c' \<and> ids_ok c' (X @ d' # Y)"
proof -
  obtain d' y' c' where e: "create_elm c y = (d', y', c')" by (rule prod_cases3)
  from create_spec(1) [OF assms(1) e]
  have n: "renders d' y'" "unrendered y' = y" "dom_id d' = c" "c < c'" "sound c' d'" by simp_all
  have dist: "distinct (map dom_id (X @ d # Y))" using i by (simp add: ids_ok_def)
  have old: "\<forall>k \<in> set (X @ d # Y). dom_id k < c \<and> sound c' k"
    using i n(4) sound_id [of c] sound_mono [of c _ c'] unfolding ids_ok_def list_all_iff by fastforce
  have ins: "insert_new d' (next_sibling (dom_id d) (X @ d # Y)) (X @ d # Y) = X @ d # d' # Y"
  proof (cases Y)
    case Nil
    then show ?thesis using next_sibling_mid [OF dist] by (simp add: insert_new_def)
  next
    case (Cons z Z)
    then have "put_before d' (dom_id z) ((X @ [d]) @ z # Z) = (X @ [d]) @ d' # z # Z"
      using dist by (intro put_before_mid) auto
    then show ?thesis using Cons next_sibling_mid [OF dist] by (simp add: insert_new_def)
  qed
  have d': "dom_id d' \<noteq> dom_id d" "dom_id d' \<notin> dom_id ` set (X @ Y)" using old n(3) by auto
  then have "distinct (map dom_id (X @ d # d' # Y))" using dist by auto
  from filter_mid [OF this] have "remove_child (dom_id d) (X @ d # d' # Y) = X @ d' # Y" by (simp add: remove_child_def)
  then have "replace_root (dom_id d) y (X @ d # Y) c = (X @ d' # Y, y', c')"
    by (simp add: replace_root_def e ins)
  moreover have "ids_ok c' (X @ d' # Y)"
    using old n(5) d'(2) dist by (auto simp: ids_ok_def list_all_iff)
  ultimately show ?thesis using n by blast
qed

lemma patch_root_ok:
  assumes "wf_vnode v" and "wf_vnode y" and "renders d v" and "ids_ok c (X @ d # Y)"
  shows "\<exists>d' y' c'. patch_root v y (X @ d # Y) c = Some (X @ d' # Y, y', c') \<and> renders d' y' \<and> unrendered y' = y
    \<and> ids_ok c' (X @ d' # Y)"
proof (cases "same_vnode (label v) (label y)")
  case True
  from patch_in_place [OF this assms] show ?thesis by blast
next
  case False
  from replace_root_ok [OF assms(2,4)] renders_id [OF assms(3)] False show ?thesis by (auto simp: patch_root_def)
qed

section \<open>The updates of a component\<close>

text \<open>The element of the component stands between \<open>X\<close> and \<open>Y\<close> and renders what was rendered last.\<close>

definition view_ok :: "dom list \<Rightarrow> dom list \<Rightarrow> unit vnode option \<Rightarrow> view \<Rightarrow> bool" where
  "view_ok X Y y vw \<longleftrightarrow>
     (\<exists>d. siblings vw = X @ d # Y \<and> el vw = dom_id d \<and> ids_ok (next_node vw) (X @ d # Y)
        \<and> map_option unrendered (vnode_of vw) = y
        \<and> (\<forall>v. vnode_of vw = Some v \<longrightarrow> wf_vnode v \<and> renders d v))"

lemma vue_update_ok:
  assumes "view_ok X Y y0 vw" and "wf_vnode y"
  shows "\<exists>vw'. vue_update y vw = Some vw' \<and> view_ok X Y (Some y) vw'"
proof -
  obtain d where d: "siblings vw = X @ d # Y" "el vw = dom_id d" "ids_ok (next_node vw) (X @ d # Y)"
    "\<forall>v. vnode_of vw = Some v \<longrightarrow> wf_vnode v \<and> renders d v"
    using assms(1) by (auto simp: view_ok_def)
  have wf: "wf_vnode y'" if "unrendered y' = y" for y' :: "nat vnode"
    using assms(2) that wf_vnode_map [of "\<lambda>_. ()" y'] by simp
  show ?thesis
  proof (cases "vnode_of vw")
    case None
    from replace_root_ok [OF assms(2) d(3)] obtain d' y' c' where
      r: "replace_root (dom_id d) y (X @ d # Y) (next_node vw) = (X @ d' # Y, y', c')" "renders d' y'" "unrendered y' = y"
        "ids_ok c' (X @ d' # Y)" by blast
    then show ?thesis using None d wf renders_id [OF r(2)] by (simp add: vue_update_def view_ok_def)
  next
    case (Some v)
    from patch_root_ok [OF _ assms(2) _ d(3)] d(4) Some obtain d' y' c' where
      r: "patch_root v y (X @ d # Y) (next_node vw) = Some (X @ d' # Y, y', c')" "renders d' y'" "unrendered y' = y"
        "ids_ok c' (X @ d' # Y)" by blast
    then show ?thesis using Some d wf renders_id [OF r(2)] by (simp add: vue_update_def view_ok_def)
  qed
qed

lemma vue_updates_ok:
  assumes "view_ok X Y y0 vw" and "list_all wf_vnode ys"
  shows "\<exists>vw'. vue_updates ys vw = Some vw' \<and> view_ok X Y (if ys = [] then y0 else Some (last ys)) vw'"
  using assms
proof (induction ys arbitrary: y0 vw)
  case Nil
  then show ?case by simp
next
  case (Cons y ys)
  from vue_update_ok [OF Cons.prems(1)] Cons.prems(2) obtain vw1 where
    u: "vue_update y vw = Some vw1" "view_ok X Y (Some y) vw1" by auto
  from Cons.IH [OF u(2)] Cons.prems(2) u(1) show ?case by auto
qed

section \<open>Keyed children\<close>

text \<open>An old child with a key keeps its document node when the new children have one of its key that
  it may be patched to.\<close>

lemma patch_reuses:
  assumes "wf_vnode v" and "wf_vnode y" and same: "same_vnode (label v) (label y)" and r: "renders d v" and s: "sound c d"
    and p: "children v = Some p" and m: "children y = Some m"
  shows "\<exists>d' y' c' ys. patch_vnode (height y) v y d c = Some (d', y', c') \<and> children y' = Some ys \<and> reused p ys"
proof -
  obtain e lb where v: "v = VNode e lb (Some p)" using p by (cases v) auto
  obtain u lb' where y: "y = VNode u lb' (Some m)" using m by (cases y) auto
  let ?f = "foldr (\<lambda>c h. max (height c) h) m 0"
  have tag: "lb_tag lb \<noteq> None" "lb_text lb' = None" using assms(1,2) by (auto simp: v y wf_label_def split: option.splits)
  then obtain i tg es ks where d: "d = Element i tg es ks" using r by (cases d) (auto simp: v)
  have "pt_ok (patch_vnode ?f) c" if "c \<in> set m" for c
    using patch_vnode_ok [of c ?f] height_child [OF that] assms(2) that by (auto simp: y list_all_iff)
  then have "setting (patch_vnode ?f) p m" using assms(1,2) by (simp add: setting_def v y keys_ok_def list_all_iff)
  moreover have "list_all2 renders ks p" "ids_ok c ks" using r s by (simp_all add: d v ids_ok_def)
  ultimately obtain ks' ys c' where "update_children (patch_vnode ?f) p m ks c = Some (ks', ys, c')" "reused p ys"
    using update_children_ok by blast
  moreover have "child_nodes (if lb_data lb' \<noteq> None \<and> lb_tag lb' \<noteq> None then update_dom lb lb' d else d) = ks"
    by (simp add: d update_dom_def)
  ultimately show ?thesis using tag(2) by (simp add: v y Let_def)
qed

text \<open>A new child whose key is the name of an inherited property is an exception of the code when it
  reaches the look-up.\<close>

lemma child_key: "t \<in> set p \<Longrightarrow> lb_key (label t) = Some k \<Longrightarrow> key_string k \<in> set (child_keys p)"
  by (induction p) (auto simp: child_keys_def)

lemma keys_not_inherited:
  assumes "set (child_keys p) \<inter> set inherited_names = {}" and "k \<in> set inherited_names"
    and "\<forall>i \<in> set is. i < length p"
  shows "oget (fold (\<lambda>i s. case lb_key (label (the (map Some p ! i))) of None \<Rightarrow> s | Some k \<Rightarrow> oset (key_string k) i s) is s) k = oget s k"
  using assms(3)
proof (induction "is" arbitrary: s)
  case Nil
  then show ?case by simp
next
  case (Cons i js)
  have "key_string k' \<noteq> k" if "lb_key (label (p ! i)) = Some k'" for k'
  proof -
    have "key_string k' \<in> set (child_keys p)" using Cons.prems that by (intro child_key [of "p ! i"]) auto
    then show ?thesis using assms(1,2) by blast
  qed
  then show ?case using Cons by (auto simp: obj_simps split: option.split)
qed

lemma inherited_key_throws_step:
  assumes p: "p \<noteq> []" "set (child_keys p) \<inter> set inherited_names = {}"
    and k: "lb_key (label x) = Some k" "key_string k \<in> set inherited_names"
  shows "update_children pt p [x] ks c = None"
proof -
  let ?st = "start_update p [x] ks c"
  have no: "\<not> same_vnode (label t) (label x)" if "t \<in> set p" for t
  proof
    assume "same_vnode (label t) (label x)"
    then have "lb_key (label t) = Some k" using k(1) by (simp add: same_vnode_def)
    then have "key_string k \<in> set (child_keys p)" using child_key [OF that] by simp
    then show False using p(2) k(2) by blast
  qed
  have e: "map Some p ! 0 = Some (p ! 0)" "map Some p ! (length p - 1) = Some (p ! (length p - 1))" "p ! 0 \<in> set p"
    "p ! (length p - 1) \<in> set p"
    using p(1) by simp_all
  obtain s where s: "key_map (map Some p) 0 (length p) = Some s" "oget s (key_string k) = None"
    using keys_not_inherited [OF p(2) k(2), of "[0..<length p]" "[]"] by (simp add: key_map_def list_all_iff)
  have "place_start pt [x] (p ! 0) ?st = None"
    using s k by (simp add: place_start_def start_update_def Let_def inherited_hit_def)
  then have "update_step pt [x] ?st = None"
    using no [OF e(3)] no [OF e(4)] e(1,2) by (simp add: update_step_def start_update_def Let_def)
  then have "update_loop pt [x] ?st = None"
    using p(1) by (subst update_loop.simps) (simp add: start_update_def)
  then show ?thesis by (simp add: update_children_def)
qed

end
