(* ===== verification/VueReactive.thy ===== *)
theory VueReactive
  imports Prelude
begin

text \<open>
  Reactive data of Vue 2.6 (\<open>chunk-vendors.ddcb6f91.js\<close>, module \<open>2b0e\<close>): \<open>Dep\<close> (\<open>me\<close>) and its stack of
  targets (\<open>ge\<close>, \<open>be\<close>), the getters and setters of \<open>Ne\<close>, \<open>Watcher\<close> (\<open>ni\<close>), the scheduler (\<open>ei\<close>, \<open>Xn\<close>,
  \<open>Un\<close>) and \<open>nextTick\<close> (\<open>pt\<close>, \<open>ct\<close>). The watchers are those of render functions and of \<open>watch\<close>: they are
  queued when something they have read changes; lazy and synchronous ones, deep ones and
  the hooks after a flush are not modelled; \<open>VueObserver\<close> has the dependencies of nested objects and arrays.
  \<open>VueFlush\<close> holds the proofs.
\<close>

section \<open>State\<close>

text \<open>A value; an object by its identity.\<close>

datatype vval = VUndefined | VNum int | VText string | VRef nat

fun is_ref :: "vval \<Rightarrow> bool" where
  "is_ref (VRef i) = True"
| "is_ref _ = False"

text \<open>A getter reads properties, each named by the number of its \<open>Dep\<close>, and gives a value. A callback
  gets the data, the new value and the old one, and writes properties.\<close>

datatype 'a reader = Give 'a | Read nat "vval \<Rightarrow> 'a reader"

type_synonym data = "nat \<Rightarrow> vval"
type_synonym writes = "(nat \<times> vval) list"

record watcher =
  getter :: "vval reader"
  cb :: "data \<Rightarrow> vval \<Rightarrow> vval \<Rightarrow> writes"
  value_of :: vval
  is_active :: bool
  deps :: "nat list"
  new_deps :: "nat list"
  dep_ids :: "nat set"
  new_dep_ids :: "nat set"

text \<open>What is passed to \<open>nextTick\<close>: the flush, or a function of the page.\<close>

datatype tick = FlushTick | UserTick "data \<Rightarrow> writes"

text \<open>The data, the subscribers of each \<open>Dep\<close>, the watchers by their numbers, \<open>ti\<close>, the stack \<open>ve\<close> and
  \<open>me.target\<close>; \<open>zn\<close>, \<open>Rn\<close>, \<open>Hn\<close>, \<open>Wn\<close>, \<open>qn\<close>; \<open>st\<close>, \<open>lt\<close>, and the number of microtasks that will call \<open>ct\<close>.
  The last two fields record the calls of \<open>before\<close>, and for each watcher the data on which its getter has
  run: the getter of a component's watcher draws the component.\<close>

record rstate =
  rstore :: data
  subs :: "nat \<Rightarrow> nat list"
  watchers :: "nat \<Rightarrow> watcher"
  uid :: nat
  targets :: "nat list"
  dep_target :: "nat option"
  queue :: "nat list"
  has :: "nat \<Rightarrow> bool"
  flush_waiting :: bool
  flushing :: bool
  flush_index :: nat
  ticks :: "tick list"
  tick_pending :: bool
  host_jobs :: nat
  befores :: "nat list"
  drawn :: "nat \<Rightarrow> data list"

section \<open>Dependencies\<close>

definition set_watcher :: "nat \<Rightarrow> watcher \<Rightarrow> rstate \<Rightarrow> rstate" where
  "set_watcher w x st = st\<lparr>watchers := (watchers st)(w := x)\<rparr>"

definition push_target :: "nat \<Rightarrow> rstate \<Rightarrow> rstate" where
  "push_target w st = st\<lparr>targets := targets st @ [w], dep_target := Some w\<rparr>"

definition pop_target :: "rstate \<Rightarrow> rstate" where
  "pop_target st =
     (let ts = butlast (targets st) in st\<lparr>targets := ts, dep_target := (if ts = [] then None else Some (last ts))\<rparr>)"

definition add_sub :: "nat \<Rightarrow> nat \<Rightarrow> rstate \<Rightarrow> rstate" where
  "add_sub d w st = st\<lparr>subs := (subs st)(d := subs st d @ [w])\<rparr>"

definition remove_sub :: "nat \<Rightarrow> nat \<Rightarrow> rstate \<Rightarrow> rstate" where
  "remove_sub d w st = st\<lparr>subs := (subs st)(d := remove1 w (subs st d))\<rparr>"

definition add_dep :: "nat \<Rightarrow> nat \<Rightarrow> rstate \<Rightarrow> rstate" where
  "add_dep w d st =
     (let x = watchers st w in
      if d \<in> new_dep_ids x then st
      else
        let st1 = set_watcher w (x\<lparr>new_dep_ids := insert d (new_dep_ids x), new_deps := new_deps x @ [d]\<rparr>) st
        in if d \<in> dep_ids x then st1 else add_sub d w st1)"

definition depend :: "nat \<Rightarrow> rstate \<Rightarrow> rstate" where
  "depend d st = (case dep_target st of None \<Rightarrow> st | Some w \<Rightarrow> add_dep w d st)"

text \<open>The getter of a property, in the course of a reader.\<close>

primrec run_reader :: "'a reader \<Rightarrow> rstate \<Rightarrow> 'a \<times> rstate" where
  "run_reader (Give v) = (\<lambda>st. (v, st))"
| "run_reader (Read d k) = (\<lambda>st. run_reader (k (rstore st d)) (depend d st))"

definition cleanup_deps :: "nat \<Rightarrow> rstate \<Rightarrow> rstate" where
  "cleanup_deps w st =
     (let x = watchers st w;
          st1 = fold (\<lambda>d s. if d \<in> new_dep_ids x then s else remove_sub d w s) (rev (deps x)) st
      in set_watcher w (x\<lparr>dep_ids := new_dep_ids x, new_dep_ids := {}, deps := new_deps x, new_deps := []\<rparr>) st1)"

definition watcher_get :: "nat \<Rightarrow> rstate \<Rightarrow> vval \<times> rstate" where
  "watcher_get w st =
     (let (e, st1) = run_reader (getter (watchers st w)) (push_target w st)
      in (e, (cleanup_deps w (pop_target st1))\<lparr>drawn := (drawn st)(w := drawn st w @ [rstore st])\<rparr>))"

section \<open>Scheduling\<close>

text \<open>\<open>pt\<close>\<close>

definition next_tick :: "tick \<Rightarrow> rstate \<Rightarrow> rstate" where
  "next_tick t st =
     (let st1 = st\<lparr>ticks := ticks st @ [t]\<rparr>
      in if tick_pending st1 then st1 else st1\<lparr>tick_pending := True, host_jobs := Suc (host_jobs st1)\<rparr>)"

text \<open>The loop of \<open>ei\<close> that looks for a place from the end, and \<open>ei\<close>. The queue is not empty during a
  flush.\<close>

primrec queue_slot :: "nat list \<Rightarrow> nat \<Rightarrow> nat \<Rightarrow> nat \<Rightarrow> nat" where
  "queue_slot q i w 0 = 0"
| "queue_slot q i w (Suc n) = (if i < Suc n \<and> w < q ! Suc n then queue_slot q i w n else Suc n)"

definition queue_watcher :: "nat \<Rightarrow> rstate \<Rightarrow> rstate" where
  "queue_watcher w st =
     (if has st w then st
      else
        let st1 = st\<lparr>has := (has st)(w := True)\<rparr>;
            n = Suc (queue_slot (queue st) (flush_index st) w (length (queue st) - 1));
            st2 = st1\<lparr>queue := (if flushing st then take n (queue st) @ w # drop n (queue st) else queue st @ [w])\<rparr>
        in if flush_waiting st2 then st2 else next_tick FlushTick (st2\<lparr>flush_waiting := True\<rparr>))"

text \<open>\<open>me.notify\<close> and the setter of a property.\<close>

definition notify_subs :: "nat \<Rightarrow> rstate \<Rightarrow> rstate" where
  "notify_subs d st = fold queue_watcher (subs st d) st"

definition set_prop :: "nat \<Rightarrow> vval \<Rightarrow> rstate \<Rightarrow> rstate" where
  "set_prop d v st = (if rstore st d = v then st else notify_subs d (st\<lparr>rstore := (rstore st)(d := v)\<rparr>))"

definition set_props :: "writes \<Rightarrow> rstate \<Rightarrow> rstate" where
  "set_props ps st = fold (\<lambda>(d, v). set_prop d v) ps st"

text \<open>\<open>run\<close>, the constructor and \<open>teardown\<close> of a watcher.\<close>

definition watcher_run :: "nat \<Rightarrow> rstate \<Rightarrow> rstate" where
  "watcher_run w st =
     (if is_active (watchers st w) then
        let (e, st1) = watcher_get w st; x = watchers st1 w; t = value_of x in
        if e \<noteq> t \<or> is_ref e then
          let st2 = set_watcher w (x\<lparr>value_of := e\<rparr>) st1 in set_props (cb x (rstore st2) e t) st2
        else st1
      else st)"

definition new_watcher :: "vval reader \<Rightarrow> (data \<Rightarrow> vval \<Rightarrow> vval \<Rightarrow> writes) \<Rightarrow> rstate \<Rightarrow> rstate" where
  "new_watcher r c st =
     (let w = Suc (uid st);
          st1 = set_watcher w \<lparr>getter = r, cb = c, value_of = VUndefined, is_active = True, deps = [], new_deps = [],
                  dep_ids = {}, new_dep_ids = {}\<rparr> (st\<lparr>uid := w\<rparr>);
          (e, st2) = watcher_get w st1
      in set_watcher w ((watchers st2 w)\<lparr>value_of := e\<rparr>) st2)"

definition teardown :: "nat \<Rightarrow> rstate \<Rightarrow> rstate" where
  "teardown w st =
     (let x = watchers st w in
      if is_active x then set_watcher w (x\<lparr>is_active := False\<rparr>) (fold (\<lambda>d. remove_sub d w) (rev (deps x)) st)
      else st)"

section \<open>The flush\<close>

text \<open>\<open>Xn\<close> with \<open>Un\<close>. The loop may go on for ever when callbacks keep changing what is watched; the
  fuel bounds its rounds.\<close>

fun flush_loop :: "nat \<Rightarrow> rstate \<Rightarrow> rstate option" where
  "flush_loop f st =
     (if flush_index st < length (queue st) then
        (case f of
           0 \<Rightarrow> None
         | Suc g \<Rightarrow>
           let w = queue st ! flush_index st;
               st1 = watcher_run w (st\<lparr>befores := befores st @ [w], has := (has st)(w := False)\<rparr>)
           in flush_loop g (st1\<lparr>flush_index := Suc (flush_index st1)\<rparr>))
      else Some st)"

declare flush_loop.simps [simp del]

definition reset_scheduler :: "rstate \<Rightarrow> rstate" where
  "reset_scheduler st =
     st\<lparr>flush_index := 0, queue := [], has := (\<lambda>_. False), flush_waiting := False, flushing := False\<rparr>"

definition flush_queue :: "nat \<Rightarrow> rstate \<Rightarrow> rstate option" where
  "flush_queue f st =
     map_option reset_scheduler (flush_loop f (st\<lparr>flushing := True, queue := sort (queue st), flush_index := 0\<rparr>))"

fun run_tick :: "nat \<Rightarrow> tick \<Rightarrow> rstate \<Rightarrow> rstate option" where
  "run_tick f FlushTick st = flush_queue f st"
| "run_tick f (UserTick g) st = Some (set_props (g (rstore st)) st)"

primrec run_ticks :: "nat \<Rightarrow> tick list \<Rightarrow> rstate \<Rightarrow> rstate option" where
  "run_ticks f [] st = Some st"
| "run_ticks f (t # ts) st = Option.bind (run_tick f t st) (run_ticks f ts)"

text \<open>\<open>ct\<close>, as the host runs it.\<close>

definition flush_callbacks :: "nat \<Rightarrow> rstate \<Rightarrow> rstate option" where
  "flush_callbacks f st =
     run_ticks f (ticks st) (st\<lparr>host_jobs := host_jobs st - 1, tick_pending := False, ticks := []\<rparr>)"

section \<open>Runs\<close>

text \<open>What the page does, and the microtasks of the host.\<close>

datatype revent =
    Assign nat vval
  | Watch "vval reader" "data \<Rightarrow> vval \<Rightarrow> vval \<Rightarrow> writes"
  | Unwatch nat
  | NextTick "data \<Rightarrow> writes"
  | HostJob

fun revent_step :: "nat \<Rightarrow> revent \<Rightarrow> rstate \<Rightarrow> rstate option" where
  "revent_step f (Assign d v) st = Some (set_prop d v st)"
| "revent_step f (Watch r c) st = Some (new_watcher r c st)"
| "revent_step f (Unwatch w) st = Some (teardown w st)"
| "revent_step f (NextTick g) st = Some (next_tick (UserTick g) st)"
| "revent_step f HostJob st = (if host_jobs st = 0 then Some st else flush_callbacks f st)"

primrec revent_run :: "nat \<Rightarrow> revent list \<Rightarrow> rstate \<Rightarrow> rstate option" where
  "revent_run f [] st = Some st"
| "revent_run f (e # es) st = Option.bind (revent_step f e st) (revent_run f es)"

text \<open>There is no watcher at first: the numbers not given yet stand for one that is not active.\<close>

definition no_watcher :: watcher where
  "no_watcher =
     \<lparr>getter = Give VUndefined, cb = (\<lambda>s e t. []), value_of = VUndefined, is_active = False, deps = [], new_deps = [],
      dep_ids = {}, new_dep_ids = {}\<rparr>"

definition reactive_init :: "data \<Rightarrow> rstate" where
  "reactive_init s =
     \<lparr>rstore = s, subs = (\<lambda>_. []), watchers = (\<lambda>_. no_watcher), uid = 0, targets = [], dep_target = None, queue = [],
      has = (\<lambda>_. False), flush_waiting = False, flushing = False, flush_index = 0, ticks = [], tick_pending = False,
      host_jobs = 0, befores = [], drawn = (\<lambda>_. [])\<rparr>"

section \<open>Components\<close>

text \<open>\<open>mountComponent\<close>: the watcher of a component, whose getter calls the render function and draws what
  it gives, and gives \<open>undefined\<close> itself.\<close>

definition component_getter :: "'a reader \<Rightarrow> vval reader" where
  "component_getter r = map_reader (\<lambda>_. VUndefined) r"

definition mount_component :: "'a reader \<Rightarrow> rstate \<Rightarrow> rstate" where
  "mount_component r = new_watcher (component_getter r) (\<lambda>s e t. [])"

section \<open>What a reader gives\<close>

primrec r_eval :: "'a reader \<Rightarrow> data \<Rightarrow> 'a" where
  "r_eval (Give v) = (\<lambda>s. v)"
| "r_eval (Read d k) = (\<lambda>s. r_eval (k (s d)) s)"

primrec r_reads :: "'a reader \<Rightarrow> data \<Rightarrow> nat list" where
  "r_reads (Give v) = (\<lambda>s. [])"
| "r_reads (Read d k) = (\<lambda>s. d # r_reads (k (s d)) s)"

text \<open>A watcher is up to date when its value is what its getter gives on the present data and it is
  subscribed to what the getter reads there, and to nothing else, and nothing it reads has changed
  since its getter ran.\<close>

definition up_to_date :: "rstate \<Rightarrow> nat \<Rightarrow> bool" where
  "up_to_date st w \<longleftrightarrow>
     value_of (watchers st w) = r_eval (getter (watchers st w)) (rstore st)
     \<and> set (deps (watchers st w)) = set (r_reads (getter (watchers st w)) (rstore st))
     \<and> (\<forall>d \<in> set (deps (watchers st w)). last (drawn st w) d = rstore st d)"

end
