(* ===== verification/VueFlush.thy ===== *)
theory VueFlush
  imports VueReactive
begin

text \<open>
  The correctness of reactive data (\<open>VueReactive\<close>): subscriptions are exactly what the watchers have
  read, a watcher is queued once and in order, and when no microtask is left every watcher is up to
  date.
\<close>

section \<open>Readers\<close>

lemma r_eval_other:
  assumes "d \<notin> set (r_reads r s)"
  shows "r_eval r (s(d := v)) = r_eval r s" and "r_reads r (s(d := v)) = r_reads r s"
  using assms by (induction r) (auto simp: fun_upd_other)

lemma component_reads: "r_reads (component_getter r) s = r_reads r s"
  by (induction r) (simp_all add: component_getter_def)

lemma r_eval_same: "\<forall>d \<in> set (r_reads r s). s' d = s d \<Longrightarrow> r_eval r s' = r_eval r s"
  by (induction r) auto

text \<open>What the dependencies of the running watcher \<open>w\<close> look like while it reads.\<close>

definition reading :: "nat \<Rightarrow> rstate \<Rightarrow> bool" where
  "reading w st \<longleftrightarrow>
     (\<forall>d. distinct (subs st d)
        \<and> (\<forall>u. u \<noteq> w \<longrightarrow> (u \<in> set (subs st d) \<longleftrightarrow> is_active (watchers st u) \<and> d \<in> set (deps (watchers st u))))
        \<and> (w \<in> set (subs st d) \<longleftrightarrow> d \<in> dep_ids (watchers st w) \<or> d \<in> new_dep_ids (watchers st w)))
     \<and> dep_ids (watchers st w) = set (deps (watchers st w))
     \<and> new_dep_ids (watchers st w) = set (new_deps (watchers st w))"

definition clean :: "watcher \<Rightarrow> bool" where
  "clean x \<longleftrightarrow> dep_ids x = set (deps x) \<and> new_deps x = [] \<and> new_dep_ids x = {}"

text \<open>Between runs: the subscribers of a property are the active watchers that have read it.\<close>

definition linked :: "rstate \<Rightarrow> bool" where
  "linked st \<longleftrightarrow>
     (\<forall>d. distinct (subs st d)
        \<and> set (subs st d) = {w. is_active (watchers st w) \<and> d \<in> set (deps (watchers st w))})
     \<and> (\<forall>w. clean (watchers st w)) \<and> targets st = [] \<and> dep_target st = None
     \<and> (\<forall>w. is_active (watchers st w) \<longrightarrow> 0 < w \<and> w \<le> uid st)"

lemma linked_value:
  assumes "linked st"
  shows "linked (st\<lparr>watchers := (watchers st)(w := (watchers st w)\<lparr>value_of := e\<rparr>)\<rparr>)"
proof -
  let ?f = "(watchers st)(w := (watchers st w)\<lparr>value_of := e\<rparr>)"
  have "is_active (?f u) = is_active (watchers st u)" "deps (?f u) = deps (watchers st u)" "clean (?f u) = clean (watchers st u)" for u
    by (simp_all add: clean_def)
  then show ?thesis using assms unfolding linked_def by simp
qed

lemma add_dep_reading:
  assumes "reading w st"
  shows "\<exists>S ns is. add_dep w d st = st\<lparr>subs := S, watchers := (watchers st)(w := (watchers st w)\<lparr>new_dep_ids := is, new_deps := ns\<rparr>)\<rparr>
    \<and> reading w (add_dep w d st) \<and> is = insert d (new_dep_ids (watchers st w))"
proof (cases "d \<in> new_dep_ids (watchers st w)")
  case True
  have "st = st\<lparr>subs := subs st, watchers := (watchers st)(w := (watchers st w)\<lparr>new_dep_ids := new_dep_ids (watchers st w), new_deps := new_deps (watchers st w)\<rparr>)\<rparr>"
    by simp
  moreover have "add_dep w d st = st" using True by (simp add: add_dep_def)
  ultimately show ?thesis using assms True by (metis insert_absorb)
next
  case False
  let ?x = "(watchers st w)\<lparr>new_dep_ids := insert d (new_dep_ids (watchers st w)), new_deps := new_deps (watchers st w) @ [d]\<rparr>"
  show ?thesis
  proof (cases "d \<in> dep_ids (watchers st w)")
    case True
    then have "add_dep w d st = st\<lparr>subs := subs st, watchers := (watchers st)(w := ?x)\<rparr>"
      using False by (simp add: add_dep_def set_watcher_def Let_def)
    moreover have "reading w (st\<lparr>subs := subs st, watchers := (watchers st)(w := ?x)\<rparr>)"
      using assms True by (auto simp: reading_def)
    ultimately show ?thesis by metis
  next
    case new: False
    then have "add_dep w d st = st\<lparr>subs := (subs st)(d := subs st d @ [w]), watchers := (watchers st)(w := ?x)\<rparr>"
      using False by (simp add: add_dep_def set_watcher_def add_sub_def Let_def)
    moreover have "reading w (st\<lparr>subs := (subs st)(d := subs st d @ [w]), watchers := (watchers st)(w := ?x)\<rparr>)"
      using assms new False by (auto simp: reading_def)
    ultimately show ?thesis by metis
  qed
qed

lemma run_reader_spec:
  assumes "reading w st" and "dep_target st = Some w"
  shows "\<exists>S ns is. run_reader r st =
      (r_eval r (rstore st), st\<lparr>subs := S, watchers := (watchers st)(w := (watchers st w)\<lparr>new_dep_ids := is, new_deps := ns\<rparr>)\<rparr>)
    \<and> reading w (snd (run_reader r st)) \<and> is = new_dep_ids (watchers st w) \<union> set (r_reads r (rstore st))"
  using assms
proof (induction r arbitrary: st)
  case (Give v)
  have "st = st\<lparr>subs := subs st, watchers := (watchers st)(w := (watchers st w)\<lparr>new_dep_ids := new_dep_ids (watchers st w), new_deps := new_deps (watchers st w)\<rparr>)\<rparr>"
    by simp
  then show ?case using Give by (metis run_reader.simps(1) r_eval.simps(1) r_reads.simps(1) snd_conv list.set(1) sup_bot_right)
next
  case (Read d k)
  obtain S ns i where a: "add_dep w d st = st\<lparr>subs := S, watchers := (watchers st)(w := (watchers st w)\<lparr>new_dep_ids := i, new_deps := ns\<rparr>)\<rparr>"
    "reading w (add_dep w d st)" "i = insert d (new_dep_ids (watchers st w))"
    using add_dep_reading [OF Read.prems(1)] by metis
  let ?st = "add_dep w d st"
  have "dep_target ?st = Some w" using a(1) Read.prems(2) by simp
  from Read.IH [OF _ a(2) this, of "k (rstore st d)"] obtain S' ns' i' where
    b: "run_reader (k (rstore st d)) ?st = (r_eval (k (rstore st d)) (rstore ?st),
          ?st\<lparr>subs := S', watchers := (watchers ?st)(w := (watchers ?st w)\<lparr>new_dep_ids := i', new_deps := ns'\<rparr>)\<rparr>)"
      "reading w (snd (run_reader (k (rstore st d)) ?st))" "i' = new_dep_ids (watchers ?st w) \<union> set (r_reads (k (rstore st d)) (rstore ?st))"
    by blast
  have "run_reader (Read d k) st = run_reader (k (rstore st d)) ?st" using Read.prems(2) by (simp add: depend_def)
  moreover have "rstore ?st = rstore st" using a(1) by simp
  moreover have "?st\<lparr>subs := S', watchers := (watchers ?st)(w := (watchers ?st w)\<lparr>new_dep_ids := i', new_deps := ns'\<rparr>)\<rparr>
      = st\<lparr>subs := S', watchers := (watchers st)(w := (watchers st w)\<lparr>new_dep_ids := i', new_deps := ns'\<rparr>)\<rparr>"
    using a(1) by simp
  moreover have "i' = new_dep_ids (watchers st w) \<union> set (r_reads (Read d k) (rstore st))"
    using b(3) a(1,3) by simp
  ultimately show ?case using b(1,2) by (metis r_eval.simps(2))
qed

lemma clean_update: "clean x \<Longrightarrow> x\<lparr>dep_ids := A, new_dep_ids := {}, deps := ns, new_deps := []\<rparr> = x\<lparr>deps := ns, dep_ids := A\<rparr>"
  by (cases x) (simp add: clean_def)

lemma remove_subs:
  "fold (\<lambda>d s. if P d then s else remove_sub d w s) ds st
     = st\<lparr>subs := (\<lambda>d. fold (\<lambda>e q. if P e \<or> e \<noteq> d then q else remove1 w q) ds (subs st d))\<rparr>"
proof (induction ds arbitrary: st)
  case Nil
  then show ?case by simp
next
  case (Cons d ds)
  then show ?case by (auto simp: remove_sub_def fun_eq_iff)
qed

lemma remove_subs_list:
  "distinct q \<Longrightarrow> set (fold (\<lambda>e q. if P e \<or> e \<noteq> d then q else remove1 w q) ds q)
      = set q - (if d \<in> set ds \<and> \<not> P d then {w} else {})
    \<and> distinct (fold (\<lambda>e q. if P e \<or> e \<noteq> d then q else remove1 w q) ds q)"
  by (induction ds arbitrary: q) (auto simp: distinct_remove1)

text \<open>The value of a getter, and the subscriptions after it.\<close>

lemma watcher_get_spec:
  assumes "linked st" and "is_active (watchers st w)"
  shows "\<exists>S ds. watcher_get w st = (r_eval (getter (watchers st w)) (rstore st),
      st\<lparr>subs := S, drawn := (drawn st)(w := drawn st w @ [rstore st]),
        watchers := (watchers st)(w := (watchers st w)\<lparr>deps := ds, dep_ids := set ds\<rparr>)\<rparr>)
    \<and> set ds = set (r_reads (getter (watchers st w)) (rstore st)) \<and> linked (snd (watcher_get w st))"
proof -
  let ?x = "watchers st w" and ?p = "push_target w st"
  have cx: "clean ?x" and t: "targets st = []" "dep_target st = None" using assms(1) by (auto simp: linked_def)
  have "reading w ?p" using assms by (auto simp: reading_def push_target_def linked_def clean_def)
  from run_reader_spec [OF this, of "getter ?x"] obtain S ns where
    r: "run_reader (getter ?x) ?p = (r_eval (getter ?x) (rstore st),
          ?p\<lparr>subs := S, watchers := (watchers st)(w := ?x\<lparr>new_dep_ids := set (r_reads (getter ?x) (rstore st)), new_deps := ns\<rparr>)\<rparr>)"
    and rd: "reading w (?p\<lparr>subs := S, watchers := (watchers st)(w := ?x\<lparr>new_dep_ids := set (r_reads (getter ?x) (rstore st)), new_deps := ns\<rparr>)\<rparr>)"
    using cx by (auto simp: push_target_def clean_def)
  let ?st = "st\<lparr>subs := S, watchers := (watchers st)(w := ?x\<lparr>new_dep_ids := set (r_reads (getter ?x) (rstore st)), new_deps := ns\<rparr>)\<rparr>"
  have pop: "pop_target (?p\<lparr>subs := S, watchers := (watchers st)(w := ?x\<lparr>new_dep_ids := set (r_reads (getter ?x) (rstore st)), new_deps := ns\<rparr>)\<rparr>) = ?st"
    using t by (simp add: pop_target_def push_target_def)
  have ns: "set ns = set (r_reads (getter ?x) (rstore st))" using rd by (simp add: reading_def)
  let ?P = "\<lambda>d. d \<in> set ns"
  let ?S = "\<lambda>d. fold (\<lambda>e q. if ?P e \<or> e \<noteq> d then q else remove1 w q) (rev (deps ?x)) (S d)"
  let ?st' = "st\<lparr>subs := ?S, watchers := (watchers st)(w := ?x\<lparr>deps := ns, dep_ids := set ns\<rparr>)\<rparr>"
  have cl: "cleanup_deps w ?st = ?st'"
    using cx unfolding cleanup_deps_def Let_def by (simp add: remove_subs ns [symmetric] set_watcher_def clean_update)
  have dS: "distinct (S d)"
    and mS: "u \<in> set (S d) \<longleftrightarrow> (if u = w then d \<in> set (deps ?x) \<or> d \<in> set ns
        else is_active (watchers st u) \<and> d \<in> set (deps (watchers st u)))" for d u
    using rd cx ns by (simp_all add: reading_def push_target_def clean_def)
  have "set (?S d) = set (S d) - (if d \<in> set (deps ?x) \<and> d \<notin> set ns then {w} else {}) \<and> distinct (?S d)" for d
    using remove_subs_list [OF dS, where P = ?P and ds = "rev (deps ?x)"] by simp
  then have "distinct (?S d)" "set (?S d) = {u. is_active (watchers ?st' u) \<and> d \<in> set (deps (watchers ?st' u))}" for d
    using assms(2) by (auto simp: mS split: if_splits)
  then have lin0: "linked ?st'" using assms(1) unfolding linked_def by (auto simp: clean_def)
  let ?st'' = "st\<lparr>subs := ?S, drawn := (drawn st)(w := drawn st w @ [rstore st]),
    watchers := (watchers st)(w := ?x\<lparr>deps := ns, dep_ids := set ns\<rparr>)\<rparr>"
  have lin: "linked ?st''" using lin0 by (simp add: linked_def)
  have get: "watcher_get w st = (r_eval (getter ?x) (rstore st), ?st'')"
    unfolding watcher_get_def r by (simp add: pop cl)
  then have "linked (snd (watcher_get w st))" using lin by (simp only: snd_conv)
  with get ns show ?thesis by blast
qed

section \<open>The queue\<close>

text \<open>The part of the queue that is still to run.\<close>

definition to_run :: "rstate \<Rightarrow> nat list" where
  "to_run st = (if flushing st then drop (Suc (flush_index st)) (queue st) else queue st)"

definition flush_count :: "tick list \<Rightarrow> nat" where
  "flush_count ts = length (filter (\<lambda>t. t = FlushTick) ts)"

text \<open>The queue has no duplicates, during a flush its rest is in order; \<open>Rn\<close> knows its members; there is
  one request for a flush if it is not empty and no flush is going on, \<open>rest\<close> being the callbacks of
  \<open>nextTick\<close> that are about to be called.\<close>

definition queue_ok :: "tick list \<Rightarrow> rstate \<Rightarrow> bool" where
  "queue_ok rest st \<longleftrightarrow>
     distinct (to_run st) \<and> (\<forall>w. has st w \<longleftrightarrow> w \<in> set (to_run st))
     \<and> (if flushing st then flush_waiting st \<and> flush_index st < length (queue st) \<and> sorted (to_run st)
        else flush_waiting st \<longleftrightarrow> queue st \<noteq> [])
     \<and> flush_count (rest @ ticks st) = (if flush_waiting st \<and> \<not> flushing st then 1 else 0)
     \<and> (tick_pending st \<longleftrightarrow> ticks st \<noteq> []) \<and> host_jobs st = (if tick_pending st then 1 else 0)"

lemma flush_count_simps [simp]:
  "flush_count [] = 0" "flush_count (FlushTick # ts) = Suc (flush_count ts)" "flush_count (UserTick g # ts) = flush_count ts"
  "flush_count (ts @ us) = flush_count ts + flush_count us"
  by (simp_all add: flush_count_def)

lemma queue_slot_spec:
  assumes "queue_slot q i w n = m" and "i \<le> n"
  shows "i \<le> m \<and> m \<le> n \<and> (\<forall>k. m < k \<longrightarrow> k \<le> n \<longrightarrow> w < q ! k) \<and> (m = i \<or> q ! m \<le> w)"
  using assms
proof (induction n)
  case 0
  then show ?case by simp
next
  case (Suc n)
  show ?case
  proof (cases "i < Suc n \<and> w < q ! Suc n")
    case True
    with Suc have "i \<le> m \<and> m \<le> n \<and> (\<forall>k. m < k \<longrightarrow> k \<le> n \<longrightarrow> w < q ! k) \<and> (m = i \<or> q ! m \<le> w)" by simp
    then show ?thesis using True by (auto simp: le_Suc_eq)
  next
    case False
    then have "m = Suc n" using Suc.prems(1) by (simp split: if_splits)
    then show ?thesis using False Suc.prems(2) by auto
  qed
qed

text \<open>\<open>ei\<close> during a flush keeps the rest of the queue in order.\<close>

lemma queue_insert:
  fixes w :: nat
  assumes "i < length q" and s: "sorted (drop (Suc i) q)"
  defines "n \<equiv> Suc (queue_slot q i w (length q - 1))"
  defines "q' \<equiv> take n q @ w # drop n q"
  shows "sorted (drop (Suc i) q')" and "set (drop (Suc i) q') = insert w (set (drop (Suc i) q))"
    and "distinct (drop (Suc i) q) \<Longrightarrow> w \<notin> set (drop (Suc i) q) \<Longrightarrow> distinct (drop (Suc i) q')"
    and "length q' = Suc (length q)" and "take (Suc i) q' = take (Suc i) q"
proof -
  let ?m = "queue_slot q i w (length q - 1)" and ?t = "drop (Suc i) q"
  have m: "i \<le> ?m" "?m < length q" "\<forall>k. ?m < k \<longrightarrow> k < length q \<longrightarrow> w < q ! k" "?m = i \<or> q ! ?m \<le> w"
  proof -
    have "i \<le> length q - 1" "k < length q \<Longrightarrow> k \<le> length q - 1" for k using assms(1) by simp_all
    with queue_slot_spec [OF refl this(1), of q w] assms(1)
    show "i \<le> ?m" "?m < length q" "\<forall>k. ?m < k \<longrightarrow> k < length q \<longrightarrow> w < q ! k" "?m = i \<or> q ! ?m \<le> w" by auto
  qed
  let ?j = "?m - i"
  have j: "n = Suc i + ?j" "?j \<le> length ?t" using m(1,2) by (auto simp: n_def)
  have q': "drop (Suc i) q' = take ?j ?t @ w # drop ?j ?t"
    using j m(1,2) unfolding q'_def by (simp add: drop_take add.commute)
  have hi: "w < x" if "x \<in> set (drop ?j ?t)" for x
  proof -
    obtain k where "k < length (drop ?j ?t)" "x = drop ?j ?t ! k" using \<open>x \<in> set (drop ?j ?t)\<close> by (metis in_set_conv_nth)
    then show ?thesis using m j by (auto simp: n_def)
  qed
  have lo: "x \<le> w" if x: "x \<in> set (take ?j ?t)" for x
  proof -
    obtain k where k: "k < ?j" "k < length ?t" "x = ?t ! k" using x by (auto simp: in_set_conv_nth)
    then have "?t ! k \<le> ?t ! (?j - 1)" using j by (intro sorted_nth_mono [OF s]) auto
    also have "?t ! k = x" using k by simp
    finally have "x \<le> ?t ! (?j - 1)" using k(3) by simp
    also have "?t ! (?j - 1) = q ! ?m" using k m(1,2) by simp
    also have "\<dots> \<le> w" using k m(4) by auto
    finally show ?thesis .
  qed
  have "sorted (take ?j ?t)" "sorted (drop ?j ?t)" by (rule sorted_wrt_take [OF s], rule sorted_wrt_drop [OF s])
  then show "sorted (drop (Suc i) q')"
    unfolding q' using lo hi by (force simp: sorted_append)
  have "set (take ?j ?t) \<union> set (drop ?j ?t) = set ?t" by (metis append_take_drop_id set_append)
  then show "set (drop (Suc i) q') = insert w (set ?t)" unfolding q' by auto
  show "distinct (drop (Suc i) q')" if "distinct ?t" "w \<notin> set ?t"
    unfolding q' using that distinct_drop [OF that(1), of ?j] set_take_subset [of ?j ?t] set_drop_subset [of ?j ?t] set_take_disj_set_drop_if_distinct [of ?t ?j ?j]
    by auto
  show "length q' = Suc (length q)" unfolding q'_def using j m by simp
  show "take (Suc i) q' = take (Suc i) q" unfolding q'_def using j m by (simp add: min_def)
qed

text \<open>What queueing does not change.\<close>

definition same_data :: "rstate \<Rightarrow> rstate \<Rightarrow> bool" where
  "same_data st st' \<longleftrightarrow>
     rstore st' = rstore st \<and> subs st' = subs st \<and> watchers st' = watchers st \<and> uid st' = uid st
     \<and> targets st' = targets st \<and> dep_target st' = dep_target st \<and> drawn st' = drawn st \<and> flushing st' = flushing st
     \<and> flush_index st' = flush_index st \<and> befores st' = befores st
     \<and> (flushing st \<longrightarrow> take (Suc (flush_index st)) (queue st') = take (Suc (flush_index st)) (queue st))"

lemma same_data_refl [simp]: "same_data st st"
  by (simp add: same_data_def)

lemma same_data_trans: "same_data st st1 \<Longrightarrow> same_data st1 st2 \<Longrightarrow> same_data st st2"
  by (simp add: same_data_def)

lemma next_tick_same: "same_data st (next_tick t st)" "queue (next_tick t st) = queue st" "has (next_tick t st) = has st"
  "flush_waiting (next_tick t st) = flush_waiting st"
  by (simp_all add: next_tick_def same_data_def Let_def)

lemma next_tick_ticks:
  "ticks (next_tick t st) = ticks st @ [t]" "tick_pending (next_tick t st)"
  "host_jobs (next_tick t st) = (if tick_pending st then host_jobs st else Suc (host_jobs st))"
  by (simp_all add: next_tick_def Let_def)

lemma queue_watcher_ok:
  assumes q: "queue_ok rest st"
  shows "queue_ok rest (queue_watcher w st)" and "has (queue_watcher w st) = (has st)(w := True)"
    and "same_data st (queue_watcher w st)"
proof -
  have "queue_ok rest (queue_watcher w st) \<and> has (queue_watcher w st) = (has st)(w := True) \<and> same_data st (queue_watcher w st)"
  proof (cases "has st w")
    case True
    then show ?thesis using q by (auto simp: queue_watcher_def fun_eq_iff)
  next
    case False
    show ?thesis
    proof (cases "flushing st")
      case True
      let ?i = "flush_index st" and ?q = "queue st"
      let ?n = "Suc (queue_slot ?q ?i w (length ?q - 1))"
      let ?q' = "take ?n ?q @ w # drop ?n ?q"
      have i: "?i < length ?q" "sorted (drop (Suc ?i) ?q)" "distinct (drop (Suc ?i) ?q)" "w \<notin> set (drop (Suc ?i) ?q)"
        "flush_waiting st"
        using q True False by (auto simp: queue_ok_def to_run_def)
      have e: "queue_watcher w st = st\<lparr>has := (has st)(w := True), queue := ?q'\<rparr>"
        using True False i(5) by (simp add: queue_watcher_def Let_def)
      note ins = queue_insert [OF i(1,2), of w]
      have "queue_ok rest (st\<lparr>has := (has st)(w := True), queue := ?q'\<rparr>)"
        using q True ins(1,2,4) ins(3) [OF i(3,4)] by (simp add: queue_ok_def to_run_def)
      then show ?thesis using e ins(5) by (simp add: same_data_def)
    next
      case idle: False
      let ?s = "st\<lparr>has := (has st)(w := True), queue := queue st @ [w]\<rparr>"
      have w: "w \<notin> set (queue st)" using q idle False by (simp add: queue_ok_def to_run_def)
      show ?thesis
      proof (cases "flush_waiting st")
        case True
        then have "queue_watcher w st = ?s" using idle False by (simp add: queue_watcher_def Let_def)
        then show ?thesis using q idle True w by (auto simp: queue_ok_def to_run_def same_data_def)
      next
        case ask: False
        then have e: "queue_watcher w st = next_tick FlushTick (?s\<lparr>flush_waiting := True\<rparr>)"
          using idle False by (simp add: queue_watcher_def Let_def)
        have "same_data st (next_tick FlushTick (?s\<lparr>flush_waiting := True\<rparr>))"
          using idle by (simp add: same_data_def next_tick_def Let_def)
        moreover have "queue_ok rest (next_tick FlushTick (?s\<lparr>flush_waiting := True\<rparr>))"
          using q idle ask w by (auto simp: queue_ok_def to_run_def next_tick_def Let_def split: if_splits)
        ultimately show ?thesis by (simp add: e next_tick_same)
      qed
    qed
  qed
  then show "queue_ok rest (queue_watcher w st)" "has (queue_watcher w st) = (has st)(w := True)"
    "same_data st (queue_watcher w st)" by simp_all
qed

lemma queue_watchers_ok:
  "queue_ok rest st \<Longrightarrow>
     queue_ok rest (fold queue_watcher us st) \<and> same_data st (fold queue_watcher us st)
     \<and> (\<forall>w. has (fold queue_watcher us st) w \<longleftrightarrow> has st w \<or> w \<in> set us)"
proof (induction us arbitrary: st)
  case Nil
  then show ?case by simp
next
  case (Cons u us)
  have q: "queue_ok rest (queue_watcher u st)" "has (queue_watcher u st) = (has st)(u := True)" "same_data st (queue_watcher u st)"
    using queue_watcher_ok [OF Cons.prems] by simp_all
  from Cons.IH [OF q(1)] q(2) show ?case using same_data_trans [OF q(3)] by auto
qed

section \<open>No watcher is missed\<close>

text \<open>Every active watcher is queued or up to date, and has read what its getter reads on some data.\<close>

definition nothing_missed :: "rstate \<Rightarrow> bool" where
  "nothing_missed st \<longleftrightarrow> (\<forall>w. is_active (watchers st w) \<longrightarrow> has st w \<or> up_to_date st w)"

definition has_read :: "rstate \<Rightarrow> bool" where
  "has_read st \<longleftrightarrow>
     (\<forall>w. is_active (watchers st w) \<longrightarrow>
        drawn st w \<noteq> [] \<and> set (deps (watchers st w)) = set (r_reads (getter (watchers st w)) (last (drawn st w))))"

definition reactive_ok :: "tick list \<Rightarrow> rstate \<Rightarrow> bool" where
  "reactive_ok rest st \<longleftrightarrow>
     linked st \<and> queue_ok rest st \<and> nothing_missed st \<and> has_read st \<and> (\<forall>w. has st w \<longrightarrow> 0 < w \<and> w \<le> uid st)"

text \<open>What a write leaves alone.\<close>

definition same_run :: "rstate \<Rightarrow> rstate \<Rightarrow> bool" where
  "same_run st st' \<longleftrightarrow>
     watchers st' = watchers st \<and> drawn st' = drawn st \<and> subs st' = subs st \<and> uid st' = uid st \<and> flushing st' = flushing st
     \<and> flush_index st' = flush_index st \<and> befores st' = befores st
     \<and> (flushing st \<longrightarrow> take (Suc (flush_index st)) (queue st') = take (Suc (flush_index st)) (queue st))
     \<and> (\<forall>w. has st w \<longrightarrow> has st' w)"

lemma same_run_refl [simp]: "same_run st st"
  by (simp add: same_run_def)

lemma same_run_trans: "same_run st st1 \<Longrightarrow> same_run st1 st2 \<Longrightarrow> same_run st st2"
  by (simp add: same_run_def)

lemma linked_same_data: "linked st \<Longrightarrow> same_data st st' \<Longrightarrow> linked st'"
  by (simp add: linked_def same_data_def)

lemma queue_ok_store: "queue_ok rest (st\<lparr>rstore := s\<rparr>) = queue_ok rest st"
  by (simp add: queue_ok_def to_run_def)

lemma queue_ok_watchers: "queue_ok rest (st\<lparr>subs := S, watchers := W\<rparr>) = queue_ok rest st"
  by (simp add: queue_ok_def to_run_def)

lemma queue_ok_drawn: "queue_ok rest (st\<lparr>subs := S, drawn := D, watchers := W\<rparr>) = queue_ok rest st"
  by (simp add: queue_ok_def to_run_def)

lemma queue_ok_new: "queue_ok rest (st\<lparr>uid := n, subs := S, drawn := D, watchers := W\<rparr>) = queue_ok rest st"
  by (simp add: queue_ok_def to_run_def)

lemma set_prop_ok:
  assumes "reactive_ok rest st"
  shows "reactive_ok rest (set_prop d v st)" and "same_run st (set_prop d v st)"
    and "has (set_prop d v st) w \<Longrightarrow> has st w \<or> w \<in> set (subs st d)"
proof -
  have "reactive_ok rest (set_prop d v st) \<and> same_run st (set_prop d v st)
    \<and> (\<forall>w. has (set_prop d v st) w \<longrightarrow> has st w \<or> w \<in> set (subs st d))"
  proof (cases "rstore st d = v")
    case True
    then show ?thesis using assms by (simp add: set_prop_def)
  next
    case False
    let ?s = "st\<lparr>rstore := (rstore st)(d := v)\<rparr>"
    have e: "set_prop d v st = fold queue_watcher (subs st d) ?s" using False by (simp add: set_prop_def notify_subs_def)
    have q: "queue_ok rest ?s" using assms by (simp add: reactive_ok_def queue_ok_store)
    note f = queue_watchers_ok [OF q, of "subs st d", folded e]
    have l: "linked ?s" using assms by (simp add: reactive_ok_def linked_def)
    have "has (set_prop d v st) w \<or> up_to_date (set_prop d v st) w" if a: "is_active (watchers (set_prop d v st) w)" for w
    proof (cases "has st w \<or> w \<in> set (subs st d)")
      case True
      then show ?thesis using f by auto
    next
      case no: False
      have x: "watchers (set_prop d v st) = watchers st" "rstore (set_prop d v st) = (rstore st)(d := v)"
        "drawn (set_prop d v st) = drawn st"
        using f by (simp_all add: same_data_def)
      have u: "up_to_date st w" using assms a no x by (auto simp: reactive_ok_def nothing_missed_def)
      have "d \<notin> set (deps (watchers st w))" using assms a no x by (auto simp: reactive_ok_def linked_def)
      moreover from this have "d \<notin> set (r_reads (getter (watchers st w)) (rstore st))" using u by (simp add: up_to_date_def)
      ultimately show ?thesis using u x by (auto simp: up_to_date_def r_eval_other)
    qed
    moreover have "0 < w \<and> w \<le> uid st" if "w \<in> set (subs st d)" for w using assms that by (auto simp: reactive_ok_def linked_def)
    moreover have "has_read (set_prop d v st)" using assms f by (simp add: reactive_ok_def has_read_def same_data_def)
    ultimately show ?thesis
      using f linked_same_data [OF l] assms by (auto simp: reactive_ok_def nothing_missed_def same_run_def same_data_def)
  qed
  then show "reactive_ok rest (set_prop d v st)" "same_run st (set_prop d v st)"
    "has (set_prop d v st) w \<Longrightarrow> has st w \<or> w \<in> set (subs st d)" by blast+
qed

lemma set_props_ok:
  assumes "reactive_ok rest st"
  shows "reactive_ok rest (set_props ps st) \<and> same_run st (set_props ps st)
    \<and> (\<forall>w. has (set_props ps st) w \<longrightarrow> has st w \<or> (\<exists>p \<in> set ps. w \<in> set (subs st (fst p))))"
  using assms
proof (induction ps arbitrary: st)
  case Nil
  then show ?case by (simp add: set_props_def)
next
  case (Cons p ps)
  obtain d v where p: "p = (d, v)" by fastforce
  have e: "set_props (p # ps) st = set_props ps (set_prop d v st)" by (simp add: set_props_def p)
  note s = set_prop_ok [OF Cons.prems, of d v]
  note ih = Cons.IH [OF s(1)]
  have su: "subs (set_prop d v st) = subs st" using s(2) by (simp add: same_run_def)
  have "has st w \<or> (\<exists>q \<in> set (p # ps). w \<in> set (subs st (fst q)))" if h: "has (set_props (p # ps) st) w" for w
    using ih [THEN conjunct2, THEN conjunct2, rule_format, OF h [unfolded e]] s(3) [of w] by (auto simp: su p)
  then show ?case unfolding e
    using ih [THEN conjunct1] same_run_trans [OF s(2) ih [THEN conjunct2, THEN conjunct1]] by simp
qed

lemma flush_index_irrelevant [simp]:
  "linked (st\<lparr>flush_index := i\<rparr>) = linked st" "nothing_missed (st\<lparr>flush_index := i\<rparr>) = nothing_missed st"
  "has_read (st\<lparr>flush_index := i\<rparr>) = has_read st"
  by (simp_all add: linked_def nothing_missed_def up_to_date_def has_read_def)

section \<open>Running a watcher\<close>

definition same_program :: "rstate \<Rightarrow> rstate \<Rightarrow> bool" where
  "same_program st st' \<longleftrightarrow>
     uid st' = uid st \<and> flushing st' = flushing st \<and> flush_index st' = flush_index st \<and> befores st' = befores st
     \<and> (flushing st \<longrightarrow> take (Suc (flush_index st)) (queue st') = take (Suc (flush_index st)) (queue st))
     \<and> (\<forall>w. getter (watchers st' w) = getter (watchers st w) \<and> cb (watchers st' w) = cb (watchers st w)
          \<and> is_active (watchers st' w) = is_active (watchers st w))"

lemma same_program_refl [simp]: "same_program st st"
  by (simp add: same_program_def)

lemma same_program_run: "same_program st st1 \<Longrightarrow> same_run st1 st2 \<Longrightarrow> same_program st st2"
  by (simp add: same_program_def same_run_def)

text \<open>What a run may add to the queue: subscribers of what its callback writes.\<close>

definition run_adds :: "nat \<Rightarrow> rstate \<Rightarrow> nat \<Rightarrow> bool" where
  "run_adds w st u \<longleftrightarrow>
     is_active (watchers st w) \<and> is_active (watchers st u)
     \<and> (\<exists>s e t s' p. p \<in> set (cb (watchers st w) s e t) \<and> fst p \<in> set (r_reads (getter (watchers st u)) s'))"

lemma watcher_run_ok:
  assumes l: "linked st" and q: "queue_ok rest st" and m: "\<And>u. is_active (watchers st u) \<Longrightarrow> u = w \<or> has st u \<or> up_to_date st u"
    and h: "has_read st" and b: "\<And>u. has st u \<Longrightarrow> 0 < u \<and> u \<le> uid st"
  shows "reactive_ok rest (watcher_run w st) \<and> same_program st (watcher_run w st)
    \<and> (\<forall>u. has st u \<longrightarrow> has (watcher_run w st) u) \<and> (\<forall>u. has (watcher_run w st) u \<longrightarrow> has st u \<or> run_adds w st u)"
proof (cases "is_active (watchers st w)")
  case False
  have "nothing_missed st" using m False unfolding nothing_missed_def by metis
  then show ?thesis using False l q h b by (auto simp: watcher_run_def reactive_ok_def)
next
  case True
  let ?x = "watchers st w" and ?e = "r_eval (getter (watchers st w)) (rstore st)"
  obtain S ds where g: "watcher_get w st = (?e, st\<lparr>subs := S, drawn := (drawn st)(w := drawn st w @ [rstore st]),
        watchers := (watchers st)(w := ?x\<lparr>deps := ds, dep_ids := set ds\<rparr>)\<rparr>)"
    and ds: "set ds = set (r_reads (getter ?x) (rstore st))" and l1: "linked (snd (watcher_get w st))"
    using watcher_get_spec [OF l True] by blast
  let ?st1 = "st\<lparr>subs := S, drawn := (drawn st)(w := drawn st w @ [rstore st]),
        watchers := (watchers st)(w := ?x\<lparr>deps := ds, dep_ids := set ds\<rparr>)\<rparr>"
  let ?st2 = "st\<lparr>subs := S, drawn := (drawn st)(w := drawn st w @ [rstore st]),
        watchers := (watchers st)(w := ?x\<lparr>deps := ds, dep_ids := set ds, value_of := ?e\<rparr>)\<rparr>"
  have l1': "linked ?st1" using l1 g by simp
  have l2: "linked ?st2" using linked_value [OF l1', of w ?e] by simp
  have q2: "queue_ok rest ?st2" using q by (simp add: queue_ok_drawn)
  have "has ?st2 u \<or> up_to_date ?st2 u" if "is_active (watchers ?st2 u)" for u
    using m [of u] that ds by (cases "u = w") (auto simp: up_to_date_def)
  then have m2: "nothing_missed ?st2" unfolding nothing_missed_def by blast
  have h2: "has_read ?st2" using h ds by (auto simp: has_read_def)
  have r2: "reactive_ok rest ?st2" using l2 q2 m2 h2 b by (simp add: reactive_ok_def)
  have p2: "same_program st ?st2" by (simp add: same_program_def)
  show ?thesis
  proof (cases "?e \<noteq> value_of ?x \<or> is_ref ?e")
    case False
    then have "?x\<lparr>deps := ds, dep_ids := set ds\<rparr> = ?x\<lparr>deps := ds, dep_ids := set ds, value_of := ?e\<rparr>" by simp
    then have "watcher_run w st = ?st2" using True False g by (simp add: watcher_run_def)
    then show ?thesis using r2 p2 by simp
  next
    case run: True
    let ?ps = "cb ?x (rstore st) ?e (value_of ?x)"
    have e: "watcher_run w st = set_props ?ps ?st2" using True run g by (simp add: watcher_run_def set_watcher_def)
    note f = set_props_ok [OF r2, of ?ps]
    have "run_adds w st u" if u: "p \<in> set ?ps" "u \<in> set (subs ?st2 (fst p))" for u p
    proof -
      have a: "is_active (watchers ?st2 u)" "fst p \<in> set (deps (watchers ?st2 u))" using l2 u(2) unfolding linked_def by blast+
      moreover from h2 a(1) have "set (deps (watchers ?st2 u)) = set (r_reads (getter (watchers ?st2 u)) (last (drawn ?st2 u)))"
        unfolding has_read_def by blast
      moreover have "getter (watchers ?st2 u) = getter (watchers st u)" "is_active (watchers ?st2 u) = is_active (watchers st u)" by simp_all
      ultimately show ?thesis using True u(1) unfolding run_adds_def by metis
    qed
    then have "has (watcher_run w st) u \<Longrightarrow> has st u \<or> run_adds w st u" for u
      using f [THEN conjunct2, THEN conjunct2, rule_format, of u] unfolding e by auto
    moreover have "has ?st2 u \<Longrightarrow> has (watcher_run w st) u" for u
      using f unfolding e by (simp add: same_run_def)
    ultimately show ?thesis unfolding e using f same_program_run [OF p2] by auto
  qed
qed

section \<open>The flush\<close>

text \<open>The state at the head of the loop; \<open>rest\<close> as before.\<close>

definition flush_ok :: "tick list \<Rightarrow> rstate \<Rightarrow> bool" where
  "flush_ok rest st \<longleftrightarrow>
     linked st \<and> nothing_missed st \<and> has_read st \<and> (\<forall>w. has st w \<longrightarrow> 0 < w \<and> w \<le> uid st)
     \<and> flushing st \<and> flush_waiting st
     \<and> (let r = drop (flush_index st) (queue st) in distinct r \<and> sorted r \<and> (\<forall>w. has st w \<longleftrightarrow> w \<in> set r))
     \<and> flush_count (rest @ ticks st) = 0
     \<and> (tick_pending st \<longleftrightarrow> ticks st \<noteq> []) \<and> host_jobs st = (if tick_pending st then 1 else 0)"

lemma flush_round:
  assumes "flush_ok rest st" and i: "flush_index st < length (queue st)"
  defines "w \<equiv> queue st ! flush_index st"
  defines "st1 \<equiv> watcher_run w (st\<lparr>befores := befores st @ [w], has := (has st)(w := False)\<rparr>)"
  shows "flush_ok rest (st1\<lparr>flush_index := Suc (flush_index st1)\<rparr>)"
    and "befores st1 = befores st @ [w]" and "same_program (st\<lparr>befores := befores st1\<rparr>) st1"
    and "has st1 u \<Longrightarrow> has st u \<and> u \<noteq> w \<or> run_adds w st u" and "has st u \<Longrightarrow> u \<noteq> w \<Longrightarrow> has st1 u"
proof -
  let ?s = "st\<lparr>befores := befores st @ [w], has := (has st)(w := False)\<rparr>"
  have d: "drop (flush_index st) (queue st) = w # drop (Suc (flush_index st)) (queue st)"
    using i by (simp add: w_def Cons_nth_drop_Suc)
  have l: "linked ?s" using assms(1) by (simp add: flush_ok_def linked_def)
  have q: "queue_ok rest ?s" using assms(1) i d by (auto simp: flush_ok_def queue_ok_def to_run_def)
  have m: "u = w \<or> has ?s u \<or> up_to_date ?s u" if "is_active (watchers ?s u)" for u
    using assms(1) that by (auto simp: flush_ok_def nothing_missed_def up_to_date_def)
  have h: "has_read ?s" and b: "has ?s u \<Longrightarrow> 0 < u \<and> u \<le> uid ?s" for u
    using assms(1) by (auto simp: flush_ok_def has_read_def split: if_splits)
  have run: "reactive_ok rest st1 \<and> same_program ?s st1
      \<and> (\<forall>u. has ?s u \<longrightarrow> has st1 u) \<and> (\<forall>u. has st1 u \<longrightarrow> has ?s u \<or> run_adds w ?s u)"
    unfolding st1_def by (rule watcher_run_ok [OF l q m h b])
  then have p: "same_program ?s st1" and r: "reactive_ok rest st1" by simp_all
  have fl: "flushing st1" using p assms(1) by (simp add: same_program_def flush_ok_def)
  have qo: "queue_ok rest st1" using r by (simp add: reactive_ok_def)
  show "flush_ok rest (st1\<lparr>flush_index := Suc (flush_index st1)\<rparr>)"
    using r qo fl
    by (simp add: flush_ok_def reactive_ok_def queue_ok_def to_run_def)
  show "befores st1 = befores st @ [w]" using p by (simp add: same_program_def)
  then show "same_program (st\<lparr>befores := befores st1\<rparr>) st1" using p by (simp add: same_program_def)
  show "has st1 u \<Longrightarrow> has st u \<and> u \<noteq> w \<or> run_adds w st u"
    using run [THEN conjunct2, THEN conjunct2, THEN conjunct2, rule_format, of u] by (simp add: run_adds_def split: if_splits)
  show "has st u \<Longrightarrow> u \<noteq> w \<Longrightarrow> has st1 u" using run by simp
qed

lemma flush_loop_ok:
  assumes "flush_ok rest st" and "flush_loop f st = Some st'"
  shows "flush_ok rest st' \<and> drop (flush_index st') (queue st') = []"
  using assms
proof (induction f arbitrary: st)
  case 0
  then show ?case by (auto simp: flush_loop.simps [of 0] split: if_splits)
next
  case (Suc f)
  show ?case
  proof (cases "flush_index st < length (queue st)")
    case True
    from Suc.IH [OF flush_round(1) [OF Suc.prems(1) True]] Suc.prems(2) True show ?thesis
      by (simp add: flush_loop.simps [of "Suc f"] Let_def)
  next
    case False
    then show ?thesis using Suc.prems by (simp add: flush_loop.simps [of "Suc f"])
  qed
qed

text \<open>Callbacks that change only what later watchers read, on any data.\<close>

definition forward_callbacks :: "rstate \<Rightarrow> bool" where
  "forward_callbacks st \<longleftrightarrow> (\<forall>w u. run_adds w st u \<longrightarrow> w < u)"

lemma forward_same: "same_program st st' \<Longrightarrow> forward_callbacks st' = forward_callbacks st"
  by (simp add: forward_callbacks_def run_adds_def same_program_def)

text \<open>Then every round runs a watcher with a greater number than the one before, so a flush ends after
  as many rounds as there are watchers.\<close>

lemma flush_loop_ends:
  assumes "flush_ok rest st" and "forward_callbacks st" and "\<forall>w. has st w \<longrightarrow> b < w" and "uid st - b \<le> f"
  shows "\<exists>st' rs. flush_loop f st = Some st' \<and> befores st' = befores st @ rs \<and> sorted_wrt (<) rs
    \<and> (\<forall>w \<in> set rs. b < w) \<and> (\<forall>w. has st w \<longrightarrow> w \<in> set rs)"
  using assms
proof (induction f arbitrary: st b)
  case 0
  then have "\<not> has st w" for w by (fastforce simp: flush_ok_def)
  then have "\<not> flush_index st < length (queue st)" using "0.prems"(1)
    by (metis (no_types, lifting) flush_ok_def Cons_nth_drop_Suc list.set_intros(1))
  then show ?case using \<open>\<And>w. \<not> has st w\<close> by (simp add: flush_loop.simps [of 0])
next
  case (Suc f)
  show ?case
  proof (cases "flush_index st < length (queue st)")
    case False
    then have "\<not> has st w" for w using Suc.prems(1) by (simp add: flush_ok_def)
    then show ?thesis using False by (simp add: flush_loop.simps [of "Suc f"])
  next
    case True
    let ?w = "queue st ! flush_index st"
    let ?st1 = "watcher_run ?w (st\<lparr>befores := befores st @ [?w], has := (has st)(?w := False)\<rparr>)"
    let ?st2 = "?st1\<lparr>flush_index := Suc (flush_index ?st1)\<rparr>"
    note r = flush_round [OF Suc.prems(1) True]
    have d: "drop (flush_index st) (queue st) = ?w # drop (Suc (flush_index st)) (queue st)"
      using True by (simp add: Cons_nth_drop_Suc)
    have w: "has st ?w" and least: "has st u \<Longrightarrow> u \<noteq> ?w \<Longrightarrow> ?w < u" for u
      using Suc.prems(1) d by (auto simp: flush_ok_def le_less)
    have p: "same_program (st\<lparr>befores := befores ?st1\<rparr>) ?st1" by (rule r(3))
    have fw: "forward_callbacks ?st2"
      using Suc.prems(2) forward_same [OF p] by (simp add: forward_callbacks_def run_adds_def)
    have later: "?w < u" if "has ?st2 u" for u
      using r(4) [of u] that least [of u] Suc.prems(2) unfolding forward_callbacks_def by auto
    have "uid ?st2 = uid st" using p by (simp add: same_program_def)
    then have "uid ?st2 - ?w \<le> f" using Suc.prems(3,4) w by fastforce
    from Suc.IH [OF r(1) fw _ this] later obtain st' rs where
      i: "flush_loop f ?st2 = Some st'" "befores st' = befores ?st2 @ rs" "sorted_wrt (<) rs" "\<forall>u \<in> set rs. ?w < u"
        "\<forall>u. has ?st2 u \<longrightarrow> u \<in> set rs"
      by blast
    have keeps: "u \<in> set (?w # rs)" if "has st u" for u
      using i(5) r(5) [OF that] by auto
    have "flush_loop (Suc f) st = Some st'" using i(1) True by (simp add: flush_loop.simps [of "Suc f"] Let_def)
    moreover have "befores st' = befores st @ (?w # rs)" using i(2) r(2) by simp
    moreover have "sorted_wrt (<) (?w # rs)" using i(3,4) by simp
    moreover have "\<forall>u \<in> set (?w # rs). b < u" using i(4) Suc.prems(3) w by fastforce
    ultimately show ?thesis using keeps by blast
  qed
qed

lemma flush_start:
  assumes "reactive_ok (FlushTick # rest) st" and "\<not> flushing st"
  shows "flush_ok rest (st\<lparr>flushing := True, queue := sort (queue st), flush_index := 0\<rparr>)"
  using assms
  by (auto simp: reactive_ok_def flush_ok_def queue_ok_def to_run_def linked_def nothing_missed_def up_to_date_def has_read_def
      split: if_splits)

lemma flush_end:
  assumes "flush_ok rest st" and "drop (flush_index st) (queue st) = []"
  shows "reactive_ok rest (reset_scheduler st)" and "is_active (watchers st w) \<Longrightarrow> up_to_date (reset_scheduler st) w"
proof -
  have h: "\<not> has st w" for w using assms by (simp add: flush_ok_def Let_def)
  then have u: "up_to_date (reset_scheduler st) w" if "is_active (watchers st w)" for w
    using assms that by (auto simp: flush_ok_def nothing_missed_def up_to_date_def reset_scheduler_def)
  then show "is_active (watchers st w) \<Longrightarrow> up_to_date (reset_scheduler st) w" .
  have "nothing_missed (reset_scheduler st)" using u by (simp add: nothing_missed_def reset_scheduler_def)
  then show "reactive_ok rest (reset_scheduler st)"
    using assms by (simp add: reactive_ok_def flush_ok_def queue_ok_def to_run_def linked_def has_read_def reset_scheduler_def Let_def)
qed

text \<open>A flush leaves no active watcher behind.\<close>

lemma flush_queue_ok:
  assumes "reactive_ok (FlushTick # rest) st" and "\<not> flushing st" and "flush_queue f st = Some st'"
  shows "reactive_ok rest st' \<and> \<not> flushing st' \<and> (\<forall>w. is_active (watchers st' w) \<longrightarrow> up_to_date st' w)"
proof -
  obtain st1 where l: "flush_loop f (st\<lparr>flushing := True, queue := sort (queue st), flush_index := 0\<rparr>) = Some st1"
    "st' = reset_scheduler st1"
    using assms(3) by (auto simp: flush_queue_def)
  from flush_loop_ok [OF flush_start [OF assms(1,2)] l(1)] have "flush_ok rest st1" "drop (flush_index st1) (queue st1) = []"
    by simp_all
  from flush_end [OF this] show ?thesis unfolding l(2) by (simp add: reset_scheduler_def)
qed

lemma flush_queue_ends:
  assumes "reactive_ok (FlushTick # rest) st" and "\<not> flushing st" and "forward_callbacks st" and "uid st \<le> f"
  shows "\<exists>st' rs. flush_queue f st = Some st' \<and> befores st' = befores st @ rs \<and> sorted_wrt (<) rs
    \<and> (\<forall>w \<in> set (queue st). w \<in> set rs)"
proof -
  let ?s = "st\<lparr>flushing := True, queue := sort (queue st), flush_index := 0\<rparr>"
  have o': "flush_ok rest ?s" by (rule flush_start [OF assms(1,2)])
  have f: "forward_callbacks ?s" using assms(3) by (simp add: forward_callbacks_def run_adds_def)
  have p: "\<forall>w. has ?s w \<longrightarrow> 0 < w" using assms(1) by (simp add: reactive_ok_def)
  have "uid ?s - 0 \<le> f" using assms(4) by simp
  from flush_loop_ends [OF o' f p this] obtain st' rs where
    "flush_loop f ?s = Some st'" "befores st' = befores st @ rs" "sorted_wrt (<) rs" "\<forall>w. has st w \<longrightarrow> w \<in> set rs"
    by auto
  moreover have "has st w" if "w \<in> set (queue st)" for w using assms(1,2) that by (simp add: reactive_ok_def queue_ok_def to_run_def)
  ultimately show ?thesis by (auto simp: flush_queue_def reset_scheduler_def)
qed

section \<open>Every event\<close>

lemma next_tick_ok: "reactive_ok [] st \<Longrightarrow> reactive_ok [] (next_tick (UserTick g) st)"
  by (auto simp: reactive_ok_def queue_ok_def to_run_def linked_def nothing_missed_def up_to_date_def has_read_def
      next_tick_def Let_def split: if_splits)

lemma run_ticks_ok:
  "reactive_ok ts st \<Longrightarrow> \<not> flushing st \<Longrightarrow> run_ticks f ts st = Some st' \<Longrightarrow> reactive_ok [] st' \<and> \<not> flushing st'"
proof (induction ts arbitrary: st)
  case Nil
  then show ?case by simp
next
  case (Cons t ts)
  from Cons.prems(3) obtain st1 where s: "run_tick f t st = Some st1" "run_ticks f ts st1 = Some st'"
    by (auto simp: bind_eq_Some_conv)
  have "reactive_ok ts st1 \<and> \<not> flushing st1"
  proof (cases t)
    case FlushTick
    then show ?thesis using flush_queue_ok [of ts st f st1] Cons.prems s(1) by simp
  next
    case (UserTick g)
    then have st1: "st1 = set_props (g (rstore st)) st" using s(1) by simp
    have "reactive_ok ts st" using Cons.prems(1) UserTick by (simp add: reactive_ok_def queue_ok_def)
    from set_props_ok [OF this] show ?thesis unfolding st1 using Cons.prems(2) by (simp add: same_run_def)
  qed
  then show ?case using Cons.IH s(2) by blast
qed

lemma flush_callbacks_ok:
  assumes "reactive_ok [] st" and "\<not> flushing st" and "host_jobs st \<noteq> 0" and "flush_callbacks f st = Some st'"
  shows "reactive_ok [] st' \<and> \<not> flushing st'"
proof -
  have "reactive_ok (ticks st) (st\<lparr>host_jobs := host_jobs st - 1, tick_pending := False, ticks := []\<rparr>)"
    using assms(1-3)
    by (auto simp: reactive_ok_def queue_ok_def to_run_def linked_def nothing_missed_def up_to_date_def has_read_def split: if_splits)
  from run_ticks_ok [OF this _ assms(4) [unfolded flush_callbacks_def]] assms(2) show ?thesis by simp
qed

lemma teardown_ok:
  assumes "reactive_ok [] st"
  shows "reactive_ok [] (teardown w st) \<and> flushing (teardown w st) = flushing st"
proof (cases "is_active (watchers st w)")
  case False
  then show ?thesis using assms by (simp add: teardown_def)
next
  case True
  let ?x = "watchers st w"
  let ?S = "\<lambda>d. fold (\<lambda>e q. if False \<or> e \<noteq> d then q else remove1 w q) (rev (deps ?x)) (subs st d)"
  let ?st' = "st\<lparr>subs := ?S, watchers := (watchers st)(w := ?x\<lparr>is_active := False\<rparr>)\<rparr>"
  have e: "teardown w st = ?st'"
    using True remove_subs [of "\<lambda>_. False" w "rev (deps ?x)" st] by (simp add: teardown_def set_watcher_def Let_def)
  have l: "linked st" using assms by (simp add: reactive_ok_def)
  then have d: "distinct (subs st d)" and s: "set (subs st d) = {u. is_active (watchers st u) \<and> d \<in> set (deps (watchers st u))}" for d
    by (simp_all add: linked_def)
  have r: "distinct (?S d) \<and> set (?S d) = set (subs st d) - (if d \<in> set (deps ?x) then {w} else {})" for d
    using remove_subs_list [OF d, where P = "\<lambda>_. False" and ds = "rev (deps ?x)"] by simp
  have "set (?S d) = {u. is_active (watchers ?st' u) \<and> d \<in> set (deps (watchers ?st' u))}" for d
    unfolding r [THEN conjunct2] s by auto
  then have "linked ?st'" using l r unfolding linked_def by (auto simp: clean_def)
  moreover have "nothing_missed ?st'" using assms by (auto simp: reactive_ok_def nothing_missed_def up_to_date_def)
  moreover have "has_read ?st'" using assms by (auto simp: reactive_ok_def has_read_def)
  ultimately show ?thesis unfolding e using assms by (simp add: reactive_ok_def queue_ok_watchers)
qed

lemma new_watcher_ok:
  assumes "reactive_ok [] st"
  shows "reactive_ok [] (new_watcher r c st) \<and> flushing (new_watcher r c st) = flushing st"
proof -
  let ?w = "Suc (uid st)"
  let ?x = "\<lparr>getter = r, cb = c, value_of = VUndefined, is_active = True, deps = [], new_deps = [], dep_ids = {}, new_dep_ids = {}\<rparr>"
  let ?s = "st\<lparr>uid := ?w, watchers := (watchers st)(?w := ?x)\<rparr>"
  have l: "linked st" using assms by (simp add: reactive_ok_def)
  then have "\<not> is_active (watchers st ?w)" by (auto simp: linked_def)
  then have ls: "linked ?s" using l by (auto simp: linked_def clean_def)
  have a: "is_active (watchers ?s ?w)" by simp
  from watcher_get_spec [OF ls a] obtain S ds where
    g: "watcher_get ?w ?s = (r_eval r (rstore st), ?s\<lparr>subs := S, drawn := (drawn st)(?w := drawn st ?w @ [rstore st]),
        watchers := (watchers ?s)(?w := ?x\<lparr>deps := ds, dep_ids := set ds\<rparr>)\<rparr>)"
    and ds: "set ds = set (r_reads r (rstore st))" and l1: "linked (snd (watcher_get ?w ?s))"
    by auto
  let ?v = "r_eval r (rstore st)"
  let ?st' = "st\<lparr>uid := ?w, subs := S, drawn := (drawn st)(?w := drawn st ?w @ [rstore st]),
        watchers := (watchers st)(?w := ?x\<lparr>deps := ds, dep_ids := set ds, value_of := ?v\<rparr>)\<rparr>"
  have e: "new_watcher r c st = ?st'"
    using g by (simp add: new_watcher_def set_watcher_def)
  have l1': "linked (?s\<lparr>subs := S, drawn := (drawn st)(?w := drawn st ?w @ [rstore st]),
        watchers := (watchers ?s)(?w := ?x\<lparr>deps := ds, dep_ids := set ds\<rparr>)\<rparr>)"
    using l1 unfolding g by (simp only: snd_conv)
  have "linked ?st'" using linked_value [OF l1', of ?w ?v] by simp
  moreover have "nothing_missed ?st'" using assms ds by (auto simp: reactive_ok_def nothing_missed_def up_to_date_def)
  moreover have "has_read ?st'" using assms ds by (auto simp: reactive_ok_def has_read_def)
  moreover have "queue_ok [] ?st'" using assms by (simp add: reactive_ok_def queue_ok_new)
  ultimately show ?thesis unfolding e using assms by (simp add: reactive_ok_def le_SucI)
qed

lemma revent_step_ok:
  assumes "reactive_ok [] st" and "\<not> flushing st" and "revent_step f ev st = Some st'"
  shows "reactive_ok [] st' \<and> \<not> flushing st'"
proof (cases ev)
  case (Assign d v)
  then show ?thesis using assms set_prop_ok(1,2) [OF assms(1), of d v] by (simp add: same_run_def)
next
  case (Watch r c)
  then show ?thesis using assms new_watcher_ok [OF assms(1)] by auto
next
  case (Unwatch w)
  then show ?thesis using assms teardown_ok [OF assms(1)] by auto
next
  case (NextTick g)
  then show ?thesis using assms next_tick_ok next_tick_same(1) [of st "UserTick g"] by (auto simp: same_data_def)
next
  case HostJob
  then show ?thesis using assms flush_callbacks_ok [OF assms(1,2)] by (auto split: if_splits)
qed

lemma reactive_init_ok: "reactive_ok [] (reactive_init s) \<and> \<not> flushing (reactive_init s)"
  by (simp add: reactive_init_def reactive_ok_def linked_def clean_def no_watcher_def queue_ok_def to_run_def nothing_missed_def
      has_read_def)

lemma revent_run_ok:
  "reactive_ok [] st \<Longrightarrow> \<not> flushing st \<Longrightarrow> revent_run f es st = Some st' \<Longrightarrow> reactive_ok [] st' \<and> \<not> flushing st'"
proof (induction es arbitrary: st)
  case Nil
  then show ?case by simp
next
  case (Cons ev es)
  then obtain st1 where "revent_step f ev st = Some st1" "revent_run f es st1 = Some st'" by (auto simp: bind_eq_Some_conv)
  with Cons.IH revent_step_ok [OF Cons.prems(1,2)] show ?case by blast
qed

lemma quiet:
  assumes "reactive_ok [] st" and "\<not> flushing st" and "host_jobs st = 0"
  shows "\<not> has st w"
proof -
  have "ticks st = []" using assms by (auto simp: reactive_ok_def queue_ok_def split: if_splits)
  then have "\<not> flush_waiting st" using assms by (auto simp: reactive_ok_def queue_ok_def split: if_splits)
  then have "queue st = []" using assms by (simp add: reactive_ok_def queue_ok_def)
  then show ?thesis using assms by (simp add: reactive_ok_def queue_ok_def to_run_def)
qed

section \<open>Ends and loops\<close>

lemma set_props_befores: "befores (set_props ps st) = befores st"
proof -
  have "befores (queue_watcher w st) = befores st" for w st by (simp add: queue_watcher_def next_tick_def Let_def)
  then have "befores (fold queue_watcher us st) = befores st" for us st by (induction us arbitrary: st) simp_all
  then have "befores (set_prop d v st) = befores st" for d v st by (simp add: set_prop_def notify_subs_def)
  then show ?thesis by (induction ps arbitrary: st) (auto simp: set_props_def)
qed

lemma run_user_ticks: "flush_count ts = 0 \<Longrightarrow> \<exists>st'. run_ticks f ts st = Some st' \<and> befores st' = befores st"
proof (induction ts arbitrary: st)
  case (Cons t ts)
  show ?case
  proof (cases t)
    case (UserTick g)
    then show ?thesis using Cons.IH [of "set_props (g (rstore st)) st"] Cons.prems by (simp add: set_props_befores)
  qed (use Cons.prems in simp)
qed simp

text \<open>With callbacks that go forward only, the host's job ends after as many rounds as there are
  watchers, and runs the queued watchers in order.\<close>

lemma run_ticks_ends:
  "reactive_ok ts st \<Longrightarrow> \<not> flushing st \<Longrightarrow> forward_callbacks st \<Longrightarrow> uid st \<le> f \<Longrightarrow>
     \<exists>st' rs. run_ticks f ts st = Some st' \<and> befores st' = befores st @ rs \<and> sorted_wrt (<) rs
       \<and> (flush_count ts \<noteq> 0 \<longrightarrow> (\<forall>w. has st w \<longrightarrow> w \<in> set rs))"
proof (induction ts arbitrary: st)
  case Nil
  then show ?case by simp
next
  case (Cons t ts)
  show ?case
  proof (cases t)
    case FlushTick
    have "flush_count ts = 0"
      using Cons.prems(1) FlushTick by (auto simp: reactive_ok_def queue_ok_def split: if_splits)
    moreover obtain st1 rs where "flush_queue f st = Some st1" "befores st1 = befores st @ rs" "sorted_wrt (<) rs"
      "\<forall>w \<in> set (queue st). w \<in> set rs"
      using flush_queue_ends [of ts st f] Cons.prems FlushTick by blast
    moreover have "w \<in> set (queue st)" if "has st w" for w
      using Cons.prems(1,2) that by (simp add: reactive_ok_def queue_ok_def to_run_def)
    ultimately show ?thesis using run_user_ticks [of ts f st1] FlushTick by auto
  next
    case (UserTick g)
    have r: "reactive_ok ts st" using Cons.prems(1) UserTick by (simp add: reactive_ok_def queue_ok_def)
    let ?s = "set_props (g (rstore st)) st"
    have p: "reactive_ok ts ?s" "same_run st ?s" using set_props_ok [OF r] by simp_all
    have "forward_callbacks ?s" using Cons.prems(3) forward_same same_program_run [OF same_program_refl p(2)] by blast
    with Cons.IH [OF p(1)] p(2) Cons.prems(2,4) UserTick set_props_befores show ?thesis by (simp add: same_run_def) metis
  qed
qed

lemma host_job_ends:
  assumes "reactive_ok [] st" and "\<not> flushing st" and "forward_callbacks st"
  shows "\<exists>st' rs. revent_step (uid st) HostJob st = Some st' \<and> befores st' = befores st @ rs \<and> sorted_wrt (<) rs
    \<and> (\<forall>w \<in> set (queue st). w \<in> set rs)"
proof (cases "host_jobs st = 0")
  case True
  then have "\<not> has st w" for w using quiet assms by blast
  then have "set (queue st) = {}" using assms by (auto simp: reactive_ok_def queue_ok_def to_run_def)
  then show ?thesis using True by simp
next
  case False
  let ?s = "st\<lparr>host_jobs := host_jobs st - 1, tick_pending := False, ticks := []\<rparr>"
  have "reactive_ok (ticks st) ?s"
    using assms(1,2) False
    by (auto simp: reactive_ok_def queue_ok_def to_run_def linked_def nothing_missed_def up_to_date_def has_read_def split: if_splits)
  moreover have "forward_callbacks ?s" using assms(3) by (simp add: forward_callbacks_def run_adds_def)
  ultimately obtain st' rs where r: "run_ticks (uid st) (ticks st) ?s = Some st'" "befores st' = befores st @ rs" "sorted_wrt (<) rs"
    "flush_count (ticks st) \<noteq> 0 \<longrightarrow> (\<forall>w. has st w \<longrightarrow> w \<in> set rs)"
    using run_ticks_ends [of "ticks st" ?s "uid st"] assms(2) by auto
  have "has st w \<and> flush_count (ticks st) \<noteq> 0" if "w \<in> set (queue st)" for w
    using assms(1,2) that by (auto simp: reactive_ok_def queue_ok_def to_run_def)
  then show ?thesis using r False by (auto simp: flush_callbacks_def)
qed

text \<open>A callback that changes what its own watcher reads: every round asks for another one.\<close>

definition bump :: "data \<Rightarrow> vval \<Rightarrow> vval \<Rightarrow> writes" where
  "bump s e t = (case e of VNum n \<Rightarrow> [(0, VNum (n + 1))] | _ \<Rightarrow> [])"

definition chasing :: "int \<Rightarrow> int \<Rightarrow> rstate \<Rightarrow> bool" where
  "chasing a b st \<longleftrightarrow>
     watchers st 1 = \<lparr>getter = Read 0 Give, cb = bump, value_of = VNum a, is_active = True, deps = [0], new_deps = [],
       dep_ids = {0}, new_dep_ids = {}\<rparr>
     \<and> rstore st 0 = VNum b \<and> subs st 0 = [1] \<and> targets st = [] \<and> dep_target st = None
     \<and> flushing st \<and> flush_waiting st \<and> queue st \<noteq> [] \<and> flush_index st = length (queue st) - 1
     \<and> queue st ! (length (queue st) - 1) = 1"

lemma queue_slot_end: "queue_slot q n w n = n"
  by (cases n) simp_all

lemma chasing_round:
  assumes c: "chasing a b st" and "a \<noteq> b"
  defines "s \<equiv> st\<lparr>befores := befores st @ [1], has := (has st)(1 := False)\<rparr>"
  shows "chasing b (b + 1) (watcher_run 1 s\<lparr>flush_index := Suc (flush_index (watcher_run 1 s))\<rparr>)"
proof -
  let ?x = "\<lparr>getter = Read 0 Give, cb = bump, value_of = VNum a, is_active = True, deps = [0], new_deps = [],
       dep_ids = {0}, new_dep_ids = {}\<rparr>"
  let ?D = "(drawn s)(1 := drawn s 1 @ [rstore s])"
  have x: "watchers s 1 = ?x" "rstore s 0 = VNum b" "subs s 0 = [1]" "targets s = []" "dep_target s = None" "flushing s"
    "flush_waiting s" "\<not> has s 1" "queue s \<noteq> []" "flush_index s = length (queue s) - 1" "queue s ! (length (queue s) - 1) = 1"
    using c by (simp_all add: chasing_def s_def)
  have "watcher_get 1 s = (VNum b, s\<lparr>drawn := ?D, watchers := (watchers s)(1 := ?x)\<rparr>)"
    using x by (simp add: watcher_get_def push_target_def pop_target_def depend_def add_dep_def set_watcher_def cleanup_deps_def Let_def)
  then have "watcher_run 1 s = set_prop 0 (VNum (b + 1)) (s\<lparr>drawn := ?D, watchers := (watchers s)(1 := ?x\<lparr>value_of := VNum b\<rparr>)\<rparr>)"
    using x assms(2) by (simp add: watcher_run_def set_watcher_def bump_def set_props_def)
  also have "\<dots> = s\<lparr>drawn := ?D, watchers := (watchers s)(1 := ?x\<lparr>value_of := VNum b\<rparr>), rstore := (rstore s)(0 := VNum (b + 1)),
      has := (has s)(1 := True), queue := queue s @ [1]\<rparr>"
    using x queue_slot_end [of "queue s" "length (queue s) - 1" 1] by (simp add: set_prop_def notify_subs_def queue_watcher_def Let_def)
  finally have e: "watcher_run 1 s = s\<lparr>drawn := ?D, watchers := (watchers s)(1 := ?x\<lparr>value_of := VNum b\<rparr>), rstore := (rstore s)(0 := VNum (b + 1)),
      has := (has s)(1 := True), queue := queue s @ [1]\<rparr>" .
  show ?thesis unfolding e using x by (simp add: chasing_def nth_append)
qed

lemma chasing_for_ever: "chasing a b st \<Longrightarrow> a \<noteq> b \<Longrightarrow> flush_loop f st = None"
proof (induction f arbitrary: a b st)
  case 0
  then show ?case by (simp add: flush_loop.simps [of 0] chasing_def)
next
  case (Suc f)
  from Suc.IH [OF chasing_round [OF Suc.prems]] have
    "flush_loop f (watcher_run 1 (st\<lparr>befores := befores st @ [1], has := (has st)(1 := False)\<rparr>)
      \<lparr>flush_index := Suc (flush_index (watcher_run 1 (st\<lparr>befores := befores st @ [1], has := (has st)(1 := False)\<rparr>)))\<rparr>) = None"
    by simp
  moreover have "flush_index st < length (queue st)" "queue st ! flush_index st = 1"
    using Suc.prems(1) by (simp_all add: chasing_def)
  ultimately show ?case by (simp add: flush_loop.simps [of "Suc f"] Let_def)
qed

lemma chasing_start: "revent_run g [Watch (Read 0 Give) bump, Assign 0 (VNum 1), HostJob] (reactive_init (\<lambda>_. VNum 0)) = None"
proof -
  let ?x = "\<lparr>getter = Read 0 Give, cb = bump, value_of = VNum 0, is_active = True, deps = [0], new_deps = [], dep_ids = {0}, new_dep_ids = {}\<rparr>"
  let ?st = "(reactive_init (\<lambda>_. VNum 0))\<lparr>uid := 1, drawn := (\<lambda>_. [])(1 := [\<lambda>_. VNum 0]), watchers := (\<lambda>_. no_watcher)(1 := ?x), subs := (\<lambda>_. [])(0 := [1])\<rparr>"
  let ?st1 = "?st\<lparr>rstore := (\<lambda>_. VNum 0)(0 := VNum 1), has := (\<lambda>_. False)(1 := True), queue := [1], flush_waiting := True,
    ticks := [FlushTick], tick_pending := True, host_jobs := 1\<rparr>"
  have w: "new_watcher (Read 0 Give) bump (reactive_init (\<lambda>_. VNum 0)) = ?st"
    by (simp add: new_watcher_def reactive_init_def watcher_get_def push_target_def pop_target_def depend_def add_dep_def add_sub_def
        set_watcher_def cleanup_deps_def Let_def)
  have a: "set_prop 0 (VNum 1) ?st = ?st1"
    by (simp add: set_prop_def notify_subs_def queue_watcher_def next_tick_def reactive_init_def Let_def)
  let ?s = "?st1\<lparr>host_jobs := 0, tick_pending := False, ticks := [], flushing := True, queue := [1], flush_index := 0\<rparr>"
  have "chasing 0 1 ?s" by (simp add: chasing_def reactive_init_def)
  from chasing_for_ever [OF this, of g] have "flush_loop g ?s = None" by simp
  then show ?thesis by (simp add: w a flush_callbacks_def flush_queue_def del: One_nat_def)
qed

end
