(* ===== verification/VuePage.thy ===== *)
theory VuePage
  imports VueRender VueFlush
begin

text \<open>
  Reactive data and the patch together: the screen of a component is what its element has become by
  the updates that its watcher's runs have made (\<open>updateComponent\<close> of \<open>mountComponent\<close>, module \<open>2b0e\<close> of
  \<open>chunk-vendors.ddcb6f91.js\<close>).
\<close>

text \<open>A run of the watcher renders on the present data and updates; \<open>vw\<close> is where the component is
  mounted.\<close>

definition screen :: "unit vnode reader \<Rightarrow> nat \<Rightarrow> rstate \<Rightarrow> view \<Rightarrow> view option" where
  "screen r w st vw = vue_updates (map (r_eval r) (drawn st w)) vw"

lemma drawn_on_present_data:
  assumes "reactive_ok [] st" and "up_to_date st w" and "is_active (watchers st w)"
    and "getter (watchers st w) = component_getter r"
  shows "drawn st w \<noteq> [] \<and> r_eval r (last (drawn st w)) = r_eval r (rstore st)"
proof -
  let ?s = "last (drawn st w)"
  have h: "drawn st w \<noteq> []" "set (deps (watchers st w)) = set (r_reads r ?s)"
    using assms(1,3,4) by (simp_all add: reactive_ok_def has_read_def component_reads)
  then have "\<forall>d \<in> set (r_reads r ?s). rstore st d = ?s d" using assms(2) by (simp add: up_to_date_def)
  from r_eval_same [OF this] h(1) show ?thesis by simp
qed

lemma screen_shows:
  assumes "reactive_ok [] st" and "up_to_date st w" and "is_active (watchers st w)"
    and "getter (watchers st w) = component_getter r" and "\<And>s. wf_vnode (r_eval r s)" and "view_ok X Y None vw"
  shows "\<exists>vw'. screen r w st vw = Some vw' \<and> view_ok X Y (Some (r_eval r (rstore st))) vw'"
proof -
  note d = drawn_on_present_data [OF assms(1-4)]
  have "list_all wf_vnode (map (r_eval r) (drawn st w))" using assms(5) by (simp add: list_all_iff)
  from vue_updates_ok [OF assms(6) this] d show ?thesis by (auto simp: screen_def last_map)
qed

end
