(* ===== verification/VueObserver.thy ===== *)
theory VueObserver
  imports Prelude
begin

text \<open>
  Observation of nested data in Vue 2.6 (\<open>chunk-vendors.ddcb6f91.js\<close>, module \<open>2b0e\<close>): \<open>Observer\<close> (\<open>Te\<close>) with
  \<open>walk\<close> and \<open>observeArray\<close>, \<open>observe\<close> (\<open>Ie\<close>), \<open>defineReactive\<close> (\<open>Ne\<close>) with its getter and setter,
  \<open>dependArray\<close> (\<open>Fe\<close>), the intercepted methods of arrays (\<open>Oe\<close>), \<open>Vue.set\<close> (\<open>je\<close>) and \<open>Vue.delete\<close>
  (\<open>Ae\<close>). Objects and arrays are cells with addresses; a \<open>Dep\<close> is a number. A read says on which it
  depends, a write which it notifies. What a render function reads, through the getters, is never
  changed by a write of these kinds without a \<open>Dep\<close> of that read being notified; a write to an array by
  index, or to a property that is not there yet, can go unnoticed. \<open>VueReactive\<close> has what a
  notification leads to.
\<close>

section \<open>Cells\<close>

datatype oval = OUndef | ONull | OBool bool | ONum int | OText string | ORef nat

text \<open>A property, under a name that \<open>Object.prototype\<close> lacks: its value, its \<open>Dep\<close> once it is reactive, and the \<open>Dep\<close> of \<open>childOb\<close>.\<close>

record oprop =
  pv :: oval
  pd :: "nat option"
  pc :: "nat option"

text \<open>A cell with the \<open>Dep\<close> of its \<open>__ob__\<close>, if it has one.\<close>

datatype ocell = OObj "oprop obj" (cell_ob: "nat option") | OArr "oval list" (cell_ob: "nat option")

text \<open>\<open>vm_roots\<close> are the observers with a \<open>vmCount\<close>: the data of components.\<close>

record ostate =
  cells :: "nat \<Rightarrow> ocell option"
  next_dep :: nat
  vm_roots :: "nat set"
  told :: "nat list"

definition ob_of :: "ostate \<Rightarrow> oval \<Rightarrow> nat option" where
  "ob_of st v = (case v of ORef a \<Rightarrow> (case cells st a of Some c \<Rightarrow> cell_ob c | None \<Rightarrow> None) | _ \<Rightarrow> None)"

definition prop_at :: "ostate \<Rightarrow> nat \<Rightarrow> string \<Rightarrow> oprop option" where
  "prop_at st a k = (case cells st a of Some (OObj ps d) \<Rightarrow> oget ps k | _ \<Rightarrow> None)"

definition items_of :: "ostate \<Rightarrow> oval \<Rightarrow> oval list option" where
  "items_of st v = (case v of ORef a \<Rightarrow> (case cells st a of Some (OArr xs d) \<Rightarrow> Some xs | _ \<Rightarrow> None) | _ \<Rightarrow> None)"

definition put_prop :: "nat \<Rightarrow> string \<Rightarrow> oprop \<Rightarrow> ostate \<Rightarrow> ostate" where
  "put_prop a k p st =
     (case cells st a of Some (OObj ps d) \<Rightarrow> st\<lparr>cells := (cells st)(a \<mapsto> OObj (oset k p ps) d)\<rparr> | _ \<Rightarrow> st)"

definition put_items :: "nat \<Rightarrow> oval list \<Rightarrow> ostate \<Rightarrow> ostate" where
  "put_items a xs st =
     (case cells st a of Some (OArr ys d) \<Rightarrow> st\<lparr>cells := (cells st)(a \<mapsto> OArr xs d)\<rparr> | _ \<Rightarrow> st)"

definition notify_dep :: "nat \<Rightarrow> ostate \<Rightarrow> ostate" where
  "notify_dep d st = st\<lparr>told := told st @ [d]\<rparr>"

section \<open>Observing\<close>

primrec foldo :: "('a \<Rightarrow> 's \<Rightarrow> 's option) \<Rightarrow> 'a list \<Rightarrow> 's \<Rightarrow> 's option" where
  "foldo g [] st = Some st"
| "foldo g (x # xs) st = Option.bind (g x st) (foldo g xs)"

definition unobserved :: "ostate \<Rightarrow> oval \<Rightarrow> nat option" where
  "unobserved st v =
     (case v of ORef a \<Rightarrow> (case cells st a of Some c \<Rightarrow> if cell_ob c = None then Some a else None | None \<Rightarrow> None) | _ \<Rightarrow> None)"

text \<open>The constructor of \<open>Te\<close> as far as \<open>q(e, "__ob__", this)\<close>.\<close>

definition give_ob :: "nat \<Rightarrow> ostate \<Rightarrow> ostate" where
  "give_ob a st =
     (case cells st a of
        None \<Rightarrow> st
      | Some c \<Rightarrow>
          st\<lparr>cells := (cells st)(a \<mapsto> (case c of OObj ps d \<Rightarrow> OObj ps (Some (next_dep st)) | OArr xs d \<Rightarrow> OArr xs (Some (next_dep st)))),
             next_dep := Suc (next_dep st)\<rparr>)"

text \<open>\<open>Ne(e, t)\<close>, for a function that observes the value.\<close>

definition define_reactive :: "(oval \<Rightarrow> ostate \<Rightarrow> ostate option) \<Rightarrow> nat \<Rightarrow> string \<Rightarrow> ostate \<Rightarrow> ostate option" where
  "define_reactive g a k st =
     (case prop_at st a k of
        None \<Rightarrow> Some st
      | Some p \<Rightarrow>
          map_option (\<lambda>st2. put_prop a k \<lparr>pv = pv p, pd = Some (next_dep st), pc = ob_of st2 (pv p)\<rparr> st2)
            (g (pv p) (st\<lparr>next_dep := Suc (next_dep st)\<rparr>)))"

text \<open>\<open>Ie(e)\<close>. The number bounds the depth of the calls; \<open>None\<close> is an overflow.\<close>

primrec observe :: "nat \<Rightarrow> oval \<Rightarrow> ostate \<Rightarrow> ostate option" where
  "observe 0 = (\<lambda>v st. if unobserved st v = None then Some st else None)"
| "observe (Suc f) =
     (\<lambda>v st.
        case unobserved st v of
          None \<Rightarrow> Some st
        | Some a \<Rightarrow>
            (case cells st a of
               Some (OArr xs d) \<Rightarrow> foldo (observe f) xs (give_ob a st)
             | Some (OObj ps d) \<Rightarrow> foldo (define_reactive (observe f) a) (okeys ps) (give_ob a st)
             | None \<Rightarrow> Some st))"

section \<open>Writes\<close>

text \<open>The setter of \<open>Ne\<close>, and a plain assignment where there is none.\<close>

definition assign_prop :: "nat \<Rightarrow> nat \<Rightarrow> string \<Rightarrow> oval \<Rightarrow> ostate \<Rightarrow> ostate option" where
  "assign_prop f a k v st =
     (case prop_at st a k of
        None \<Rightarrow> Some (put_prop a k \<lparr>pv = v, pd = None, pc = None\<rparr> st)
      | Some p \<Rightarrow>
          (case pd p of
             None \<Rightarrow> Some (put_prop a k (p\<lparr>pv := v\<rparr>) st)
           | Some d \<Rightarrow>
               if v = pv p then Some st
               else map_option (\<lambda>st2. notify_dep d (put_prop a k (p\<lparr>pv := v, pc := ob_of st2 v\<rparr>) st2))
                      (observe f v (put_prop a k (p\<lparr>pv := v\<rparr>) st))))"

text \<open>The methods of arrays: what they leave, and what they insert. The arguments of \<open>splice\<close> are those
  after the conversions of module \<open>a434\<close>; a comparison of \<open>sort\<close> is one of keys.\<close>

datatype mutator =
    Push "oval list" | Pop | Shift | Unshift "oval list" | Splice nat nat "oval list" | SortBy "oval \<Rightarrow> int" | Reverse

fun mutated :: "mutator \<Rightarrow> oval list \<Rightarrow> oval list" where
  "mutated (Push ys) xs = xs @ ys"
| "mutated Pop xs = butlast xs"
| "mutated Shift xs = tl xs"
| "mutated (Unshift ys) xs = ys @ xs"
| "mutated (Splice s n ys) xs = take s xs @ ys @ drop (s + n) xs"
| "mutated (SortBy g) xs = sort_key g xs"
| "mutated Reverse xs = rev xs"

fun inserted :: "mutator \<Rightarrow> oval list" where
  "inserted (Push ys) = ys"
| "inserted (Unshift ys) = ys"
| "inserted (Splice s n ys) = ys"
| "inserted _ = []"

text \<open>\<open>Oe\<close>: the methods of an observed array.\<close>

definition mutate_array :: "nat \<Rightarrow> nat \<Rightarrow> mutator \<Rightarrow> ostate \<Rightarrow> ostate option" where
  "mutate_array f a m st =
     (case cells st a of
        Some (OArr xs ob) \<Rightarrow>
          (case ob of
             None \<Rightarrow> Some (put_items a (mutated m xs) st)
           | Some d \<Rightarrow> map_option (notify_dep d) (foldo (observe f) (inserted m) (put_items a (mutated m xs) st)))
      | _ \<Rightarrow> Some st)"

text \<open>\<open>je(e, t, n)\<close> for an object and for an array, \<open>Ae(e, t)\<close>, and a write to an array by its index, which
  has no setter.\<close>

definition vue_set :: "nat \<Rightarrow> nat \<Rightarrow> string \<Rightarrow> oval \<Rightarrow> ostate \<Rightarrow> ostate option" where
  "vue_set f a k v st =
     (if prop_at st a k \<noteq> None then assign_prop f a k v st
      else if a \<in> vm_roots st then Some st
      else
        (case ob_of st (ORef a) of
           None \<Rightarrow> assign_prop f a k v st
         | Some d \<Rightarrow>
             map_option (notify_dep d)
               (define_reactive (observe f) a k (put_prop a k \<lparr>pv = v, pd = None, pc = None\<rparr> st))))"

definition vue_set_item :: "nat \<Rightarrow> nat \<Rightarrow> nat \<Rightarrow> oval \<Rightarrow> ostate \<Rightarrow> ostate option" where
  "vue_set_item f a i v st =
     (case items_of st (ORef a) of
        None \<Rightarrow> Some st
      | Some xs \<Rightarrow> mutate_array f a (Splice i 1 [v]) (put_items a (xs @ replicate (i - length xs) OUndef) st))"

definition vue_delete :: "nat \<Rightarrow> string \<Rightarrow> ostate \<Rightarrow> ostate" where
  "vue_delete a k st =
     (if a \<in> vm_roots st then st
      else
        (case cells st a of
           Some (OObj ps ob) \<Rightarrow>
             if oget ps k = None then st
             else
               (let st1 = st\<lparr>cells := (cells st)(a \<mapsto> OObj (odel k ps) ob)\<rparr>
                in case ob of None \<Rightarrow> st1 | Some d \<Rightarrow> notify_dep d st1)
         | _ \<Rightarrow> st))"

definition write_item :: "nat \<Rightarrow> nat \<Rightarrow> oval \<Rightarrow> ostate \<Rightarrow> ostate" where
  "write_item a i v st =
     (case items_of st (ORef a) of
        None \<Rightarrow> st
      | Some xs \<Rightarrow> put_items a ((xs @ replicate (Suc i - length xs) OUndef)[i := v]) st)"

datatype owrite =
    OAssign nat string oval
  | OMutate nat mutator
  | OVueSet nat string oval
  | OVueSetItem nat nat oval
  | OVueDelete nat string
  | OWriteItem nat nat oval

fun owrite_step :: "nat \<Rightarrow> owrite \<Rightarrow> ostate \<Rightarrow> ostate option" where
  "owrite_step f (OAssign a k v) st = assign_prop f a k v st"
| "owrite_step f (OMutate a m) st = mutate_array f a m st"
| "owrite_step f (OVueSet a k v) st = vue_set f a k v st"
| "owrite_step f (OVueSetItem a i v) st = vue_set_item f a i v st"
| "owrite_step f (OVueDelete a k) st = Some (vue_delete a k st)"
| "owrite_step f (OWriteItem a i v) st = Some (write_item a i v st)"

section \<open>Reads\<close>

text \<open>What a render function does: it reads properties, items and lengths, and gives a result.\<close>

datatype 'a oreader =
    ODone 'a
  | OGet nat string "oval \<Rightarrow> 'a oreader"
  | OItem nat nat "oval \<Rightarrow> 'a oreader"
  | OLength nat "nat \<Rightarrow> 'a oreader"

definition item_at :: "ostate \<Rightarrow> nat \<Rightarrow> nat \<Rightarrow> oval" where
  "item_at st a i = (case items_of st (ORef a) of Some xs \<Rightarrow> if i < length xs then xs ! i else OUndef | None \<Rightarrow> OUndef)"

definition length_at :: "ostate \<Rightarrow> nat \<Rightarrow> nat" where
  "length_at st a = (case items_of st (ORef a) of Some xs \<Rightarrow> length xs | None \<Rightarrow> 0)"

text \<open>\<open>Fe\<close>: the observers of the items, and of the items of arrays among them; arrays that contain
  themselves overflow.\<close>

primrec array_deps :: "nat \<Rightarrow> ostate \<Rightarrow> oval list \<Rightarrow> nat list option" where
  "array_deps 0 st = (\<lambda>xs. None)"
| "array_deps (Suc f) st =
     (\<lambda>xs. map_option concat (those (map (\<lambda>x.
        map_option ((@) (case ob_of st x of None \<Rightarrow> [] | Some d \<Rightarrow> [d]))
          (case items_of st x of None \<Rightarrow> Some [] | Some ys \<Rightarrow> array_deps f st ys)) xs)))"

text \<open>The getter of \<open>Ne\<close>, with a target: what it depends on.\<close>

definition getter_deps :: "nat \<Rightarrow> ostate \<Rightarrow> oprop \<Rightarrow> nat list option" where
  "getter_deps f st p =
     (case pd p of
        None \<Rightarrow> Some []
      | Some d \<Rightarrow>
          (case pc p of
             None \<Rightarrow> Some [d]
           | Some c \<Rightarrow>
               (case items_of st (pv p) of
                  None \<Rightarrow> Some [d, c]
                | Some xs \<Rightarrow> map_option (\<lambda>ds. d # c # ds) (array_deps f st xs))))"

primrec run_oreader :: "nat \<Rightarrow> 'a oreader \<Rightarrow> ostate \<Rightarrow> ('a \<times> nat list) option" where
  "run_oreader f (ODone x) = (\<lambda>st. Some (x, []))"
| "run_oreader f (OGet a k r) =
     (\<lambda>st. case prop_at st a k of
        None \<Rightarrow> run_oreader f (r OUndef) st
      | Some p \<Rightarrow>
          (case getter_deps f st p of
             None \<Rightarrow> None
           | Some ds \<Rightarrow> map_option (apsnd ((@) ds)) (run_oreader f (r (pv p)) st)))"
| "run_oreader f (OItem a i r) = (\<lambda>st. run_oreader f (r (item_at st a i)) st)"
| "run_oreader f (OLength a r) = (\<lambda>st. run_oreader f (r (length_at st a)) st)"

text \<open>The result alone.\<close>

definition value_at :: "ostate \<Rightarrow> nat \<Rightarrow> string \<Rightarrow> oval" where
  "value_at st a k = (case prop_at st a k of None \<Rightarrow> OUndef | Some p \<Rightarrow> pv p)"

primrec o_eval :: "'a oreader \<Rightarrow> ostate \<Rightarrow> 'a" where
  "o_eval (ODone x) = (\<lambda>st. x)"
| "o_eval (OGet a k r) = (\<lambda>st. o_eval (r (value_at st a k)) st)"
| "o_eval (OItem a i r) = (\<lambda>st. o_eval (r (item_at st a i)) st)"
| "o_eval (OLength a r) = (\<lambda>st. o_eval (r (length_at st a)) st)"

text \<open>The reader starts from some cells, and goes on to those it has been given.\<close>

fun refs_of :: "oval \<Rightarrow> nat set" where
  "refs_of (ORef a) = {a}"
| "refs_of _ = {}"

primrec in_scope :: "'a oreader \<Rightarrow> nat set \<Rightarrow> ostate \<Rightarrow> bool" where
  "in_scope (ODone x) = (\<lambda>K st. True)"
| "in_scope (OGet a k r) = (\<lambda>K st. a \<in> K \<and> in_scope (r (value_at st a k)) (K \<union> refs_of (value_at st a k)) st)"
| "in_scope (OItem a i r) = (\<lambda>K st. a \<in> K \<and> in_scope (r (item_at st a i)) (K \<union> refs_of (item_at st a i)) st)"
| "in_scope (OLength a r) = (\<lambda>K st. a \<in> K \<and> in_scope (r (length_at st a)) K st)"

section \<open>What observing does\<close>

text \<open>It changes no value, and nothing of what has been observed but the cells in \<open>A\<close>, which it is at
  work on.\<close>

definition observes :: "nat set \<Rightarrow> ostate \<Rightarrow> ostate \<Rightarrow> bool" where
  "observes A st st' \<longleftrightarrow>
     (\<forall>v. unobserved st v = None \<longrightarrow> ob_of st' v = ob_of st v \<and> unobserved st' v = None)
     \<and> (\<forall>b. b \<notin> A \<longrightarrow> ob_of st (ORef b) \<noteq> None \<longrightarrow> cells st' b = cells st b)
     \<and> (\<forall>a k. map_option pv (prop_at st' a k) = map_option pv (prop_at st a k))
     \<and> (\<forall>v. items_of st' v = items_of st v) \<and> (\<forall>b. cells st' b = None \<longleftrightarrow> cells st b = None)
     \<and> told st' = told st \<and> vm_roots st' = vm_roots st"

lemma observes_reads:
  assumes "observes A st st'"
  shows "map_option pv (prop_at st' a k) = map_option pv (prop_at st a k)" and "items_of st' v = items_of st v"
    and "prop_at st' a k = None \<longleftrightarrow> prop_at st a k = None" and "value_at st' a k = value_at st a k"
proof -
  show m: "map_option pv (prop_at st' a k) = map_option pv (prop_at st a k)" and "items_of st' v = items_of st v"
    using assms by (simp_all add: observes_def)
  then show "prop_at st' a k = None \<longleftrightarrow> prop_at st a k = None" by (metis option.map_disc_iff)
  show "value_at st' a k = value_at st a k" using m by (auto simp: value_at_def split: option.splits)
qed

definition good_prop :: "ostate \<Rightarrow> oprop \<Rightarrow> bool" where
  "good_prop st p \<longleftrightarrow> pd p \<noteq> None \<and> pc p = ob_of st (pv p) \<and> unobserved st (pv p) = None"

definition ok_cell :: "ostate \<Rightarrow> nat \<Rightarrow> bool" where
  "ok_cell st a \<longleftrightarrow>
     (\<forall>k p. prop_at st a k = Some p \<longrightarrow> good_prop st p)
     \<and> (\<forall>xs. items_of st (ORef a) = Some xs \<longrightarrow> (\<forall>x \<in> set xs. unobserved st x = None))"

definition ok_but :: "nat set \<Rightarrow> ostate \<Rightarrow> bool" where
  "ok_but A st \<longleftrightarrow> (\<forall>a. ob_of st (ORef a) \<noteq> None \<longrightarrow> a \<notin> A \<longrightarrow> ok_cell st a)"

lemma counters_irrelevant [simp]:
  "ob_of (st\<lparr>next_dep := n\<rparr>) v = ob_of st v" "ob_of (st\<lparr>told := ds\<rparr>) v = ob_of st v"
  "unobserved (st\<lparr>next_dep := n\<rparr>) v = unobserved st v" "unobserved (st\<lparr>told := ds\<rparr>) v = unobserved st v"
  "prop_at (st\<lparr>next_dep := n\<rparr>) a k = prop_at st a k" "prop_at (st\<lparr>told := ds\<rparr>) a k = prop_at st a k"
  "items_of (st\<lparr>next_dep := n\<rparr>) v = items_of st v" "items_of (st\<lparr>told := ds\<rparr>) v = items_of st v"
  by (cases v; simp add: ob_of_def unobserved_def prop_at_def items_of_def)+

lemma observes_refl: "observes A st st"
  by (simp add: observes_def)

lemma seen_ob: "ob_of st v \<noteq> None \<Longrightarrow> unobserved st v = None"
  by (auto simp: ob_of_def unobserved_def split: oval.splits option.splits)

lemma observes_trans: "observes A st st1 \<Longrightarrow> observes A st1 st2 \<Longrightarrow> observes A st st2"
  unfolding observes_def by (metis seen_ob)

lemma observes_mono: "observes A st st' \<Longrightarrow> A \<subseteq> B \<Longrightarrow> observes B st st'"
  unfolding observes_def by blast

lemma good_prop_mono: "good_prop st p \<Longrightarrow> observes A st st' \<Longrightarrow> good_prop st' p"
  by (simp add: good_prop_def observes_def)

lemma ok_cell_mono:
  assumes "ok_cell st b" and "observes A st st'" and "cells st' b = cells st b"
  shows "ok_cell st' b"
proof -
  have "prop_at st' b k = prop_at st b k" "items_of st' (ORef b) = items_of st (ORef b)" for k
    using assms(3) by (simp_all add: prop_at_def items_of_def)
  then show ?thesis using assms(1,2) good_prop_mono [OF _ assms(2)] by (simp add: ok_cell_def observes_def)
qed

text \<open>Newly observed cells apart, what was in order stays so.\<close>

lemma ok_but_mono:
  assumes "ok_but A st" and "observes A st st'" and "\<And>b. ob_of st (ORef b) = None \<Longrightarrow> ob_of st' (ORef b) \<noteq> None \<Longrightarrow> b \<notin> A \<Longrightarrow> ok_cell st' b"
  shows "ok_but A st'"
  unfolding ok_but_def
proof (intro allI impI)
  fix b
  assume b: "ob_of st' (ORef b) \<noteq> None" "b \<notin> A"
  show "ok_cell st' b"
  proof (cases "ob_of st (ORef b) = None")
    case False
    then have "cells st' b = cells st b" "ok_cell st b" using assms(1,2) b(2) by (simp_all add: observes_def ok_but_def)
    then show ?thesis using ok_cell_mono assms(2) by blast
  qed (use assms(3) b in blast)
qed

lemma give_ob_observes:
  assumes "unobserved st (ORef a) = Some a"
  shows "observes A st (give_ob a st)" and "ob_of (give_ob a st) (ORef a) \<noteq> None"
    and "b \<noteq> a \<Longrightarrow> ob_of (give_ob a st) (ORef b) = ob_of st (ORef b)"
proof -
  obtain c where c: "cells st a = Some c" "cell_ob c = None"
    using assms by (auto simp: unobserved_def split: option.splits if_splits)
  show "observes A st (give_ob a st)" using c
    by (auto simp: observes_def give_ob_def ob_of_def unobserved_def prop_at_def items_of_def split: oval.splits option.splits ocell.splits if_splits)
  show "ob_of (give_ob a st) (ORef a) \<noteq> None" using c by (auto simp: give_ob_def ob_of_def split: ocell.splits)
  show "b \<noteq> a \<Longrightarrow> ob_of (give_ob a st) (ORef b) = ob_of st (ORef b)" using c by (simp add: give_ob_def ob_of_def)
qed

lemma put_prop_props:
  assumes "prop_at st a k = Some q"
  shows "prop_at (put_prop a k p st) b j = (if b = a \<and> j = k then Some p else prop_at st b j)"
    and "items_of (put_prop a k p st) v = items_of st v" and "ob_of (put_prop a k p st) v = ob_of st v"
    and "unobserved (put_prop a k p st) v = unobserved st v"
    and "b \<noteq> a \<Longrightarrow> cells (put_prop a k p st) b = cells st b" and "cells (put_prop a k p st) b = None \<longleftrightarrow> cells st b = None"
    and "told (put_prop a k p st) = told st" and "vm_roots (put_prop a k p st) = vm_roots st"
proof -
  obtain ps d where c: "cells st a = Some (OObj ps d)" using assms by (auto simp: prop_at_def split: option.splits ocell.splits)
  then show "prop_at (put_prop a k p st) b j = (if b = a \<and> j = k then Some p else prop_at st b j)"
    and "items_of (put_prop a k p st) v = items_of st v" and "ob_of (put_prop a k p st) v = ob_of st v"
    and "unobserved (put_prop a k p st) v = unobserved st v"
    and "b \<noteq> a \<Longrightarrow> cells (put_prop a k p st) b = cells st b" and "cells (put_prop a k p st) b = None \<longleftrightarrow> cells st b = None"
    and "told (put_prop a k p st) = told st" and "vm_roots (put_prop a k p st) = vm_roots st"
    by (auto simp: prop_at_def put_prop_def items_of_def ob_of_def unobserved_def obj_simps split: oval.splits option.splits)
qed

text \<open>What a function that observes a value has to do.\<close>

definition observer :: "(oval \<Rightarrow> ostate \<Rightarrow> ostate option) \<Rightarrow> bool" where
  "observer g \<longleftrightarrow>
     (\<forall>v st st' A. g v st = Some st' \<longrightarrow> ok_but A st \<longrightarrow> ok_but A st' \<and> observes {} st st' \<and> unobserved st' v = None)"

lemma observe_all:
  assumes "observer g" and "foldo g xs st = Some st'" and "ok_but A st"
  shows "ok_but A st' \<and> observes {} st st' \<and> (\<forall>x \<in> set xs. unobserved st' x = None)"
  using assms(2,3)
proof (induction xs arbitrary: st)
  case Nil
  then show ?case by (simp add: observes_refl)
next
  case (Cons x xs)
  then obtain st1 where st1: "g x st = Some st1" "foldo g xs st1 = Some st'" by (auto simp: bind_eq_Some_conv)
  then have 1: "ok_but A st1" "observes {} st st1" "unobserved st1 x = None"
    using assms(1) Cons.prems(2) unfolding observer_def by blast+
  have 2: "ok_but A st'" "observes {} st1 st'" "\<forall>y \<in> set xs. unobserved st' y = None" using Cons.IH [OF st1(2) 1(1)] by blast+
  moreover have "unobserved st' x = None" using 1(3) 2(2) unfolding observes_def by blast
  ultimately show ?case using observes_trans [OF 1(2) 2(2)] by simp
qed

lemma define_reactive_ok:
  assumes "observer g" and "define_reactive g a k st = Some st'" and "ok_but A st" and "a \<in> A" and "ob_of st (ORef a) \<noteq> None"
  shows "ok_but A st' \<and> observes {a} st st' \<and> (\<forall>p. prop_at st' a k = Some p \<longrightarrow> good_prop st' p)
    \<and> (\<forall>j. j \<noteq> k \<longrightarrow> prop_at st' a j = prop_at st a j)"
proof (cases "prop_at st a k")
  case None
  then show ?thesis using assms(2,3) by (simp add: define_reactive_def observes_refl)
next
  case (Some p)
  let ?s = "st\<lparr>next_dep := Suc (next_dep st)\<rparr>"
  obtain st2 where st2: "g (pv p) ?s = Some st2"
    "st' = put_prop a k \<lparr>pv = pv p, pd = Some (next_dep st), pc = ob_of st2 (pv p)\<rparr> st2"
    using assms(2) Some by (auto simp: define_reactive_def)
  have "ok_but A ?s" "observes {} st ?s" using assms(3) by (simp_all add: ok_but_def ok_cell_def good_prop_def observes_def)
  moreover from this(1) have "ok_but A st2" "observes {} ?s st2" "unobserved st2 (pv p) = None"
    using assms(1) st2(1) unfolding observer_def by blast+
  ultimately have o: "ok_but A st2" "observes {} st st2" "unobserved st2 (pv p) = None" using observes_trans by blast+
  have "cells st2 a = cells st a" using o(2) assms(5) by (simp add: observes_def)
  then have a: "prop_at st2 a j = prop_at st a j" for j by (simp add: prop_at_def)
  note put = put_prop_props [where st = st2 and a = a and k = k and q = p, folded st2(2), unfolded a, OF Some]
  have q: "observes {a} st2 st'" using put Some a by (auto simp: observes_def st2(2))
  then have "observes {a} st st'" using o(2) observes_mono observes_trans by (metis empty_subsetI)
  moreover have "good_prop st' q" if "prop_at st' a k = Some q" for q
    using that o(3) put by (auto simp: good_prop_def st2(2))
  moreover have "ok_but A st'"
  proof (rule ok_but_mono [OF o(1)])
    show "observes A st2 st'" using q assms(4) observes_mono by blast
    show "ob_of st2 (ORef b) = None \<Longrightarrow> ob_of st' (ORef b) \<noteq> None \<Longrightarrow> b \<notin> A \<Longrightarrow> ok_cell st' b" for b
      using put(3) st2(2) by simp
  qed
  ultimately show ?thesis using put(1) a st2(2) by simp
qed

lemma walk_ok:
  assumes "observer g" and "foldo (define_reactive g a) ks st = Some st'" and "ok_but A st" and "a \<in> A"
    and "ob_of st (ORef a) \<noteq> None"
  shows "ok_but A st' \<and> observes {a} st st' \<and> (\<forall>k \<in> set ks. \<forall>p. prop_at st' a k = Some p \<longrightarrow> good_prop st' p)
    \<and> (\<forall>j. j \<notin> set ks \<longrightarrow> prop_at st' a j = prop_at st a j)"
  using assms(2,3,5)
proof (induction ks arbitrary: st)
  case Nil
  then show ?case by (simp add: observes_refl)
next
  case (Cons k ks)
  then obtain st1 where st1: "define_reactive g a k st = Some st1" "foldo (define_reactive g a) ks st1 = Some st'"
    by (auto simp: bind_eq_Some_conv)
  have 1: "ok_but A st1" "observes {a} st st1" "\<forall>p. prop_at st1 a k = Some p \<longrightarrow> good_prop st1 p"
    "\<forall>j. j \<noteq> k \<longrightarrow> prop_at st1 a j = prop_at st a j"
    using define_reactive_ok [OF assms(1) st1(1) Cons.prems(2) assms(4) Cons.prems(3)] by blast+
  have "ob_of st1 (ORef a) \<noteq> None" using 1(2) Cons.prems(3) seen_ob unfolding observes_def by metis
  from Cons.IH [OF st1(2) 1(1) this] have 2: "ok_but A st'" "observes {a} st1 st'"
    "\<forall>k \<in> set ks. \<forall>p. prop_at st' a k = Some p \<longrightarrow> good_prop st' p"
    "\<forall>j. j \<notin> set ks \<longrightarrow> prop_at st' a j = prop_at st1 a j" by blast+
  have "good_prop st' p" if "prop_at st' a k = Some p" for p
  proof (cases "k \<in> set ks")
    case False
    then have "prop_at st1 a k = Some p" using 2(4) that by simp
    then show ?thesis using 1(3) good_prop_mono 2(2) by blast
  qed (use 2(3) that in blast)
  then show ?case using 1(4) 2 observes_trans [OF 1(2) 2(2)] by simp
qed

lemma observer_zero: "observer (observe 0)"
  by (auto simp: observer_def observes_refl split: if_splits)

lemma observe_is_observer: "observer (observe f)"
proof (induction f)
  case 0
  show ?case by (rule observer_zero)
next
  case (Suc f)
  have "ok_but A st' \<and> observes {} st st' \<and> unobserved st' v = None"
    if o: "observe (Suc f) v st = Some st'" and ok: "ok_but A st" for v st st' A
  proof (cases "unobserved st v")
    case None
    then show ?thesis using o ok by (simp add: observes_refl)
  next
    case (Some a)
    then obtain c where v: "v = ORef a" and c: "cells st a = Some c" "cell_ob c = None"
      by (auto simp: unobserved_def split: oval.splits option.splits if_splits)
    let ?s = "give_ob a st"
    have ua: "unobserved st (ORef a) = Some a" using Some v by simp
    note give = give_ob_observes [OF ua]
    have s: "ok_but (insert a A) ?s"
    proof (rule ok_but_mono [OF _ give(1)])
      show "ok_but (insert a A) st" using ok by (simp add: ok_but_def)
      show "ob_of st (ORef b) = None \<Longrightarrow> ob_of ?s (ORef b) \<noteq> None \<Longrightarrow> b \<notin> insert a A \<Longrightarrow> ok_cell ?s b" for b
        using give(3) by auto
    qed
    have done_a: "ok_but A st'" if "ok_but (insert a A) st'" "ok_cell st' a"
      using that by (auto simp: ok_but_def)
    have seen: "unobserved st' v = None" if "observes B ?s st'" for B
      using that give(2) v seen_ob unfolding observes_def by metis
    show ?thesis
    proof (cases c)
      case (OArr xs d)
      then have f: "foldo (observe f) xs ?s = Some st'" using o Some c by simp
      from observe_all [OF Suc this s] have r: "ok_but (insert a A) st'" "observes {} ?s st'" "\<forall>x \<in> set xs. unobserved st' x = None"
        by blast+
      have "items_of st (ORef a) = Some xs" "prop_at st a k = None" for k using c OArr by (simp_all add: items_of_def prop_at_def)
      then have "items_of st' (ORef a) = Some xs" "prop_at st' a k = None" for k
        using observes_reads [OF observes_trans [OF give(1) r(2)]] by simp_all
      then have "ok_cell st' a" using r(3) by (simp add: ok_cell_def)
      then show ?thesis using done_a r(1) seen [OF r(2)] observes_trans [OF give(1) r(2)] by blast
    next
      case (OObj ps d)
      then have f: "foldo (define_reactive (observe f) a) (okeys ps) ?s = Some st'" using o Some c by simp
      from walk_ok [OF Suc this s _ give(2)] have r: "ok_but (insert a A) st'" "observes {a} ?s st'"
        "\<forall>k \<in> set (okeys ps). \<forall>p. prop_at st' a k = Some p \<longrightarrow> good_prop st' p" by blast+
      have i: "items_of st (ORef a) = None" "prop_at st a k = oget ps k" for k using c OObj by (simp_all add: items_of_def prop_at_def)
      then have "items_of st' (ORef a) = None" "prop_at st' a k = None \<longleftrightarrow> oget ps k = None" for k
        using observes_reads [OF observes_trans [OF give(1) r(2)]] by simp_all
      moreover from this(2) have "k \<in> set (okeys ps)" if "prop_at st' a k = Some p" for k p
        using that by (metis map_of_eq_None_iff option.distinct(1) set_map)
      ultimately have "ok_cell st' a" using r(3) unfolding ok_cell_def by (metis option.distinct(1))
      moreover have "observes {} st st'"
        unfolding observes_def
      proof (intro conjI allI impI)
        fix b assume b: "b \<notin> {}" "ob_of st (ORef b) \<noteq> None"
        then have "b \<noteq> a" using c by (auto simp: ob_of_def)
        then show "cells st' b = cells st b" using b r(2) give(1) [of "{}"] give(3) by (simp add: observes_def)
      qed (use observes_trans [OF give(1) r(2)] in \<open>simp_all add: observes_def\<close>)
      ultimately show ?thesis using done_a r(1) seen [OF r(2)] by blast
    qed
  qed
  then show ?case unfolding observer_def by blast
qed

text \<open>As many calls deep as there are cells to observe is deep enough.\<close>

definition to_observe :: "ostate \<Rightarrow> nat set" where
  "to_observe st = {a. unobserved st (ORef a) \<noteq> None}"

lemma to_observe_mono: "observes A st st' \<Longrightarrow> to_observe st' \<subseteq> to_observe st"
  by (auto simp: to_observe_def observes_def)

lemma give_ob_fewer:
  assumes "unobserved st (ORef a) = Some a"
  shows "to_observe (give_ob a st) \<subset> to_observe st"
proof -
  have "a \<in> to_observe st" "a \<notin> to_observe (give_ob a st)"
    using assms seen_ob [OF give_ob_observes(2) [OF assms]] by (simp_all add: to_observe_def)
  then show ?thesis using to_observe_mono [OF give_ob_observes(1) [OF assms]] by blast
qed

lemma foldo_ends:
  assumes "\<And>x s. x \<in> set xs \<Longrightarrow> to_observe s \<subseteq> U \<Longrightarrow> \<exists>s'. g x s = Some s' \<and> to_observe s' \<subseteq> U" and "to_observe st \<subseteq> U"
  shows "\<exists>st'. foldo g xs st = Some st' \<and> to_observe st' \<subseteq> U"
  using assms
proof (induction xs arbitrary: st)
  case (Cons x xs)
  from Cons.prems(1) [of x st] Cons.prems(2) obtain s' where s': "g x st = Some s'" "to_observe s' \<subseteq> U" by auto
  have "\<exists>st'. foldo g xs s' = Some st' \<and> to_observe st' \<subseteq> U" using Cons.prems(1) s'(2) by (intro Cons.IH) simp_all
  with s' show ?case by simp
qed simp

lemma put_prop_to_observe: "to_observe (put_prop a k p st) = to_observe st"
proof -
  have "unobserved (put_prop a k p st) v = unobserved st v" for v
    by (auto simp: put_prop_def unobserved_def split: oval.splits option.splits ocell.splits)
  then show ?thesis by (simp add: to_observe_def)
qed

lemma define_reactive_ends:
  assumes "\<And>v s. to_observe s \<subseteq> U \<Longrightarrow> \<exists>s'. g v s = Some s' \<and> to_observe s' \<subseteq> U" and "to_observe st \<subseteq> U"
  shows "\<exists>st'. define_reactive g a k st = Some st' \<and> to_observe st' \<subseteq> U"
proof (cases "prop_at st a k")
  case (Some p)
  have "to_observe (st\<lparr>next_dep := Suc (next_dep st)\<rparr>) \<subseteq> U" using assms(2) by (simp add: to_observe_def)
  then obtain s' where "g (pv p) (st\<lparr>next_dep := Suc (next_dep st)\<rparr>) = Some s'" "to_observe s' \<subseteq> U" using assms(1) by blast
  then show ?thesis using Some by (simp add: define_reactive_def put_prop_to_observe)
qed (use assms(2) in \<open>simp add: define_reactive_def\<close>)

lemma observe_ends:
  "finite U \<Longrightarrow> to_observe st \<subseteq> U \<Longrightarrow> card U \<le> f \<Longrightarrow> \<exists>st'. observe f v st = Some st' \<and> to_observe st' \<subseteq> U"
proof (induction f arbitrary: U v st)
  case 0
  then have "to_observe st = {}" by simp
  moreover have "unobserved st v \<noteq> None \<Longrightarrow> \<exists>a. a \<in> to_observe st"
    by (auto simp: unobserved_def to_observe_def split: oval.splits option.splits)
  ultimately show ?case using 0 by (cases "unobserved st v") auto
next
  case (Suc f)
  show ?case
  proof (cases "unobserved st v")
    case None
    then show ?thesis using Suc.prems by simp
  next
    case (Some a)
    then have v: "v = ORef a" by (auto simp: unobserved_def split: oval.splits option.splits if_splits)
    then have ua: "unobserved st (ORef a) = Some a" using Some by simp
    let ?s = "give_ob a st" and ?U = "U - {a}"
    have "a \<in> U" using Suc.prems(2) ua by (auto simp: to_observe_def)
    then have U: "finite ?U" "card ?U \<le> f" using Suc.prems(1,3) by simp_all
    have s: "to_observe ?s \<subseteq> ?U"
    proof -
      have "a \<notin> to_observe ?s" using seen_ob [OF give_ob_observes(2) [OF ua]] by (simp add: to_observe_def)
      then show ?thesis using give_ob_fewer [OF ua] Suc.prems(2) by blast
    qed
    have IH: "\<exists>s'. observe f w x = Some s' \<and> to_observe s' \<subseteq> ?U" if "to_observe x \<subseteq> ?U" for w x
      using Suc.IH [OF U(1) that U(2)] .
    have "\<exists>st'. observe (Suc f) v st = Some st' \<and> to_observe st' \<subseteq> ?U"
    proof (cases "cells st a")
      case None
      then show ?thesis using ua by (simp add: unobserved_def)
    next
      case (Some c)
      then show ?thesis
        using \<open>unobserved st v = Some a\<close> foldo_ends [of _ ?U "observe f", OF IH s]
          foldo_ends [of _ ?U "define_reactive (observe f) a", OF define_reactive_ends [OF IH] s]
        by (cases c) simp_all
    qed
    then show ?thesis by blast
  qed
qed

section \<open>What a write changes\<close>

text \<open>The writes that go through the interception. A plain assignment is one if the property is there,
  and a write by index never is; on data that are not observed every write is plain.\<close>

fun intercepted :: "ostate \<Rightarrow> owrite \<Rightarrow> bool" where
  "intercepted st (OAssign a k v) \<longleftrightarrow> prop_at st a k \<noteq> None \<or> ob_of st (ORef a) = None"
| "intercepted st (OWriteItem a i v) \<longleftrightarrow> ob_of st (ORef a) = None"
| "intercepted st _ \<longleftrightarrow> True"

text \<open>Every change of an observed cell is announced: that of a property by the property or the
  observer, that of an array by its observer.\<close>

definition announced :: "ostate \<Rightarrow> ostate \<Rightarrow> bool" where
  "announced st st' \<longleftrightarrow>
     (\<exists>ds. told st' = told st @ ds
        \<and> (\<forall>a d k. ob_of st (ORef a) = Some d \<longrightarrow> (d \<notin> set ds \<or> a \<in> vm_roots st) \<longrightarrow>
             (\<forall>p e. prop_at st a k = Some p \<longrightarrow> pd p = Some e \<longrightarrow> e \<notin> set ds \<longrightarrow> value_at st' a k = value_at st a k)
             \<and> (prop_at st a k = None \<longrightarrow> value_at st' a k = OUndef))
        \<and> (\<forall>a d. ob_of st (ORef a) = Some d \<longrightarrow> d \<notin> set ds \<or> items_of st (ORef a) = None \<longrightarrow>
             items_of st' (ORef a) = items_of st (ORef a))
        \<and> (\<forall>a. cells st a = None \<longrightarrow> cells st' a = None) \<and> vm_roots st' = vm_roots st)"

text \<open>Reads that stay as they were, but for the properties in \<open>P\<close> and the arrays in \<open>B\<close>.\<close>

definition reads_same :: "(nat \<times> string) set \<Rightarrow> nat set \<Rightarrow> ostate \<Rightarrow> ostate \<Rightarrow> bool" where
  "reads_same P B st st' \<longleftrightarrow>
     (\<forall>a k. (a, k) \<notin> P \<longrightarrow> value_at st' a k = value_at st a k)
     \<and> (\<forall>a. a \<notin> B \<or> items_of st (ORef a) = None \<longrightarrow> items_of st' (ORef a) = items_of st (ORef a))
     \<and> (\<forall>a. cells st a = None \<longrightarrow> cells st' a = None) \<and> vm_roots st' = vm_roots st"

lemma reads_same_trans: "reads_same P B st st1 \<Longrightarrow> reads_same P B st1 st2 \<Longrightarrow> reads_same P B st st2"
  by (simp add: reads_same_def)

lemma reads_same_observes:
  assumes "observes A st st'"
  shows "reads_same P B st st'"
  unfolding reads_same_def
proof (intro conjI allI impI)
  show "cells st a = None \<Longrightarrow> cells st' a = None" "vm_roots st' = vm_roots st" for a using assms by (simp_all add: observes_def)
qed (simp_all only: observes_reads [OF assms])

lemma reads_same_put_prop: "reads_same {(a, k)} B st (put_prop a k p st)"
  by (auto simp: reads_same_def put_prop_def value_at_def prop_at_def items_of_def obj_simps split: option.splits ocell.splits)

lemma reads_same_put_items: "reads_same P {a} st (put_items a xs st)"
  by (auto simp: reads_same_def put_items_def value_at_def prop_at_def items_of_def split: option.splits ocell.splits)

lemma reads_same_told: "reads_same P B st (notify_dep d st)"
  by (simp add: reads_same_def notify_dep_def value_at_def)

lemma told_put [simp]: "told (put_prop a k p st) = told st" "told (put_items a xs st) = told st"
  by (simp_all add: put_prop_def put_items_def split: option.splits ocell.splits)

lemma told_notify [simp]: "told (notify_dep d st) = told st @ [d]"
  by (simp add: notify_dep_def)

lemma missing_value: "prop_at st a k = None \<Longrightarrow> value_at st a k = OUndef"
  by (simp add: value_at_def)

lemma announced_plain:
  assumes "reads_same P B st st'" and "told st' = told st"
    and "\<And>a k. (a, k) \<in> P \<Longrightarrow> ob_of st (ORef a) = None \<or> (\<exists>p. prop_at st a k = Some p \<and> pd p = None)"
    and "\<And>a. a \<in> B \<Longrightarrow> ob_of st (ORef a) = None"
  shows "announced st st'"
  unfolding announced_def
proof (intro exI [of _ "[]"] conjI allI impI)
  fix a d k p e
  assume "ob_of st (ORef a) = Some d" "prop_at st a k = Some p" "pd p = Some e"
  then have "(a, k) \<notin> P" using assms(3) [of a k] by auto
  then show "value_at st' a k = value_at st a k" using assms(1) by (simp add: reads_same_def)
next
  fix a d k
  assume "ob_of st (ORef a) = Some d" "prop_at st a k = None"
  then have "(a, k) \<notin> P" "value_at st a k = OUndef" using assms(3) [of a k] missing_value by auto
  then show "value_at st' a k = OUndef" using assms(1) by (simp add: reads_same_def)
next
  fix a d assume "ob_of st (ORef a) = Some d"
  then have "a \<notin> B" using assms(4) [of a] by auto
  then show "items_of st' (ORef a) = items_of st (ORef a)" using assms(1) by (simp add: reads_same_def)
qed (use assms(1,2) in \<open>simp_all add: reads_same_def\<close>)

lemma announced_prop:
  assumes "reads_same {(a0, k0)} {} st st'" and "told st' = told st @ [d0]"
    and "(\<exists>p. prop_at st a0 k0 = Some p \<and> pd p = Some d0) \<or> ob_of st (ORef a0) = Some d0 \<and> a0 \<notin> vm_roots st"
  shows "announced st st'"
  unfolding announced_def
proof (intro exI [of _ "[d0]"] conjI allI impI)
  fix a d k p e
  assume "ob_of st (ORef a) = Some d" "d \<notin> set [d0] \<or> a \<in> vm_roots st" "prop_at st a k = Some p" "pd p = Some e" "e \<notin> set [d0]"
  then have "(a, k) \<noteq> (a0, k0)" using assms(3) by auto
  then show "value_at st' a k = value_at st a k" using assms(1) by (simp add: reads_same_def)
next
  fix a d k
  assume "ob_of st (ORef a) = Some d" "d \<notin> set [d0] \<or> a \<in> vm_roots st" "prop_at st a k = None"
  then have "(a, k) \<noteq> (a0, k0)" "value_at st a k = OUndef" using assms(3) missing_value by auto
  then show "value_at st' a k = OUndef" using assms(1) by (simp add: reads_same_def)
qed (use assms(1,2) in \<open>simp_all add: reads_same_def\<close>)

lemma announced_items:
  assumes "reads_same {} {a0} st st'" and "told st' = told st @ [d0]" and "ob_of st (ORef a0) = Some d0"
  shows "announced st st'"
  unfolding announced_def
proof (intro exI [of _ "[d0]"] conjI allI impI)
  fix a d assume "ob_of st (ORef a) = Some d" "d \<notin> set [d0] \<or> items_of st (ORef a) = None"
  then have "a \<noteq> a0 \<or> items_of st (ORef a) = None" using assms(3) by auto
  then show "items_of st' (ORef a) = items_of st (ORef a)" using assms(1) by (simp add: reads_same_def)
qed (use assms in \<open>auto simp: reads_same_def missing_value\<close>)

text \<open>Observing reads as before, in any state.\<close>

definition keeps_reads :: "(oval \<Rightarrow> ostate \<Rightarrow> ostate option) \<Rightarrow> bool" where
  "keeps_reads g \<longleftrightarrow> (\<forall>v st st'. g v st = Some st' \<longrightarrow> observes {} st st')"

lemma observe_observes: "observe f v st = Some st' \<Longrightarrow> observes {} st st'"
  using observe_is_observer [of f] unfolding observer_def
  by (metis UNIV_I ok_but_def)

lemma foldo_observes: "foldo (observe f) xs st = Some st' \<Longrightarrow> observes {} st st'"
proof (induction xs arbitrary: st)
  case (Cons x xs)
  then obtain s where "observe f x st = Some s" "foldo (observe f) xs s = Some st'" by (auto simp: bind_eq_Some_conv)
  then show ?case using Cons.IH observe_observes observes_trans by blast
qed (simp add: observes_refl)

lemma define_reactive_reads:
  assumes "define_reactive (observe f) a k st = Some st'"
  shows "reads_same {(a, k)} {} st st' \<and> told st' = told st"
proof (cases "prop_at st a k")
  case None
  then show ?thesis using assms by (simp add: define_reactive_def reads_same_def)
next
  case (Some p)
  let ?s = "st\<lparr>next_dep := Suc (next_dep st)\<rparr>"
  obtain s' where s': "observe f (pv p) ?s = Some s'"
    "st' = put_prop a k \<lparr>pv = pv p, pd = Some (next_dep st), pc = ob_of s' (pv p)\<rparr> s'"
    using assms Some by (auto simp: define_reactive_def)
  have "reads_same {(a, k)} {} st ?s" by (simp add: reads_same_def value_at_def)
  moreover have "observes {} ?s s'" using observe_observes s'(1) .
  ultimately have "reads_same {(a, k)} {} st s'" "told s' = told st"
    using reads_same_observes reads_same_trans by (blast, simp add: observes_def)
  then show ?thesis using reads_same_put_prop reads_same_trans s'(2) by auto
qed

lemma assign_announced:
  assumes "assign_prop f a k v st = Some st'" and "prop_at st a k \<noteq> None \<or> ob_of st (ORef a) = None"
  shows "announced st st'"
proof (cases "prop_at st a k")
  case None
  then show ?thesis using assms by (intro announced_plain [of "{(a, k)}" "{}"]) (auto simp: assign_prop_def reads_same_put_prop)
next
  case (Some p)
  show ?thesis
  proof (cases "pd p")
    case None
    then show ?thesis using assms Some
      by (intro announced_plain [of "{(a, k)}" "{}"]) (auto simp: assign_prop_def reads_same_put_prop)
  next
    case d: (Some d)
    show ?thesis
    proof (cases "v = pv p")
      case True
      then show ?thesis using assms Some d by (intro announced_plain [of "{}" "{}"]) (auto simp: assign_prop_def reads_same_def)
    next
      case False
      let ?s = "put_prop a k (p\<lparr>pv := v\<rparr>) st"
      obtain s' where s': "observe f v ?s = Some s'" "st' = notify_dep d (put_prop a k (p\<lparr>pv := v, pc := ob_of s' v\<rparr>) s')"
        using assms(1) Some d False by (auto simp: assign_prop_def)
      then have o: "observes {} ?s s'" using observe_observes by blast
      have "reads_same {(a, k)} {} st st'" unfolding s'(2)
        by (rule reads_same_trans [OF reads_same_trans [OF reads_same_trans [OF reads_same_put_prop reads_same_observes [OF o]]
          reads_same_put_prop] reads_same_told])
      moreover have "told st' = told st @ [d]" using o s'(2) by (simp add: observes_def)
      ultimately show ?thesis using Some d by (intro announced_prop) blast+
    qed
  qed
qed

lemma ob_put_items: "ob_of (put_items a xs st) v = ob_of st v"
  by (auto simp: put_items_def ob_of_def split: oval.splits option.splits ocell.splits)

lemma mutate_reads:
  assumes "mutate_array f a m st = Some st'"
  shows "reads_same {} {a} st st' \<and>
    (case ob_of st (ORef a) of None \<Rightarrow> told st' = told st
     | Some d \<Rightarrow> items_of st (ORef a) \<noteq> None \<longrightarrow> told st' = told st @ [d])
    \<and> (items_of st (ORef a) = None \<longrightarrow> st' = st)"
proof (cases "items_of st (ORef a)")
  case None
  then have "st' = st" using assms by (auto simp: mutate_array_def items_of_def split: option.splits ocell.splits)
  then show ?thesis using None by (auto simp: reads_same_def split: option.split)
next
  case (Some xs)
  then obtain ob where c: "cells st a = Some (OArr xs ob)" by (auto simp: items_of_def split: option.splits ocell.splits)
  then have ob: "ob_of st (ORef a) = ob" by (simp add: ob_of_def)
  show ?thesis
  proof (cases ob)
    case None
    then show ?thesis using assms c ob Some by (auto simp: mutate_array_def reads_same_put_items)
  next
    case d: (Some d)
    then obtain s where s: "foldo (observe f) (inserted m) (put_items a (mutated m xs) st) = Some s" "st' = notify_dep d s"
      using assms c by (auto simp: mutate_array_def)
    have o: "observes {} (put_items a (mutated m xs) st) s" using foldo_observes [OF s(1)] .
    have "reads_same {} {a} st st'" unfolding s(2)
      by (rule reads_same_trans [OF reads_same_trans [OF reads_same_put_items reads_same_observes [OF o]] reads_same_told])
    moreover have "told st' = told st @ [d]" using o s(2) by (simp add: observes_def)
    ultimately show ?thesis using d ob Some by simp
  qed
qed

lemma mutate_announced:
  assumes "reads_same {} {a} st0 st" and "told st = told st0" and "ob_of st (ORef a) = ob_of st0 (ORef a)"
    and "mutate_array f a m st = Some st'" and "items_of st (ORef a) = None \<Longrightarrow> st = st0"
  shows "announced st0 st'"
proof (cases "items_of st (ORef a)")
  case None
  then have "st' = st0" using mutate_reads [OF assms(4)] assms(5) by simp
  then show ?thesis by (intro announced_plain [of "{}" "{}"]) (auto simp: reads_same_def)
next
  case (Some xs)
  have r: "reads_same {} {a} st0 st'" using mutate_reads [OF assms(4)] assms(1) reads_same_trans by blast
  show ?thesis
  proof (cases "ob_of st (ORef a)")
    case None
    then show ?thesis using mutate_reads [OF assms(4)] assms(2,3) by (intro announced_plain [OF r]) auto
  next
    case d: (Some d)
    then show ?thesis using mutate_reads [OF assms(4)] assms(2,3) Some by (intro announced_items [OF r]) auto
  qed
qed

lemma owrite_announced:
  assumes "owrite_step f w st = Some st'" and "intercepted st w"
  shows "announced st st'"
proof (cases w)
  case (OAssign a k v)
  then show ?thesis using assms assign_announced by simp
next
  case (OMutate a m)
  then show ?thesis using assms by (intro mutate_announced [of a st st]) (simp_all add: reads_same_def)
next
  case (OVueSet a k v)
  then have s: "vue_set f a k v st = Some st'" using assms(1) by simp
  show ?thesis
  proof (cases "prop_at st a k \<noteq> None \<or> a \<in> vm_roots st \<or> ob_of st (ORef a) = None")
    case True
    show ?thesis
    proof (cases "prop_at st a k = None \<and> a \<in> vm_roots st")
      case root: True
      then have "st' = st" using s by (simp add: vue_set_def)
      then show ?thesis by (intro announced_plain [of "{}" "{}"]) (simp_all add: reads_same_def)
    next
      case False
      then have "assign_prop f a k v st = Some st'"
        using s True by (cases "prop_at st a k = None") (simp_all add: vue_set_def del: not_None_eq)
      moreover have "prop_at st a k \<noteq> None \<or> ob_of st (ORef a) = None"
        using True False by (cases "prop_at st a k = None") (simp_all del: not_None_eq)
      ultimately show ?thesis by (rule assign_announced)
    qed
  next
    case False
    then obtain d where d: "ob_of st (ORef a) = Some d" by auto
    let ?s = "put_prop a k \<lparr>pv = v, pd = None, pc = None\<rparr> st"
    obtain s' where s': "define_reactive (observe f) a k ?s = Some s'" "st' = notify_dep d s'"
      using s False d by (auto simp: vue_set_def)
    have t: "reads_same {(a, k)} {} ?s s'" "told s' = told ?s" using define_reactive_reads [OF s'(1)] by blast+
    have "reads_same {(a, k)} {} st st'"
      unfolding s'(2) by (rule reads_same_trans [OF reads_same_trans [OF reads_same_put_prop t(1)] reads_same_told])
    moreover have "told st' = told st @ [d]" using t(2) s'(2) by simp
    ultimately show ?thesis using False d by (intro announced_prop) auto
  qed
next
  case (OVueSetItem a i v)
  show ?thesis
  proof (cases "items_of st (ORef a)")
    case None
    then have "st' = st" using OVueSetItem assms(1) by (simp add: vue_set_item_def)
    then show ?thesis by (intro announced_plain [of "{}" "{}"]) (auto simp: reads_same_def)
  next
    case (Some xs)
    let ?s = "put_items a (xs @ replicate (i - length xs) OUndef) st"
    have "mutate_array f a (Splice i 1 [v]) ?s = Some st'" using OVueSetItem assms(1) Some by (simp add: vue_set_item_def)
    moreover have "items_of ?s (ORef a) \<noteq> None"
      using Some by (auto simp: put_items_def items_of_def split: option.splits ocell.splits)
    ultimately show ?thesis
      by (intro mutate_announced [of a st ?s]) (simp_all add: reads_same_put_items ob_put_items)
  qed
next
  case (OVueDelete a k)
  then have s: "st' = vue_delete a k st" using assms(1) by simp
  show ?thesis
  proof (cases "a \<in> vm_roots st \<or> prop_at st a k = None")
    case True
    then have "st' = st" by (auto simp: s vue_delete_def prop_at_def split: option.splits ocell.splits)
    then show ?thesis by (intro announced_plain [of "{}" "{}"]) (auto simp: reads_same_def)
  next
    case False
    then obtain ps ob where c: "cells st a = Some (OObj ps ob)" "oget ps k \<noteq> None"
      by (auto simp: prop_at_def split: option.splits ocell.splits)
    let ?s = "st\<lparr>cells := (cells st)(a \<mapsto> OObj (odel k ps) ob)\<rparr>"
    have r: "reads_same {(a, k)} {} st ?s"
      using c(1) by (auto simp: reads_same_def value_at_def prop_at_def items_of_def obj_simps)
    have ob: "ob_of st (ORef a) = ob" using c(1) by (simp add: ob_of_def)
    show ?thesis
    proof (cases ob)
      case None
      then have "st' = ?s" using s c False by (auto simp: vue_delete_def)
      then show ?thesis using r ob None by (intro announced_plain [of "{(a, k)}" "{}"]) auto
    next
      case (Some d)
      then have st': "st' = notify_dep d ?s" using s c False by (auto simp: vue_delete_def)
      then have "reads_same {(a, k)} {} st st'" using reads_same_trans [OF r reads_same_told] by simp
      then show ?thesis using False st' ob Some by (intro announced_prop) auto
    qed
  qed
next
  case (OWriteItem a i v)
  then have s: "st' = write_item a i v st" "ob_of st (ORef a) = None" using assms by simp_all
  have "reads_same {} {a} st st'"
    unfolding s(1) by (cases "items_of st (ORef a)") (simp_all add: write_item_def reads_same_put_items, simp add: reads_same_def)
  moreover have "told st' = told st" by (simp add: s(1) write_item_def split: option.split)
  ultimately show ?thesis using s(2) by (intro announced_plain [of "{}" "{a}"]) simp_all
qed

section \<open>What a reader depends on\<close>

text \<open>Values whose observers, and those of the items of their arrays, are among the dependencies \<open>D\<close>.\<close>

inductive covered :: "nat set \<Rightarrow> ostate \<Rightarrow> oval \<Rightarrow> bool" for D st where
  covered_plain: "(\<And>a. v = ORef a \<Longrightarrow> cells st a = None) \<Longrightarrow> covered D st v"
| covered_obj: "cells st a = Some (OObj ps (Some d)) \<Longrightarrow> d \<in> D \<Longrightarrow> covered D st (ORef a)"
| covered_arr: "cells st a = Some (OArr xs (Some d)) \<Longrightarrow> d \<in> D \<Longrightarrow> (\<And>x. x \<in> set xs \<Longrightarrow> covered D st x) \<Longrightarrow> covered D st (ORef a)"

lemma covered_refE:
  assumes "covered D st (ORef a)"
  obtains "cells st a = None"
  | ps d where "cells st a = Some (OObj ps (Some d))" "d \<in> D"
  | xs d where "cells st a = Some (OArr xs (Some d))" "d \<in> D" "\<And>x. x \<in> set xs \<Longrightarrow> covered D st x"
  using assms by (cases rule: covered.cases) auto

lemma covered_ob: "covered D st (ORef a) \<Longrightarrow> cells st a \<noteq> None \<Longrightarrow> \<exists>d \<in> D. ob_of st (ORef a) = Some d"
  by (erule covered_refE) (auto simp: ob_of_def)

lemma covered_item:
  assumes "covered D st (ORef a)"
  shows "covered D st (item_at st a i)"
  using assms
proof (cases rule: covered_refE)
  case 1
  then have "item_at st a i = OUndef" by (simp add: item_at_def items_of_def)
  then show ?thesis by (intro covered_plain) simp
next
  case (2 ps d)
  then show ?thesis by (auto simp: item_at_def items_of_def intro: covered_plain)
next
  case (3 xs d)
  then have "item_at st a i = (if i < length xs then xs ! i else OUndef)" by (simp add: item_at_def items_of_def)
  moreover have "covered D st OUndef" by (intro covered_plain) simp
  ultimately show ?thesis using 3 by simp
qed

text \<open>On observed data \<open>dependArray\<close> covers the items.\<close>

lemma seen_cell:
  assumes "unobserved st (ORef a) = None" and "cells st a = Some c"
  shows "\<exists>d. cell_ob c = Some d \<and> ob_of st (ORef a) = Some d"
  using assms by (auto simp: unobserved_def ob_of_def split: if_splits)

lemma those_map_mem: "those (map g xs) = Some yss \<Longrightarrow> x \<in> set xs \<Longrightarrow> \<exists>ys. g x = Some ys \<and> set ys \<subseteq> set (concat yss)"
proof (induction xs arbitrary: yss)
  case (Cons y xs)
  then obtain ys zss where "g y = Some ys" "those (map g xs) = Some zss" "yss = ys # zss" by (auto split: option.splits)
  then show ?case using Cons by auto
qed simp

lemma array_deps_cover:
  assumes ok: "ok_but {} st"
  shows "array_deps f st xs = Some ds \<Longrightarrow> \<forall>x \<in> set xs. unobserved st x = None \<Longrightarrow> set ds \<subseteq> D \<Longrightarrow> x \<in> set xs \<Longrightarrow> covered D st x"
proof (induction f arbitrary: xs ds x)
  case (Suc f)
  let ?g = "\<lambda>x. map_option ((@) (case ob_of st x of None \<Rightarrow> [] | Some d \<Rightarrow> [d]))
    (case items_of st x of None \<Rightarrow> Some [] | Some ys \<Rightarrow> array_deps f st ys)"
  obtain yss where y: "those (map ?g xs) = Some yss" "ds = concat yss" using Suc.prems(1) by auto
  from those_map_mem [OF y(1) Suc.prems(4)] obtain ys where ys: "?g x = Some ys" "set ys \<subseteq> D"
    using y(2) Suc.prems(3) by blast
  have ux: "unobserved st x = None" using Suc.prems(2,4) by blast
  show ?case
  proof (cases "\<exists>a c. x = ORef a \<and> cells st a = Some c")
    case False
    then show ?thesis by (intro covered_plain) auto
  next
    case True
    then obtain a c where x: "x = ORef a" and c: "cells st a = Some c" by blast
    obtain d where d: "cell_ob c = Some d" "ob_of st x = Some d" using seen_cell [OF ux [unfolded x] c] x by blast
    then have dD: "d \<in> D" using ys by (auto split: option.splits)
    show ?thesis
    proof (cases c)
      case (OObj ps e)
      then show ?thesis using c d dD x by (auto intro: covered_obj)
    next
      case (OArr zs e)
      then have i: "items_of st x = Some zs" using c x by (simp add: items_of_def)
      then obtain es where es: "array_deps f st zs = Some es" "set es \<subseteq> D" using ys by (auto split: option.splits)
      have "ok_cell st a" using ok d(2) x by (simp add: ok_but_def)
      then have "\<forall>z \<in> set zs. unobserved st z = None" using i x by (simp add: ok_cell_def)
      then have "covered D st z" if "z \<in> set zs" for z using Suc.IH es that by blast
      then show ?thesis using c d dD x OArr by (auto intro: covered_arr)
    qed
  qed
qed simp

lemma getter_covers:
  assumes ok: "ok_but {} st" and a: "ob_of st (ORef a) \<noteq> None" and p: "prop_at st a k = Some p"
    and ds: "getter_deps f st p = Some ds" "set ds \<subseteq> D"
  shows "covered D st (pv p) \<and> (\<exists>e \<in> D. pd p = Some e)"
proof -
  have "ok_cell st a" using ok a by (simp add: ok_but_def)
  then have g: "pd p \<noteq> None" "pc p = ob_of st (pv p)" "unobserved st (pv p) = None"
    using p by (auto simp: ok_cell_def good_prop_def)
  then obtain e where e: "pd p = Some e" by blast
  then have eD: "e \<in> D" using ds by (auto simp: getter_deps_def split: option.splits)
  have "covered D st (pv p)"
  proof (cases "\<exists>b c. pv p = ORef b \<and> cells st b = Some c")
    case False
    then show ?thesis by (intro covered_plain) auto
  next
    case True
    then obtain b c where b: "pv p = ORef b" and c: "cells st b = Some c" by blast
    obtain d where d: "cell_ob c = Some d" "ob_of st (ORef b) = Some d" using seen_cell g(3) b c by metis
    then have pc: "pc p = Some d" using g(2) b by simp
    show ?thesis
    proof (cases c)
      case (OObj ps x)
      then have "items_of st (pv p) = None" using b c by (simp add: items_of_def)
      then have "d \<in> D" using ds e pc by (auto simp: getter_deps_def)
      then show ?thesis using b c d OObj by (auto intro: covered_obj)
    next
      case (OArr zs x)
      then have i: "items_of st (pv p) = Some zs" using b c by (simp add: items_of_def)
      then obtain es where es: "array_deps f st zs = Some es" "set es \<subseteq> D" "d \<in> D"
        using ds e pc by (auto simp: getter_deps_def)
      have "ok_cell st b" using ok d(2) by (simp add: ok_but_def)
      then have "\<forall>z \<in> set zs. unobserved st z = None" using i b by (simp add: ok_cell_def)
      then have "covered D st z" if "z \<in> set zs" for z using array_deps_cover [OF ok] es that by blast
      then show ?thesis using b c d es(3) OArr by (auto intro: covered_arr)
    qed
  qed
  then show ?thesis using e eD by blast
qed

text \<open>A reader that starts from the data of a component.\<close>

definition known :: "nat set \<Rightarrow> ostate \<Rightarrow> nat set \<Rightarrow> bool" where
  "known D st K \<longleftrightarrow> (\<forall>a \<in> K. cells st a \<noteq> None \<longrightarrow>
     a \<in> vm_roots st \<and> ob_of st (ORef a) \<noteq> None \<and> items_of st (ORef a) = None \<or> covered D st (ORef a))"

lemma known_refs: "known D st K \<Longrightarrow> covered D st v \<Longrightarrow> known D st (K \<union> refs_of v)"
  by (cases v) (auto simp: known_def)

lemma reader_unchanged:
  assumes ok: "ok_but {} st" and an: "told st' = told st @ ds'" "set ds' \<inter> D = {}"
    "\<forall>a d k. ob_of st (ORef a) = Some d \<longrightarrow> (d \<notin> set ds' \<or> a \<in> vm_roots st) \<longrightarrow>
       (\<forall>p e. prop_at st a k = Some p \<longrightarrow> pd p = Some e \<longrightarrow> e \<notin> set ds' \<longrightarrow> value_at st' a k = value_at st a k)
       \<and> (prop_at st a k = None \<longrightarrow> value_at st' a k = OUndef)"
    "\<forall>a d. ob_of st (ORef a) = Some d \<longrightarrow> d \<notin> set ds' \<or> items_of st (ORef a) = None \<longrightarrow>
       items_of st' (ORef a) = items_of st (ORef a)"
    and dead: "\<forall>a. cells st a = None \<longrightarrow> cells st' a = None"
  shows "run_oreader f r st = Some (x, ds) \<Longrightarrow> set ds \<subseteq> D \<Longrightarrow> known D st K \<Longrightarrow> in_scope r K st \<Longrightarrow> o_eval r st' = x"
proof -
  have items_same: "items_of st' (ORef a) = items_of st (ORef a)" if "known D st K" "a \<in> K" for a K
  proof (cases "cells st a")
    case None
    then show ?thesis using dead by (simp add: items_of_def)
  next
    case (Some c)
    then show ?thesis using that covered_ob [of D st a] an(2,4) by (auto simp: known_def)
  qed
  show "run_oreader f r st = Some (x, ds) \<Longrightarrow> set ds \<subseteq> D \<Longrightarrow> known D st K \<Longrightarrow> in_scope r K st \<Longrightarrow> o_eval r st' = x"
  proof (induction r arbitrary: K ds)
  case (ODone y)
  then show ?case by simp
next
  case (OGet a k r)
  show ?case
  proof (cases "cells st a")
    case None
    then have "prop_at st a k = None" "prop_at st' a k = None" using dead by (simp_all add: prop_at_def)
    then show ?thesis using OGet.IH [of "r OUndef" ds K] OGet.prems by (simp add: value_at_def)
  next
    case (Some c)
    then obtain d where d: "ob_of st (ORef a) = Some d" "d \<in> D \<or> a \<in> vm_roots st"
      using OGet.prems(3,4) covered_ob [of D st a] by (auto simp: known_def)
    then have dd: "d \<notin> set ds' \<or> a \<in> vm_roots st" using an(2) by blast
    show ?thesis
    proof (cases "prop_at st a k")
      case None
      then have "value_at st' a k = OUndef" "value_at st a k = OUndef" using an(3) d(1) dd by (auto simp: value_at_def)
      then show ?thesis using OGet.IH [of "r OUndef" ds K] OGet.prems None by simp
    next
      case p: (Some p)
      obtain ds1 ds2 where r: "getter_deps f st p = Some ds1" "run_oreader f (r (pv p)) st = Some (x, ds2)" "ds = ds1 @ ds2"
        using OGet.prems(1) p by (auto split: option.splits)
      have c: "covered D st (pv p)" and e: "\<exists>e \<in> D. pd p = Some e"
        using getter_covers [OF ok _ p r(1)] d(1) OGet.prems(2) r(3) by auto
      then have "value_at st' a k = value_at st a k" using an(2,3) d(1) dd p by blast
      moreover have "value_at st a k = pv p" using p by (simp add: value_at_def)
      ultimately show ?thesis
        using OGet.IH [OF rangeI r(2) _ known_refs [OF OGet.prems(3) c]] OGet.prems(2,4) r(3) by simp
    qed
  qed
next
  case (OItem a i r)
  have "items_of st' (ORef a) = items_of st (ORef a)" using items_same OItem.prems(3,4) by simp
  then have i: "item_at st' a i = item_at st a i" by (simp add: item_at_def)
  have c: "covered D st (item_at st a i)"
  proof (cases "cells st a = None \<or> items_of st (ORef a) = None")
    case True
    then have "item_at st a i = OUndef" by (auto simp: item_at_def items_of_def)
    then show ?thesis by (intro covered_plain) simp
  next
    case False
    then show ?thesis using OItem.prems(3,4) covered_item by (auto simp: known_def)
  qed
  show ?case
    using OItem.IH [OF rangeI _ OItem.prems(2) known_refs [OF OItem.prems(3) c]] OItem.prems(1,4) i by simp
next
  case (OLength a r)
  have "items_of st' (ORef a) = items_of st (ORef a)" using items_same OLength.prems(3,4) by simp
  then have "length_at st' a = length_at st a" by (simp add: length_at_def)
  then show ?case using OLength.IH [OF rangeI _ OLength.prems(2,3)] OLength.prems(1,4) by simp
  qed
qed

section \<open>The data of a component\<close>

text \<open>Data before they are observed, and what \<open>observe(data, true)\<close> does.\<close>

definition raw_data :: "ostate \<Rightarrow> bool" where
  "raw_data st \<longleftrightarrow>
     (\<forall>a. ob_of st (ORef a) = None) \<and> (\<forall>a k p. prop_at st a k = Some p \<longrightarrow> pd p = None) \<and> vm_roots st = {}"

definition observe_data :: "nat \<Rightarrow> nat \<Rightarrow> ostate \<Rightarrow> ostate option" where
  "observe_data f a st = map_option (\<lambda>st. st\<lparr>vm_roots := insert a (vm_roots st)\<rparr>) (observe f (ORef a) st)"

primrec owrites :: "nat \<Rightarrow> owrite list \<Rightarrow> ostate \<Rightarrow> ostate option" where
  "owrites f [] st = Some st"
| "owrites f (w # ws) st = (if intercepted st w then Option.bind (owrite_step f w st) (owrites f ws) else None)"

text \<open>In order: what is observed has reactive properties whose values are observed, and nothing else has.\<close>

definition plain_rest :: "ostate \<Rightarrow> bool" where
  "plain_rest st \<longleftrightarrow> (\<forall>a k p. prop_at st a k = Some p \<longrightarrow> pd p \<noteq> None \<longrightarrow> ob_of st (ORef a) \<noteq> None)"

definition roots_ok :: "ostate \<Rightarrow> bool" where
  "roots_ok st \<longleftrightarrow> (\<forall>a \<in> vm_roots st. ob_of st (ORef a) \<noteq> None \<and> items_of st (ORef a) = None)"

definition data_but :: "nat set \<Rightarrow> ostate \<Rightarrow> bool" where
  "data_but A st \<longleftrightarrow> ok_but A st \<and> plain_rest st \<and> roots_ok st"

lemma ob_mono: "observes A st st' \<Longrightarrow> ob_of st v \<noteq> None \<Longrightarrow> ob_of st' v = ob_of st v"
  using seen_ob unfolding observes_def by metis

lemma put_prop_any:
  "ob_of (put_prop a k p st) v = ob_of st v" "items_of (put_prop a k p st) v = items_of st v"
  "unobserved (put_prop a k p st) v = unobserved st v" "b \<noteq> a \<Longrightarrow> cells (put_prop a k p st) b = cells st b"
  "vm_roots (put_prop a k p st) = vm_roots st"
  "prop_at (put_prop a k p st) b j = Some q \<Longrightarrow> prop_at st b j = Some q \<or> b = a \<and> j = k \<and> q = p"
  by (auto simp: put_prop_def ob_of_def items_of_def unobserved_def prop_at_def obj_simps
      split: oval.splits option.splits ocell.splits if_splits)

lemma put_items_any:
  "ob_of (put_items a xs st) v = ob_of st v" "unobserved (put_items a xs st) v = unobserved st v"
  "b \<noteq> a \<Longrightarrow> cells (put_items a xs st) b = cells st b" "vm_roots (put_items a xs st) = vm_roots st"
  "prop_at (put_items a xs st) b j = prop_at st b j"
  "items_of st (ORef a) \<noteq> None \<Longrightarrow> items_of (put_items a xs st) (ORef a) = Some xs"
  "items_of (put_items a xs st) (ORef b) = None \<longleftrightarrow> items_of st (ORef b) = None"
  by (auto simp: put_items_def ob_of_def items_of_def unobserved_def prop_at_def split: oval.splits option.splits ocell.splits if_splits)

lemma plain_define:
  assumes "\<And>v st st'. g v st = Some st' \<Longrightarrow> plain_rest st \<Longrightarrow> plain_rest st' \<and> observes {} st st'"
    and "define_reactive g a k st = Some st'" and "plain_rest st" and "ob_of st (ORef a) \<noteq> None"
  shows "plain_rest st' \<and> ob_of st' (ORef a) \<noteq> None"
proof (cases "prop_at st a k")
  case None
  then show ?thesis using assms(2-4) by (simp add: define_reactive_def)
next
  case (Some p)
  let ?s = "st\<lparr>next_dep := Suc (next_dep st)\<rparr>"
  obtain s where s: "g (pv p) ?s = Some s" "st' = put_prop a k \<lparr>pv = pv p, pd = Some (next_dep st), pc = ob_of s (pv p)\<rparr> s"
    using assms(2) Some by (auto simp: define_reactive_def)
  have "plain_rest ?s" using assms(3) by (simp add: plain_rest_def)
  then have "plain_rest s" "observes {} ?s s" using assms(1) s(1) by blast+
  moreover from this(2) have "ob_of s (ORef a) \<noteq> None" using ob_mono [of "{}" ?s s "ORef a"] assms(4) by simp
  ultimately show ?thesis unfolding s(2) plain_rest_def put_prop_any(1) by (metis put_prop_any(6))
qed

lemma plain_give:
  assumes "unobserved st (ORef a) = Some a" and "plain_rest st"
  shows "plain_rest (give_ob a st)"
proof -
  have "prop_at (give_ob a st) b k = prop_at st b k" for b k
    by (auto simp: give_ob_def prop_at_def split: option.splits ocell.splits)
  then show ?thesis using give_ob_observes(2,3) [OF assms(1)] assms(2) unfolding plain_rest_def by metis
qed

lemma plain_observe: "observe f v st = Some st' \<Longrightarrow> plain_rest st \<Longrightarrow> plain_rest st'"
proof (induction f arbitrary: v st st')
  case 0
  then show ?case by (simp split: if_splits)
next
  case (Suc f)
  have g: "plain_rest st' \<and> observes {} st st'" if "observe f v st = Some st'" "plain_rest st" for v st st'
    using Suc.IH observe_observes that by blast
  have fo: "plain_rest st'" if "foldo (observe f) xs st = Some st'" "plain_rest st" for xs st st'
    using that g by (induction xs arbitrary: st) (auto simp: bind_eq_Some_conv)
  have fd: "plain_rest st'"
    if "foldo (define_reactive (observe f) a) ks st = Some st'" "plain_rest st" "ob_of st (ORef a) \<noteq> None" for a ks st st'
    using that
  proof (induction ks arbitrary: st)
    case (Cons k ks)
    then obtain s where s: "define_reactive (observe f) a k st = Some s" "foldo (define_reactive (observe f) a) ks s = Some st'"
      by (auto simp: bind_eq_Some_conv)
    have "plain_rest s \<and> ob_of s (ORef a) \<noteq> None"
      by (rule plain_define [where g = "observe f", OF _ s(1) Cons.prems(2,3)]) (rule g)
    then show ?case using Cons.IH [OF s(2)] by blast
  qed simp
  show ?case
  proof (cases "unobserved st v")
    case None
    then show ?thesis using Suc.prems by simp
  next
    case (Some a)
    then obtain c where v: "v = ORef a" and c: "cells st a = Some c"
      by (auto simp: unobserved_def split: oval.splits option.splits if_splits)
    then have ua: "unobserved st (ORef a) = Some a" using Some by simp
    show ?thesis using Suc.prems Some c fo [OF _ plain_give [OF ua]] fd [OF _ plain_give [OF ua] give_ob_observes(2) [OF ua]]
      by (cases c) auto
  qed
qed

lemma plain_foldo: "foldo (observe f) xs st = Some st' \<Longrightarrow> plain_rest st \<Longrightarrow> plain_rest st'"
proof (induction xs arbitrary: st)
  case (Cons x xs)
  then show ?case using plain_observe by (auto simp: bind_eq_Some_conv)
qed simp

text \<open>A change of one cell, and its repair.\<close>

lemma data_touch:
  assumes "data_but A st" and "\<And>b. b \<noteq> a \<Longrightarrow> cells st' b = cells st b"
    and "\<And>v. ob_of st' v = ob_of st v" and "\<And>v. unobserved st' v = unobserved st v" and "vm_roots st' = vm_roots st"
    and "items_of st' (ORef a) = None \<longleftrightarrow> items_of st (ORef a) = None"
    and "\<And>k p. prop_at st' a k = Some p \<Longrightarrow> pd p \<noteq> None \<Longrightarrow> ob_of st (ORef a) \<noteq> None"
  shows "data_but (insert a A) st'"
proof -
  have same: "prop_at st' b k = prop_at st b k" "items_of st' (ORef b) = items_of st (ORef b)" if "b \<noteq> a" for b k
    using assms(2) [OF that] by (simp_all add: prop_at_def items_of_def)
  have "ok_cell st' b" if "b \<noteq> a" "b \<notin> A" "ob_of st (ORef b) \<noteq> None" for b
  proof -
    have "ok_cell st b" using assms(1) that(2,3) by (simp add: data_but_def ok_but_def)
    then show ?thesis using same [OF that(1)] by (simp add: ok_cell_def good_prop_def assms(3,4))
  qed
  then have "ok_but (insert a A) st'" by (simp add: ok_but_def assms(3))
  moreover have "plain_rest st'"
    using assms(1,7) same(1) unfolding data_but_def plain_rest_def assms(3) by metis
  moreover have "roots_ok st'"
    using assms(1,6) same(2) unfolding data_but_def roots_ok_def assms(3,5) by metis
  ultimately show ?thesis by (simp add: data_but_def)
qed

lemma data_repair: "data_but {a} st \<Longrightarrow> (ob_of st (ORef a) \<noteq> None \<Longrightarrow> ok_cell st a) \<Longrightarrow> data_but {} st"
  by (auto simp: data_but_def ok_but_def)

lemma data_put_prop:
  assumes "data_but A st" and "pd p \<noteq> None \<Longrightarrow> ob_of st (ORef a) \<noteq> None"
  shows "data_but (insert a A) (put_prop a k p st)"
proof (rule data_touch [OF assms(1)])
  show "pd q \<noteq> None \<Longrightarrow> ob_of st (ORef a) \<noteq> None" if "prop_at (put_prop a k p st) a j = Some q" for j q
    using put_prop_any(6) [OF that] assms unfolding data_but_def plain_rest_def by metis
qed (simp_all add: put_prop_any)

lemma data_put_items:
  assumes "data_but A st"
  shows "data_but (insert a A) (put_items a xs st)"
proof (rule data_touch [OF assms])
  show "pd q \<noteq> None \<Longrightarrow> ob_of st (ORef a) \<noteq> None" if "prop_at (put_items a xs st) a j = Some q" for j q
    using that assms unfolding put_items_any(5) data_but_def plain_rest_def by metis
qed (simp_all add: put_items_any)

lemma data_put_plain:
  assumes "data_but {} st" and "ob_of st (ORef a) = None"
  shows "data_but {} (put_items a xs st)" and "pd p = None \<Longrightarrow> data_but {} (put_prop a k p st)"
proof -
  show "data_but {} (put_items a xs st)"
    by (rule data_repair [OF data_put_items [OF assms(1)]]) (simp add: put_items_any assms(2))
  show "data_but {} (put_prop a k p st)" if "pd p = None"
    by (rule data_repair [OF data_put_prop [OF assms(1)]]) (simp_all add: put_prop_any assms(2) that)
qed

lemma data_notify [simp]: "data_but A (notify_dep d st) = data_but A st"
  by (simp add: notify_dep_def data_but_def ok_but_def ok_cell_def good_prop_def plain_rest_def roots_ok_def)

lemma roots_mono: "roots_ok st \<Longrightarrow> observes A st st' \<Longrightarrow> roots_ok st'"
  using ob_mono observes_reads(2) unfolding roots_ok_def observes_def by metis

lemma data_foldo:
  assumes "foldo (observe f) xs st = Some st'" and "data_but A st"
  shows "data_but A st' \<and> observes {} st st' \<and> (\<forall>x \<in> set xs. unobserved st' x = None)"
  using observe_all [OF observe_is_observer assms(1)] plain_foldo [OF assms(1)] roots_mono assms(2)
  unfolding data_but_def by blast

lemma data_observe:
  assumes "observe f v st = Some st'" and "data_but A st"
  shows "data_but A st' \<and> observes {} st st' \<and> unobserved st' v = None"
  using data_foldo [of f "[v]" st st' A] assms by simp

text \<open>What the properties and items of an observed cell are, seen from a later state.\<close>

lemma good_props:
  assumes "data_but {} st" and "ob_of st (ORef a) \<noteq> None" and "prop_at st a k = Some p"
  shows "good_prop st p"
  using assms by (simp add: data_but_def ok_but_def ok_cell_def)

lemma good_items:
  assumes "data_but {} st" and "ob_of st (ORef a) \<noteq> None" and "items_of st (ORef a) = Some xs" and "x \<in> set xs"
  shows "unobserved st x = None"
  using assms by (simp add: data_but_def ok_but_def ok_cell_def)

lemma prop_no_items: "prop_at st a k = Some p \<Longrightarrow> items_of st (ORef a) = None"
  by (auto simp: prop_at_def items_of_def split: option.splits ocell.splits)

lemma data_put_items_again:
  assumes "data_but {} st" and "ob_of st (ORef a) \<noteq> None" and "items_of st (ORef a) = Some xs"
    and "foldo (observe f) ys (put_items a zs st) = Some st'" and "set zs \<subseteq> set xs \<union> set ys \<union> {OUndef}"
  shows "data_but {} st'"
proof -
  let ?s = "put_items a zs st"
  have d: "data_but {a} st'" "observes {} ?s st'" "\<forall>y \<in> set ys. unobserved st' y = None"
    using data_foldo [OF assms(4) data_put_items [OF assms(1)]] by blast+
  have i: "items_of st' (ORef a) = Some zs" using assms(3) observes_reads(2) [OF d(2)] by (simp add: put_items_any(6))
  have "unobserved st' x = None" if "x \<in> set xs" for x
    using good_items [OF assms(1-3) that] put_items_any(2) d(2) unfolding observes_def by metis
  moreover have "unobserved st' OUndef = None" by (simp add: unobserved_def)
  ultimately have "\<forall>z \<in> set zs. unobserved st' z = None" using assms(5) d(3) by blast
  then have "ok_cell st' a" using i prop_no_items [of st' a] by (fastforce simp: ok_cell_def)
  then show ?thesis using data_repair d(1) by blast
qed

lemma mutated_from: "set (mutated m xs) \<subseteq> set xs \<union> set (inserted m)"
  by (cases m) (auto dest: in_set_butlastD in_set_takeD in_set_dropD list.set_sel(2) intro: list.set_sel(2))

lemma mutate_ok:
  assumes "mutate_array f a m st = Some st'" and "data_but {} st"
  shows "data_but {} st'"
proof (cases "items_of st (ORef a)")
  case None
  then show ?thesis using mutate_reads [OF assms(1)] assms(2) by simp
next
  case (Some xs)
  then obtain ob where c: "cells st a = Some (OArr xs ob)" by (auto simp: items_of_def split: option.splits ocell.splits)
  then have ob: "ob_of st (ORef a) = ob" by (simp add: ob_of_def)
  show ?thesis
  proof (cases ob)
    case None
    then have "st' = put_items a (mutated m xs) st" using assms(1) c by (simp add: mutate_array_def)
    then show ?thesis using data_put_plain(1) [OF assms(2)] ob None by simp
  next
    case (Some d)
    then obtain s where s: "foldo (observe f) (inserted m) (put_items a (mutated m xs) st) = Some s" "st' = notify_dep d s"
      using assms(1) c by (auto simp: mutate_array_def)
    have "ob_of st (ORef a) \<noteq> None" using ob Some by simp
    from data_put_items_again [OF assms(2) this \<open>items_of st (ORef a) = Some xs\<close> s(1)] show ?thesis
      using mutated_from s(2) by auto
  qed
qed

lemma data_prop_again:
  assumes "data_but {} st" and "ob_of st (ORef a) \<noteq> None" and "items_of st (ORef a) = None"
    and "data_but {a} st'" and "items_of st' (ORef a) = None"
    and "\<And>q. prop_at st' a k = Some q \<Longrightarrow> good_prop st' q"
    and "\<And>j. j \<noteq> k \<Longrightarrow> prop_at st' a j = prop_at st a j" and "\<And>q. good_prop st q \<Longrightarrow> good_prop st' q"
  shows "data_but {} st'"
proof (rule data_repair [OF assms(4)])
  show "ok_cell st' a"
    unfolding ok_cell_def
  proof (intro conjI allI impI)
    fix j q assume "prop_at st' a j = Some q"
    then show "good_prop st' q" using assms(6-8) good_props [OF assms(1,2)] by (cases "j = k") auto
  qed (use assms(5) in simp)
qed

lemma good_put: "good_prop (put_prop a k p st) q \<longleftrightarrow> good_prop st q"
  by (simp add: good_prop_def put_prop_any)

lemma assign_ok:
  assumes "assign_prop f a k v st = Some st'" and "data_but {} st" and "prop_at st a k \<noteq> None \<or> ob_of st (ORef a) = None"
  shows "data_but {} st'"
proof (cases "\<exists>p d. prop_at st a k = Some p \<and> pd p = Some d")
  case False
  have "ob_of st (ORef a) = None"
    using assms(2,3) False good_props [OF assms(2)] unfolding good_prop_def by (metis option.exhaust)
  moreover obtain p where "st' = put_prop a k p st" "pd p = None"
    using assms(1) False by (auto simp: assign_prop_def split: option.splits)
  ultimately show ?thesis using data_put_plain(2) [OF assms(2)] by simp
next
  case True
  then obtain p d where p: "prop_at st a k = Some p" "pd p = Some d" by blast
  then have ob: "ob_of st (ORef a) \<noteq> None" using assms(2) unfolding data_but_def plain_rest_def by blast
  show ?thesis
  proof (cases "v = pv p")
    case True
    then show ?thesis using assms(1,2) p by (simp add: assign_prop_def)
  next
    case False
    let ?s = "put_prop a k (p\<lparr>pv := v\<rparr>) st"
    obtain s where s: "observe f v ?s = Some s" "st' = notify_dep d (put_prop a k (p\<lparr>pv := v, pc := ob_of s v\<rparr>) s)"
      using assms(1) p False by (auto simp: assign_prop_def)
    let ?r = "put_prop a k (p\<lparr>pv := v, pc := ob_of s v\<rparr>) s"
    have 1: "data_but {a} s" "observes {} ?s s" "unobserved s v = None"
      using data_observe [OF s(1) data_put_prop [OF assms(2)]] ob by simp_all
    have i: "items_of st (ORef a) = None" using prop_no_items p(1) .
    have "ob_of ?s (ORef a) \<noteq> None" using ob put_prop_any(1) by simp
    then have "cells s a = cells ?s a" using 1(2) by (simp add: observes_def)
    then have pr: "prop_at s a j = (if j = k then Some (p\<lparr>pv := v\<rparr>) else prop_at st a j)" for j
      using put_prop_props(1) [OF p(1)] by (simp add: prop_at_def)
    have pr2: "prop_at ?r a j = (if j = k then Some (p\<lparr>pv := v, pc := ob_of s v\<rparr>) else prop_at st a j)" for j
      using put_prop_props(1) [of s a k] pr by simp
    have good: "good_prop st q \<Longrightarrow> good_prop ?r q" for q using good_put good_prop_mono [OF _ 1(2)] by simp
    have "data_but {} ?r"
    proof (rule data_prop_again [OF assms(2) ob i _ _ _ _ good, where k = k])
      have "ob_of s (ORef a) \<noteq> None" using ob_mono [OF 1(2)] ob put_prop_any(1) by simp
      then show "data_but {a} ?r" using data_put_prop [OF 1(1), where a = a] by simp
      show "items_of ?r (ORef a) = None" using i observes_reads(2) [OF 1(2)] by (simp add: put_prop_any)
      show "good_prop ?r q" if "prop_at ?r a k = Some q" for q
        using that pr2 1(3) p(2) by (auto simp: good_put good_prop_def put_prop_any(1,3))
    qed (simp add: pr2)
    then show ?thesis by (simp add: s(2))
  qed
qed

lemma vue_set_ok:
  assumes "vue_set f a k v st = Some st'" and "data_but {} st"
  shows "data_but {} st'"
proof (cases "prop_at st a k \<noteq> None \<or> ob_of st (ORef a) = None")
  case True
  then have "st' = st \<or> assign_prop f a k v st = Some st'"
    using assms(1) by (auto simp: vue_set_def split: if_splits option.splits)
  then show ?thesis using assign_ok [OF _ assms(2) True] assms(2) by blast
next
  case False
  then have ob: "ob_of st (ORef a) \<noteq> None" by blast
  let ?s = "put_prop a k \<lparr>pv = v, pd = None, pc = None\<rparr> st"
  show ?thesis
  proof (cases "a \<in> vm_roots st")
    case True
    then show ?thesis using assms False by (auto simp: vue_set_def)
  next
    case notroot: False
    then obtain d s where s: "define_reactive (observe f) a k ?s = Some s" "st' = notify_dep d s"
      using assms(1) False by (auto simp: vue_set_def)
    show ?thesis
    proof (cases "items_of st (ORef a)")
      case (Some xs)
      then have "?s = st" "prop_at st a k = None"
        by (auto simp: put_prop_def prop_at_def items_of_def split: option.splits ocell.splits)
      then show ?thesis using s assms(2) by (simp add: define_reactive_def)
    next
      case None
      have 0: "data_but {a} ?s" by (rule data_put_prop [OF assms(2)]) simp
      have ob0: "ob_of ?s (ORef a) \<noteq> None" using ob put_prop_any(1) by simp
      have 1: "ok_but {a} s" "observes {a} ?s s" "\<forall>p. prop_at s a k = Some p \<longrightarrow> good_prop s p"
        "\<forall>j. j \<noteq> k \<longrightarrow> prop_at s a j = prop_at ?s a j"
        using define_reactive_ok [OF observe_is_observer s(1) _ singletonI ob0] 0 by (simp_all add: data_but_def)
      have pl: "\<And>v st st'. observe f v st = Some st' \<Longrightarrow> plain_rest st \<Longrightarrow> plain_rest st' \<and> observes {} st st'"
        using plain_observe observe_observes by blast
      have "plain_rest s" using plain_define [OF pl s(1) _ ob0] 0 by (simp add: data_but_def)
      moreover have "roots_ok s" using roots_mono [OF _ 1(2)] 0 by (simp add: data_but_def)
      ultimately have d: "data_but {a} s" using 1(1) by (simp add: data_but_def)
      have "data_but {} s"
      proof (rule data_prop_again [OF assms(2) ob None d, where k = k])
        show "items_of s (ORef a) = None" using None observes_reads(2) [OF 1(2)] put_prop_any(2) by simp
        show "good_prop st q \<Longrightarrow> good_prop s q" for q using good_prop_mono [OF _ 1(2)] good_put by blast
        show "prop_at s a j = prop_at st a j" if "j \<noteq> k" for j
          using 1(4) that by (auto simp: put_prop_def prop_at_def obj_simps split: option.splits ocell.splits)
      qed (use 1(3) in blast)
      then show ?thesis using s(2) by simp
    qed
  qed
qed

lemma vue_delete_ok:
  assumes "data_but {} st"
  shows "data_but {} (vue_delete a k st)"
proof (cases "a \<in> vm_roots st \<or> prop_at st a k = None")
  case True
  then have "vue_delete a k st = st" by (auto simp: vue_delete_def prop_at_def split: option.splits ocell.splits)
  then show ?thesis using assms by simp
next
  case False
  then obtain ps ob where c: "cells st a = Some (OObj ps ob)" "oget ps k \<noteq> None"
    by (auto simp: prop_at_def split: option.splits ocell.splits)
  let ?s = "st\<lparr>cells := (cells st)(a \<mapsto> OObj (odel k ps) ob)\<rparr>"
  have same: "ob_of ?s v = ob_of st v" "unobserved ?s v = unobserved st v" for v
    using c(1) by (auto simp: ob_of_def unobserved_def split: oval.splits)
  have less: "prop_at st a j = Some q" if "prop_at ?s a j = Some q" for j q
    using that c(1) by (auto simp: prop_at_def obj_simps split: if_splits)
  have i: "items_of ?s (ORef a) = None" "items_of st (ORef a) = None" using c(1) by (simp_all add: items_of_def)
  moreover have "ob_of st (ORef a) \<noteq> None" if "prop_at ?s a j = Some q" "pd q \<noteq> None" for j q
    using less [OF that(1)] that(2) assms unfolding data_but_def plain_rest_def by blast
  ultimately have d: "data_but {a} ?s" using same by (intro data_touch [OF assms]) simp_all
  have "ok_cell ?s a" if "ob_of st (ORef a) \<noteq> None"
    using good_props [OF assms that less] i(1) by (simp add: ok_cell_def good_prop_def same)
  then have "data_but {} ?s" using data_repair [OF d] same by simp
  moreover have "vue_delete a k st = (case ob of None \<Rightarrow> ?s | Some d \<Rightarrow> notify_dep d ?s)"
    using c False by (auto simp: vue_delete_def Let_def)
  ultimately show ?thesis by (cases ob) (simp_all split: option.split)
qed

text \<open>Every intercepted write keeps the data in order.\<close>

lemma owrite_ok:
  assumes "owrite_step f w st = Some st'" and "intercepted st w" and "data_but {} st"
  shows "data_but {} st'"
proof (cases w)
  case (OAssign a k v)
  then show ?thesis using assms assign_ok by simp
next
  case (OMutate a m)
  then show ?thesis using assms mutate_ok by simp
next
  case (OVueSet a k v)
  then show ?thesis using assms vue_set_ok by simp
next
  case (OVueDelete a k)
  then show ?thesis using assms vue_delete_ok by auto
next
  case (OWriteItem a i v)
  then show ?thesis using assms data_put_plain(1) by (auto simp: write_item_def split: option.splits)
next
  case (OVueSetItem a i v)
  show ?thesis
  proof (cases "items_of st (ORef a)")
    case None
    then show ?thesis using OVueSetItem assms by (simp add: vue_set_item_def)
  next
    case (Some xs)
    let ?xs = "xs @ replicate (i - length xs) OUndef"
    have "data_but {} (put_items a ?xs st)"
    proof (cases "ob_of st (ORef a)")
      case None
      then show ?thesis using data_put_plain(1) assms(3) by blast
    next
      case d: (Some d)
      then have "ob_of st (ORef a) \<noteq> None" by simp
      from data_put_items_again [OF assms(3) this Some, of f "[]"] show ?thesis by (simp add: set_replicate_conv_if subset_insertI)
    qed
    then show ?thesis using OVueSetItem assms(1) Some mutate_ok by (simp add: vue_set_item_def)
  qed
qed

lemma owrites_ok: "owrites f ws st = Some st' \<Longrightarrow> data_but {} st \<Longrightarrow> data_but {} st'"
proof (induction ws arbitrary: st)
  case (Cons w ws)
  then show ?case using owrite_ok by (auto simp: bind_eq_Some_conv split: if_splits)
qed simp

lemma raw_data_ok: "raw_data st \<Longrightarrow> data_but {} st"
  by (simp add: raw_data_def data_but_def ok_but_def plain_rest_def roots_ok_def)

lemma observe_data_ok:
  assumes "observe_data f a st = Some st'" and "data_but {} st" and "cells st a = Some (OObj ps ob)"
  shows "data_but {} st' \<and> a \<in> vm_roots st'"
proof -
  obtain s where s: "observe f (ORef a) st = Some s" "st' = s\<lparr>vm_roots := insert a (vm_roots s)\<rparr>"
    using assms(1) by (auto simp: observe_data_def)
  have d: "data_but {} s" "observes {} st s" "unobserved s (ORef a) = None" using data_observe [OF s(1) assms(2)] by blast+
  have "cells s a \<noteq> None" using d(2) assms(3) by (simp add: observes_def)
  then have ob: "ob_of s (ORef a) \<noteq> None" using seen_cell [OF d(3)] by auto
  have "items_of st (ORef a) = None" using assms(3) by (simp add: items_of_def)
  then have i: "items_of s (ORef a) = None" using observes_reads(2) [OF d(2)] by simp
  have same: "ob_of st' = ob_of s" "unobserved st' = unobserved s" "prop_at st' = prop_at s" "items_of st' = items_of s"
    by (simp_all add: fun_eq_iff s(2) ob_of_def unobserved_def prop_at_def items_of_def split: oval.split)
  have "data_but {} st'"
    using d(1) ob i unfolding data_but_def ok_but_def ok_cell_def good_prop_def plain_rest_def roots_ok_def same
    by (simp add: s(2))
  then show ?thesis by (simp add: s(2))
qed

lemma run_oreader_eval: "run_oreader f r st = Some (x, ds) \<Longrightarrow> o_eval r st = x"
proof (induction r arbitrary: ds)
  case (OGet a k r)
  then show ?case by (auto simp: value_at_def split: option.splits)
qed auto

lemma owrites_roots: "owrites f ws st = Some st' \<Longrightarrow> vm_roots st' = vm_roots st"
proof (induction ws arbitrary: st)
  case (Cons w ws)
  then obtain s where "intercepted st w" "owrite_step f w st = Some s" "owrites f ws s = Some st'"
    by (auto simp: bind_eq_Some_conv split: if_splits)
  then show ?case using Cons.IH owrite_announced unfolding announced_def by metis
qed simp

text \<open>What a render function has read, starting from the data of the component, is told of every change.\<close>

lemma noticed:
  assumes "data_but {} st" and "a \<in> vm_roots st" and "in_scope r {a} st" and "run_oreader f r st = Some (x, ds)"
    and "intercepted st w" and "owrite_step g w st = Some st'" and "o_eval r st' \<noteq> x"
  shows "\<exists>d \<in> set ds. d \<in> set (drop (length (told st)) (told st'))"
proof -
  obtain ds' where an: "told st' = told st @ ds'"
    "\<forall>a d k. ob_of st (ORef a) = Some d \<longrightarrow> (d \<notin> set ds' \<or> a \<in> vm_roots st) \<longrightarrow>
       (\<forall>p e. prop_at st a k = Some p \<longrightarrow> pd p = Some e \<longrightarrow> e \<notin> set ds' \<longrightarrow> value_at st' a k = value_at st a k)
       \<and> (prop_at st a k = None \<longrightarrow> value_at st' a k = OUndef)"
    "\<forall>a d. ob_of st (ORef a) = Some d \<longrightarrow> d \<notin> set ds' \<or> items_of st (ORef a) = None \<longrightarrow>
       items_of st' (ORef a) = items_of st (ORef a)"
    "\<forall>a. cells st a = None \<longrightarrow> cells st' a = None"
    using owrite_announced [OF assms(6,5)] unfolding announced_def by blast
  have ok: "ok_but {} st" and k: "known (set ds) st {a}" using assms(1,2) by (simp_all add: data_but_def roots_ok_def known_def)
  have "set ds' \<inter> set ds \<noteq> {}"
    using reader_unchanged [OF ok an(1) _ an(2,3,4) assms(4) subset_refl k assms(3)] assms(7) by blast
  then show ?thesis using an(1) by auto
qed

section \<open>Enough depth\<close>

lemma put_items_to_observe: "to_observe (put_items a xs st) = to_observe st"
  by (simp add: to_observe_def put_items_any)

lemma notify_to_observe: "to_observe (notify_dep d st) = to_observe st"
  by (simp add: to_observe_def notify_dep_def)

text \<open>No write makes a cell, so a depth of as many calls as there were cells to observe at first stays enough.\<close>

lemma owrite_ends:
  assumes "finite U" and "card U \<le> f" and "to_observe st \<subseteq> U"
  shows "\<exists>st'. owrite_step f w st = Some st' \<and> to_observe st' \<subseteq> U"
proof -
  have ob: "\<exists>s'. observe f v s = Some s' \<and> to_observe s' \<subseteq> U" if "to_observe s \<subseteq> U" for v s
    using observe_ends assms(1,2) that by blast
  have fo: "\<exists>s'. foldo (observe f) xs s = Some s' \<and> to_observe s' \<subseteq> U" if "to_observe s \<subseteq> U" for xs s
    by (rule foldo_ends [OF ob that])
  have as: "\<exists>s'. assign_prop f a k v s = Some s' \<and> to_observe s' \<subseteq> U" if s: "to_observe s \<subseteq> U" for a k v s
  proof (cases "\<exists>p d. prop_at s a k = Some p \<and> pd p = Some d \<and> v \<noteq> pv p")
    case False
    then show ?thesis using s by (auto simp: assign_prop_def put_prop_to_observe split: option.split)
  next
    case True
    then obtain p d where p: "prop_at s a k = Some p" "pd p = Some d" "v \<noteq> pv p" by blast
    have "to_observe (put_prop a k (p\<lparr>pv := v\<rparr>) s) \<subseteq> U" using s by (simp add: put_prop_to_observe)
    from ob [OF this, of v] obtain s' where
      "observe f v (put_prop a k (p\<lparr>pv := v\<rparr>) s) = Some s'" "to_observe s' \<subseteq> U" by blast
    then show ?thesis using p by (simp add: assign_prop_def notify_to_observe put_prop_to_observe)
  qed
  have mu: "\<exists>s'. mutate_array f a m s = Some s' \<and> to_observe s' \<subseteq> U" if s: "to_observe s \<subseteq> U" for a m s
  proof (cases "\<exists>xs d. cells s a = Some (OArr xs (Some d))")
    case False
    then show ?thesis using s by (auto simp: mutate_array_def put_items_to_observe split: option.split ocell.split)
  next
    case True
    then obtain xs d where c: "cells s a = Some (OArr xs (Some d))" by blast
    have "to_observe (put_items a (mutated m xs) s) \<subseteq> U" using s by (simp add: put_items_to_observe)
    from fo [OF this, of "inserted m"] obtain s' where
      "foldo (observe f) (inserted m) (put_items a (mutated m xs) s) = Some s'" "to_observe s' \<subseteq> U" by blast
    then show ?thesis using c by (simp add: mutate_array_def notify_to_observe)
  qed
  show ?thesis
  proof (cases w)
    case (OVueSet a k v)
    let ?s = "put_prop a k \<lparr>pv = v, pd = None, pc = None\<rparr> st"
    have "to_observe ?s \<subseteq> U" using assms(3) by (simp add: put_prop_to_observe)
    from define_reactive_ends [where g = "observe f", OF ob this] obtain s' where
      "define_reactive (observe f) a k ?s = Some s'" "to_observe s' \<subseteq> U" by blast
    then show ?thesis using OVueSet as [OF assms(3)] assms(3)
      by (auto simp: vue_set_def notify_to_observe split: option.split)
  next
    case (OVueSetItem a i v)
    then show ?thesis using mu assms(3) by (auto simp: vue_set_item_def put_items_to_observe split: option.split)
  next
    case (OVueDelete a k)
    have "unobserved (vue_delete a k st) v = unobserved st v" for v
      by (auto simp: vue_delete_def Let_def notify_dep_def unobserved_def split: option.split ocell.split oval.split)
    then have "to_observe (vue_delete a k st) = to_observe st" by (simp add: to_observe_def)
    then show ?thesis using OVueDelete assms(3) by auto
  next
    case (OWriteItem a i v)
    then show ?thesis using assms(3) by (simp add: write_item_def put_items_to_observe split: option.split)
  qed (use as mu assms(3) in auto)
qed

lemma observe_data_ends:
  assumes "finite U" and "card U \<le> f" and "to_observe st \<subseteq> U"
  shows "\<exists>st'. observe_data f a st = Some st' \<and> to_observe st' \<subseteq> U"
proof -
  obtain s where s: "observe f (ORef a) st = Some s" "to_observe s \<subseteq> U" using observe_ends assms by blast
  have "unobserved (s\<lparr>vm_roots := X\<rparr>) v = unobserved s v" for X v by (simp add: unobserved_def split: oval.split)
  then have "to_observe (s\<lparr>vm_roots := X\<rparr>) = to_observe s" for X by (simp add: to_observe_def)
  then show ?thesis using s by (simp add: observe_data_def)
qed

lemma owrites_keep_bound:
  "finite U \<Longrightarrow> card U \<le> f \<Longrightarrow> to_observe st \<subseteq> U \<Longrightarrow> owrites f ws st = Some st' \<Longrightarrow> to_observe st' \<subseteq> U"
proof (induction ws arbitrary: st)
  case (Cons w ws)
  obtain s where s: "owrite_step f w st = Some s" "to_observe s \<subseteq> U" using owrite_ends Cons.prems(1-3) by blast
  then have "owrites f ws s = Some st'" using Cons.prems(4) by (simp split: if_splits)
  then show ?case using Cons.IH Cons.prems(1,2) s(2) by blast
qed simp

text \<open>So observing ends, on data that contain themselves too, and no write after it overflows.\<close>

lemma observing_ends:
  assumes "finite (to_observe st0)" and "card (to_observe st0) \<le> f"
  shows "\<exists>st1. observe_data f a st0 = Some st1
    \<and> (\<forall>ws st w. owrites f ws st1 = Some st \<longrightarrow> (\<exists>st'. owrite_step f w st = Some st'))"
proof -
  obtain st1 where st1: "observe_data f a st0 = Some st1" "to_observe st1 \<subseteq> to_observe st0"
    using observe_data_ends [OF assms subset_refl] by blast
  then show ?thesis using owrites_keep_bound [OF assms st1(2)] owrite_ends [OF assms] by metis
qed

definition cyclic_data :: ostate where
  "cyclic_data =
     \<lparr>cells = [0 \<mapsto> OObj [(''self'', \<lparr>pv = ORef 0, pd = None, pc = None\<rparr>), (''list'', \<lparr>pv = ORef 1, pd = None, pc = None\<rparr>)] None,
        1 \<mapsto> OArr [ORef 0, ORef 1] None], next_dep = 0, vm_roots = {}, told = []\<rparr>"

lemma observing_ends_witness:
  "\<exists>st1. observe_data 2 0 cyclic_data = Some st1
    \<and> (\<forall>ws st w. owrites 2 ws st1 = Some st \<longrightarrow> (\<exists>st'. owrite_step 2 w st = Some st'))"
proof (rule observing_ends)
  have "to_observe cyclic_data = {0, 1}"
    by (auto simp: to_observe_def unobserved_def cyclic_data_def split: option.splits if_splits)
  then show "finite (to_observe cyclic_data)" "card (to_observe cyclic_data) \<le> 2" by simp_all
qed

text \<open>The limit of the interception: a write by index is announced to nobody.\<close>

lemma index_write_is_silent:
  assumes "items_of st (ORef a) = Some xs" and "i < length xs"
  shows "told (write_item a i v st) = told st" and "item_at (write_item a i v st) a i = v"
proof -
  obtain ob where c: "cells st a = Some (OArr xs ob)" using assms(1) by (auto simp: items_of_def split: option.splits ocell.splits)
  show "told (write_item a i v st) = told st" by (simp add: write_item_def split: option.split)
  show "item_at (write_item a i v st) a i = v"
    using c assms(2) by (simp add: item_at_def write_item_def items_of_def put_items_def)
qed

end
