(* ===== verification/VueNotice.thy ===== *)
theory VueNotice
  imports VueObserver VueFlush
begin

text \<open>
  Nested data and watchers together (module \<open>2b0e\<close> of \<open>chunk-vendors.ddcb6f91.js\<close>): the watcher of a
  component collects the \<open>Dep\<close>s that the getters of \<open>VueObserver\<close> name, and the notifications of a write
  go through the scheduler of \<open>VueReactive\<close>.
\<close>

text \<open>A run of a getter that has named \<open>ds\<close> and given \<open>x\<close>, as the watcher sees it.\<close>

definition dep_reader :: "nat list \<Rightarrow> 'a \<Rightarrow> 'a reader" where
  "dep_reader ds x = foldr (\<lambda>d k. Read d (\<lambda>v. k)) ds (Give x)"

definition announce :: "nat list \<Rightarrow> rstate \<Rightarrow> rstate" where
  "announce ds st = fold notify_subs ds st"

lemma dep_reader_reads [simp]: "r_reads (dep_reader ds x) s = ds" "r_eval (dep_reader ds x) s = x"
  by (induction ds) (simp_all add: dep_reader_def)

lemma queue_watchers_has:
  "subs (fold queue_watcher ws st) = subs st \<and> (\<forall>w. has (fold queue_watcher ws st) w \<longleftrightarrow> has st w \<or> w \<in> set ws)"
proof (induction ws arbitrary: st)
  case (Cons u ws)
  have "subs (queue_watcher u st) = subs st" "has (queue_watcher u st) w \<longleftrightarrow> has st w \<or> w = u" for w
    by (auto simp: queue_watcher_def next_tick_def Let_def)
  then show ?case using Cons.IH [of "queue_watcher u st"] by auto
qed simp

lemma announce_has:
  "subs (announce ds st) = subs st \<and> (\<forall>w. has (announce ds st) w \<longleftrightarrow> has st w \<or> (\<exists>d \<in> set ds. w \<in> set (subs st d)))"
proof (induction ds arbitrary: st)
  case (Cons d ds)
  have "announce (d # ds) st = announce ds (notify_subs d st)" by (simp add: announce_def)
  then show ?case using Cons.IH [of "notify_subs d st"] queue_watchers_has [of "subs st d" st] by (auto simp: notify_subs_def)
qed (simp add: announce_def)

text \<open>A component is subscribed to what its first run has read.\<close>

lemma mounted_subscribed:
  assumes "reactive_ok [] st" and "d \<in> set (r_reads r (rstore st))"
  shows "Suc (uid st) \<in> set (subs (mount_component r st) d)"
proof -
  let ?w = "Suc (uid st)" and ?st = "mount_component r st" and ?r = "component_getter r"
  let ?x = "\<lparr>getter = ?r, cb = (\<lambda>s e t. []), value_of = VUndefined, is_active = True, deps = [], new_deps = [],
    dep_ids = {}, new_dep_ids = {}\<rparr>"
  let ?s = "set_watcher ?w ?x (st\<lparr>uid := ?w\<rparr>)"
  have l: "linked st" using assms(1) by (simp add: reactive_ok_def)
  then have "\<not> is_active (watchers st ?w)" by (auto simp: linked_def)
  then have "linked ?s" using l by (auto simp: linked_def clean_def set_watcher_def)
  moreover have "is_active (watchers ?s ?w)" by (simp add: set_watcher_def)
  ultimately obtain S ds where g: "watcher_get ?w ?s = (r_eval (getter (watchers ?s ?w)) (rstore ?s),
      ?s\<lparr>subs := S, drawn := (drawn ?s)(?w := drawn ?s ?w @ [rstore ?s]),
        watchers := (watchers ?s)(?w := (watchers ?s ?w)\<lparr>deps := ds, dep_ids := set ds\<rparr>)\<rparr>)"
    "set ds = set (r_reads (getter (watchers ?s ?w)) (rstore ?s))"
    using watcher_get_spec by metis
  have "watchers ?st ?w = ?x\<lparr>deps := ds, dep_ids := set ds, value_of := r_eval ?r (rstore st)\<rparr>"
    using g(1) by (simp add: mount_component_def new_watcher_def set_watcher_def)
  then have "is_active (watchers ?st ?w)" "set (deps (watchers ?st ?w)) = set (r_reads r (rstore st))"
    using g(2) by (simp_all add: set_watcher_def component_reads)
  moreover have "linked ?st" using new_watcher_ok [OF assms(1)] by (simp add: mount_component_def reactive_ok_def)
  ultimately show ?thesis using assms(2) by (simp add: linked_def)
qed

lemma announced_component:
  assumes "reactive_ok [] st" and "d \<in> set ds" and "d \<in> set es"
  shows "has (announce es (mount_component (dep_reader ds x) st)) (Suc (uid st))"
  using announce_has mounted_subscribed [OF assms(1), of d "dep_reader ds x"] assms(2,3) by auto

section \<open>A list in the data\<close>

text \<open>Items in a list in the data; the component shows the text of the first; the list gets an item in
  front, and then the text of that item changes.\<close>

definition nested_data :: ostate where
  "nested_data =
     \<lparr>cells = [0 \<mapsto> OObj [(''items'', \<lparr>pv = ORef 1, pd = None, pc = None\<rparr>)] None, 1 \<mapsto> OArr [ORef 2] None,
        2 \<mapsto> OObj [(''text'', \<lparr>pv = OText ''a'', pd = None, pc = None\<rparr>)] None,
        3 \<mapsto> OObj [(''text'', \<lparr>pv = OText ''b'', pd = None, pc = None\<rparr>)] None],
      next_dep = 0, vm_roots = {}, told = []\<rparr>"

definition cell_of :: "oval \<Rightarrow> nat" where
  "cell_of v = (case v of ORef a \<Rightarrow> a | _ \<Rightarrow> 99)"

definition show_first :: "oval oreader" where
  "show_first = OGet 0 ''items'' (\<lambda>xs. OItem (cell_of xs) 0 (\<lambda>x. OGet (cell_of x) ''text'' ODone))"

definition nested_write :: owrite where
  "nested_write = OAssign 3 ''text'' (OText ''c'')"

definition nested_seen :: "ostate option" where
  "nested_seen = observe_data 4 0 nested_data"

definition nested_changed :: "ostate option" where
  "nested_changed = owrites 4 [OMutate 1 (Unshift [ORef 3])] (the nested_seen)"

definition nested_written :: "ostate option" where
  "nested_written = owrite_step 4 nested_write (the nested_changed)"

lemma nested_states: "\<not> Option.is_none nested_seen" "\<not> Option.is_none nested_changed" "\<not> Option.is_none nested_written"
  by code_simp+

lemma nested_reads:
  "in_scope show_first {0} (the nested_changed)" "intercepted (the nested_changed) nested_write"
  "run_oreader 4 show_first (the nested_changed) = Some (OText ''b'', [1, 2, 5, 3, 6])"
  "o_eval show_first (the nested_written) = OText ''c''"
  by code_simp+

lemma nested_raw: "raw_data nested_data"
  by (simp add: nested_data_def raw_data_def ob_of_def prop_at_def split: option.split ocell.split if_splits)

end
