(* ===== verification/TodoScreen.thy ===== *)
theory TodoScreen
  imports TodoSystem VueNotice
begin

text \<open>
  The todo page on Vue's data (module \<open>56d7\<close> of \<open>app.007f9690.js\<close> on module \<open>2b0e\<close> of
  \<open>chunk-vendors.ddcb6f91.js\<close>). \<open>TodoClient\<close> has the page's variables as values; here they are observed cells: the
  object that \<open>data()\<close> gives is cell 0, the row object \<open>a\<close> is cell \<open>row_cell a\<close>, arrays and error objects are
  the other cells. Each gesture and each callback makes at most one write, which Vue intercepts, and
  leaves cells that hold what \<open>TodoClient\<close> says.
\<close>

section \<open>The writes of the page\<close>

definition row_cell :: "nat \<Rightarrow> nat" where
  "row_cell a = Suc (2 * a)"

definition table_cell :: "nat \<Rightarrow> bool" where
  "table_cell t \<longleftrightarrow> t \<noteq> 0 \<and> even t"

fun otruthy :: "oval \<Rightarrow> bool" where
  "otruthy OUndef = False"
| "otruthy ONull = False"
| "otruthy (OBool b) = b"
| "otruthy (ONum n) = (n \<noteq> 0)"
| "otruthy (OText s) = (s \<noteq> [])"
| "otruthy (ORef a) = True"

text \<open>The callback of a request; \<open>t\<close> is the cell of what \<open>JSON.parse\<close> has made of a list reply.\<close>

fun reply_write :: "nat \<Rightarrow> continuation \<Rightarrow> settled \<Rightarrow> ostate \<Rightarrow> owrite option" where
  "reply_write t KList (Ok rep) st = Some (OAssign 0 ''tableData'' (ORef t))"
| "reply_write t (KEdit e a w) (Ok rep) st =
     (case value_at st 0 ''tableData'' of
        ORef r \<Rightarrow>
          (case item_at st r e of
             ORef b \<Rightarrow> Some (OAssign b ''status'' (OBool (\<not> otruthy (value_at st (row_cell a) ''status''))))
           | _ \<Rightarrow> None)
      | _ \<Rightarrow> None)"
| "reply_write t (KDelete e) (Ok rep) st =
     (case value_at st 0 ''tableData'' of
        ORef r \<Rightarrow> (if items_of st (ORef r) = None then None else Some (OMutate r (Splice (min e (length_at st r)) 1 [])))
      | _ \<Rightarrow> None)"
| "reply_write t k s st = None"

text \<open>The input field and the button that adds.\<close>

fun act_write :: "action \<Rightarrow> client \<Rightarrow> owrite option" where
  "act_write (TypeTitle s) c = Some (OAssign 0 ''newTitle'' (OText s))"
| "act_write ClickAdd c = (if newTitle c \<noteq> [] then Some (OAssign 0 ''newTitle'' (OText [])) else None)"
| "act_write _ c = None"

fun perform :: "nat \<Rightarrow> owrite option \<Rightarrow> ostate \<Rightarrow> ostate option" where
  "perform f None st = Some st"
| "perform f (Some w) st = owrite_step f w st"

section \<open>Cells that hold the page's data\<close>

fun same_scalar :: "jv \<Rightarrow> oval \<Rightarrow> bool" where
  "same_scalar Undef v = (v = OUndef)"
| "same_scalar Null v = (v = ONull)"
| "same_scalar (Bool b) v = (v = OBool b)"
| "same_scalar (Num n) v = (v = ONum n)"
| "same_scalar (Str s) v = (v = OText s)"
| "same_scalar _ v = False"

lemma same_truthy: "same_scalar v w \<Longrightarrow> truthy v = otruthy w"
  by (cases v) auto

definition object_at :: "ostate \<Rightarrow> nat \<Rightarrow> jv \<Rightarrow> bool" where
  "object_at st a v \<longleftrightarrow> (\<forall>k. same_scalar (getv v k) (value_at st a k))"

definition rows_at :: "ostate \<Rightarrow> nat \<Rightarrow> nat list \<Rightarrow> bool" where
  "rows_at st t as \<longleftrightarrow> items_of st (ORef t) = Some (map (\<lambda>a. ORef (row_cell a)) as)"

definition error_at :: "ostate \<Rightarrow> nat \<Rightarrow> jv \<Rightarrow> bool" where
  "error_at st t v \<longleftrightarrow> items_of st (ORef t) = None \<and> object_at st t v \<and> (\<exists>m. v = error_json m)"

definition holds :: "client \<Rightarrow> ostate \<Rightarrow> bool" where
  "holds c st \<longleftrightarrow>
     value_at st 0 ''newTitle'' = OText (newTitle c)
     \<and> (\<forall>a < next_row c. object_at st (row_cell a) (row_heap c a))
     \<and> (\<exists>t. value_at st 0 ''tableData'' = ORef t \<and> table_cell t
        \<and> (case tableData c of Table arr \<Rightarrow> rows_at st t (to_list arr) | NotArray v \<Rightarrow> error_at st t v))"

text \<open>What \<open>JSON.parse\<close> has made of a list reply: an array of new row objects, or an error object.\<close>

definition parsed :: "nat \<Rightarrow> nat \<Rightarrow> jv \<Rightarrow> ostate \<Rightarrow> bool" where
  "parsed t n v st \<longleftrightarrow> table_cell t \<and>
     (case v of
        Arr vs \<Rightarrow> rows_at st t [n..<n + length vs] \<and> (\<forall>i < length vs. object_at st (row_cell (n + i)) (vs ! i))
      | _ \<Rightarrow> error_at st t v)"

definition reply_fits :: "nat \<Rightarrow> continuation \<Rightarrow> settled \<Rightarrow> client \<Rightarrow> ostate \<Rightarrow> bool" where
  "reply_fits t k s c st \<longleftrightarrow>
     (\<forall>rep. k = KList \<longrightarrow> s = Ok rep \<longrightarrow>
        ((\<exists>ts. getv rep ''data'' = Arr (map todo_json ts) \<and> length ts \<le> max_safe) \<or> (\<exists>m. getv rep ''data'' = error_json m))
        \<and> parsed t (next_row c) (getv rep ''data'') st)
     \<and> (\<forall>e a w. k = KEdit e a w \<longrightarrow> a < next_row c)"

section \<open>One step\<close>

lemma assign_reads:
  assumes "assign_prop f a k v st = Some st'" and "prop_at st a k \<noteq> None"
  shows "reads_same {(a, k)} {} st st' \<and> value_at st' a k = v"
proof -
  obtain p where p: "prop_at st a k = Some p" using assms(2) by blast
  show ?thesis
  proof (cases "\<exists>d. pd p = Some d \<and> v \<noteq> pv p")
    case False
    then consider "st' = st" "v = pv p" | "st' = put_prop a k (p\<lparr>pv := v\<rparr>) st"
      using assms(1) p by (auto simp: assign_prop_def split: option.splits if_splits)
    then show ?thesis
    proof cases
      case 1
      then show ?thesis using p by (simp add: value_at_def reads_same_def)
    next
      case 2
      then show ?thesis
        using reads_same_put_prop [of a k "{}" st] put_prop_props(1) [OF p, of _ a k] by (simp add: value_at_def)
    qed
  next
    case True
    then obtain d where d: "pd p = Some d" "v \<noteq> pv p" by blast
    let ?s = "put_prop a k (p\<lparr>pv := v\<rparr>) st"
    obtain s' where s': "observe f v ?s = Some s'" "st' = notify_dep d (put_prop a k (p\<lparr>pv := v, pc := ob_of s' v\<rparr>) s')"
      using assms(1) p d by (auto simp: assign_prop_def)
    have o: "observes {} ?s s'" using observe_observes s'(1) .
    have "prop_at ?s a k = Some (p\<lparr>pv := v\<rparr>)" using put_prop_props(1) [OF p] by simp
    then obtain q where q: "prop_at s' a k = Some q" using observes_reads(3) [OF o, of a k] by auto
    have "value_at st' a k = v"
      using put_prop_props(1) [OF q, of "p\<lparr>pv := v, pc := ob_of s' v\<rparr>" a k] by (simp add: s'(2) value_at_def notify_dep_def)
    moreover have "reads_same {(a, k)} {} st st'" unfolding s'(2)
      by (rule reads_same_trans [OF reads_same_trans [OF reads_same_trans [OF reads_same_put_prop reads_same_observes [OF o]]
        reads_same_put_prop] reads_same_told])
    ultimately show ?thesis by blast
  qed
qed

lemma mutate_items:
  assumes "mutate_array f a m st = Some st'" and "items_of st (ORef a) = Some xs"
  shows "items_of st' (ORef a) = Some (mutated m xs)"
proof -
  obtain ob where c: "cells st a = Some (OArr xs ob)" using assms(2) by (auto simp: items_of_def split: option.splits ocell.splits)
  then have i: "items_of (put_items a (mutated m xs) st) (ORef a) = Some (mutated m xs)"
    by (simp add: items_of_def put_items_def)
  show ?thesis
  proof (cases ob)
    case None
    then show ?thesis using assms(1) c i by (simp add: mutate_array_def)
  next
    case (Some d)
    then obtain s where s: "foldo (observe f) (inserted m) (put_items a (mutated m xs) st) = Some s" "st' = notify_dep d s"
      using assms(1) c by (auto simp: mutate_array_def)
    have "items_of s (ORef a) = items_of (put_items a (mutated m xs) st) (ORef a)"
      using observes_reads(2) [OF foldo_observes [OF s(1)]] .
    then show ?thesis using i s(2) by (simp add: notify_dep_def)
  qed
qed

lemma object_same:
  "reads_same P B st st' \<Longrightarrow> (\<And>k. (a, k) \<notin> P) \<Longrightarrow> object_at st' a v = object_at st a v"
  by (simp add: object_at_def reads_same_def)

lemma table_same:
  assumes "reads_same P B st st'" and "t \<notin> B" and "\<And>k. (t, k) \<notin> P"
  shows "rows_at st' t as = rows_at st t as" and "error_at st' t v = error_at st t v"
  using assms object_same [OF assms(1)] by (simp_all add: rows_at_def error_at_def reads_same_def)

lemma cells_apart: "table_cell t \<Longrightarrow> t \<noteq> row_cell a" "table_cell t \<Longrightarrow> t \<noteq> 0" "row_cell a \<noteq> 0"
  "row_cell a = row_cell b \<longleftrightarrow> a = b"
  by (auto simp: table_cell_def row_cell_def)

lemma there: "value_at st a k \<noteq> OUndef \<Longrightarrow> prop_at st a k \<noteq> None"
  by (cases "prop_at st a k") (simp_all add: value_at_def)

lemma holds_assign_title:
  assumes "holds c st" and "owrite_step f (OAssign 0 ''newTitle'' (OText s)) st = Some st'"
  shows "holds (c\<lparr>newTitle := s\<rparr>) st'"
proof -
  have "prop_at st 0 ''newTitle'' \<noteq> None" using assms(1) by (intro there) (simp add: holds_def)
  then have r: "reads_same {(0, ''newTitle'')} {} st st'" "value_at st' 0 ''newTitle'' = OText s"
    using assign_reads assms(2) by simp_all
  obtain t where t: "value_at st 0 ''tableData'' = ORef t" "table_cell t"
    "case tableData c of Table arr \<Rightarrow> rows_at st t (to_list arr) | NotArray v \<Rightarrow> error_at st t v"
    using assms(1) by (auto simp: holds_def)
  have "value_at st' 0 ''tableData'' = ORef t" using r(1) t(1) by (simp add: reads_same_def)
  moreover have "case tableData c of Table arr \<Rightarrow> rows_at st' t (to_list arr) | NotArray v \<Rightarrow> error_at st' t v"
    using t(2,3) table_same [OF r(1), of t] cells_apart(2) by (auto split: table.splits)
  moreover have "object_at st' (row_cell a) v = object_at st (row_cell a) v" for a v
    using object_same [OF r(1)] cells_apart(3) by simp
  ultimately show ?thesis using assms(1) r(2) t(2) by (auto simp: holds_def)
qed

lemma holds_rows: "holds c st \<Longrightarrow> a < next_row c \<Longrightarrow> object_at st (row_cell a) (row_heap c a)"
  by (simp add: holds_def)

lemma row_value: "object_at st a v \<Longrightarrow> same_scalar (getv v k) (value_at st a k)"
  by (simp add: object_at_def)

lemma holds_table:
  assumes "holds c st"
  obtains t where "value_at st 0 ''tableData'' = ORef t" "table_cell t"
    "case tableData c of Table arr \<Rightarrow> rows_at st t (to_list arr) | NotArray v \<Rightarrow> error_at st t v"
  using assms by (auto simp: holds_def)

text \<open>What a list reply assigns.\<close>

lemma holds_list:
  assumes h: "holds c st" and p: "parsed t (next_row c) v st" and v: "v = Arr vs \<or> v = error_json m"
    and o: "owrite_step f (OAssign 0 ''tableData'' (ORef t)) st = Some st'"
  shows "holds (set_table v c) st'"
proof -
  have "prop_at st 0 ''tableData'' \<noteq> None" using h by (intro there) (auto simp: holds_def)
  then have r: "reads_same {(0, ''tableData'')} {} st st'" "value_at st' 0 ''tableData'' = ORef t"
    using assign_reads o by simp_all
  have tc: "table_cell t" using p by (simp add: parsed_def)
  have obj: "object_at st' (row_cell a) w = object_at st (row_cell a) w" for a w
    using object_same [OF r(1)] cells_apart(3) by simp
  have title: "value_at st' 0 ''newTitle'' = OText (newTitle c)" using r(1) h by (simp add: reads_same_def holds_def)
  have tab: "rows_at st' t as = rows_at st t as" "error_at st' t w = error_at st t w" for as w
    using table_same [OF r(1), of t] cells_apart(2) [OF tc] by simp_all
  show ?thesis
  proof (cases "\<exists>vs. v = Arr vs")
    case True
    then obtain vs where vs: "v = Arr vs" by blast
    obtain as n hp where al: "alloc vs (next_row c) (row_heap c) = (as, n, hp)" by (metis prod_cases3)
    note sp = alloc_spec [OF al]
    have "rows_at st' t as" using p vs tab(1) sp by (simp add: parsed_def)
    moreover have "object_at st' (row_cell a) (hp a)" if "a < n" for a
    proof (cases "a < next_row c")
      case True
      then show ?thesis using holds_rows [OF h] sp obj by simp
    next
      case False
      let ?i = "a - next_row c"
      have i: "?i < length vs" "next_row c + ?i = a" using False that sp by auto
      then have "as ! ?i = a" "?i < length as" using sp by (simp_all del: upt_Suc)
      moreover have "map hp as = vs" using sp by blast
      then have "map hp as ! ?i = vs ! ?i" by (rule arg_cong)
      ultimately have "hp a = vs ! ?i" by simp
      then show ?thesis using p vs i obj by (auto simp: parsed_def)
    qed
    ultimately show ?thesis using r(2) tc title by (simp add: vs al holds_def)
  next
    case False
    then have v: "v = error_json m" using v by blast
    have "error_at st' t v" using p tab(2) v by (simp add: parsed_def error_json_def)
    then show ?thesis using r(2) tc title obj holds_rows [OF h] v by (simp add: holds_def error_json_def)
  qed
qed

text \<open>What an edit toggles.\<close>

lemma show_nat_no_error: "show_nat n \<noteq> ''error''"
proof
  assume e: "show_nat n = ''error''"
  have l: "last (show_nat n) = digit_char (n mod 10)" by (simp add: show_nat.simps [of n])
  have "(of_char (digit_char (n mod 10)) :: nat) = of_char (CHR ''r'')" using l e by simp
  then show False by (simp add: digit_char_def of_char_of)
qed

lemma elt_to_list:
  assumes "arr = of_list as"
  shows "to_list arr = as" and "elt arr e = (if e < length as then Some (as ! e) else None)"
  using assms by (simp_all add: elt_of_list)

lemma holds_edit:
  assumes ok: "client_ok c" and h: "holds c st" and a: "a < next_row c"
  shows "case reply_write t (KEdit e a w) (Ok rep) st of
      None \<Rightarrow> set_status e (\<not> truthy (getv (row_heap c a) ''status'')) c = None
    | Some u \<Rightarrow> intercepted st u \<and> (\<forall>f st'. owrite_step f u st = Some st' \<longrightarrow>
        (\<exists>c1. set_status e (\<not> truthy (getv (row_heap c a) ''status'')) c = Some c1 \<and> holds c1 st'))"
proof -
  let ?b = "\<not> truthy (getv (row_heap c a) ''status'')"
  have b: "(\<not> otruthy (value_at st (row_cell a) ''status'')) = ?b"
    using same_truthy row_value holds_rows [OF h a] by blast
  obtain r where r: "value_at st 0 ''tableData'' = ORef r" "table_cell r"
    "case tableData c of Table arr \<Rightarrow> rows_at st r (to_list arr) | NotArray v \<Rightarrow> error_at st r v"
    using holds_table [OF h] .
  show ?thesis
  proof (cases "tableData c")
    case (NotArray v)
    then have "item_at st r e = OUndef" "\<exists>m. v = error_json m" using r(3) by (auto simp: error_at_def item_at_def)
    moreover have "set_status e ?b c = None" if "v = error_json m" for m
      using that NotArray show_nat_no_error by (simp add: set_status.simps error_json_def)
    ultimately show ?thesis using r(1) by auto
  next
    case (Table arr)
    obtain as where as: "arr = of_list as" "\<forall>x \<in> set as. x < next_row c" using ok Table by (auto simp: client_ok_def)
    note arr = elt_to_list [OF as(1)]
    have it: "item_at st r e = (if e < length as then ORef (row_cell (as ! e)) else OUndef)"
      using r(3) Table arr(1) by (simp add: item_at_def rows_at_def)
    show ?thesis
    proof (cases "e < length as")
      case False
      then show ?thesis using r(1) it Table arr(2) by (simp add: set_status.simps)
    next
      case True
      let ?x = "as ! e"
      have x: "?x < next_row c" using as(2) True by simp
      then obtain td where td: "row_heap c ?x = todo_json td" using ok by (auto simp: client_ok_def)
      have "value_at st (row_cell ?x) ''status'' = OBool (Status td)" using row_value [OF holds_rows [OF h x], of "''status''"] td by simp
      then have pr: "prop_at st (row_cell ?x) ''status'' \<noteq> None" by (intro there) simp
      let ?c = "c\<lparr>row_heap := (row_heap c)(?x := todo_json (td\<lparr>Status := ?b\<rparr>))\<rparr>"
      have sc: "set_status e ?b c = Some ?c"
        using Table arr(2) True td by (simp add: set_status.simps todo_json_def)
      have hs: "holds ?c st'" if o: "owrite_step f (OAssign (row_cell ?x) ''status'' (OBool ?b)) st = Some st'" for f st'
      proof -
        have s: "reads_same {(row_cell ?x, ''status'')} {} st st'" "value_at st' (row_cell ?x) ''status'' = OBool ?b"
          using assign_reads [OF _ pr] o by simp_all
        have "object_at st' (row_cell y) (row_heap ?c y)" if "y < next_row c" for y
        proof (cases "y = ?x")
          case False
          then show ?thesis using holds_rows [OF h that] object_same [OF s(1)] cells_apart(4) by simp
        next
          case True
          have "same_scalar (getv (todo_json (td\<lparr>Status := ?b\<rparr>)) k) (value_at st' (row_cell ?x) k)" for k
          proof (cases "k = ''status''")
            case True
            then show ?thesis using s(2) by simp
          next
            case False
            then have "getv (todo_json (td\<lparr>Status := ?b\<rparr>)) k = getv (todo_json td) k" by (simp add: todo_json_def)
            moreover have "value_at st' (row_cell ?x) k = value_at st (row_cell ?x) k" using s(1) False by (simp add: reads_same_def)
            ultimately show ?thesis using row_value [OF holds_rows [OF h x], of k] td by simp
          qed
          then show ?thesis using True by (simp add: object_at_def)
        qed
        moreover have "rows_at st' r (to_list arr)"
          using r(3) Table table_same(1) [OF s(1)] cells_apart(1) [OF r(2)] by simp
        moreover have "value_at st' 0 k = value_at st 0 k" for k using s(1) cells_apart(3) [of ?x] by (simp add: reads_same_def)
        ultimately show ?thesis using h r(1,2) Table by (simp add: holds_def)
      qed
      then show ?thesis using r(1) it True b pr sc by simp
    qed
  qed
qed

text \<open>What a deletion removes.\<close>

lemma holds_delete:
  assumes ok: "client_ok c" and h: "holds c st"
  shows "case reply_write t (KDelete e) (Ok rep) st of
      None \<Rightarrow> (\<exists>v. tableData c = NotArray v)
    | Some u \<Rightarrow> intercepted st u \<and> (\<exists>arr. tableData c = Table arr \<and>
        (\<forall>f st'. owrite_step f u st = Some st' \<longrightarrow> holds (c\<lparr>tableData := Table (splice_one e arr)\<rparr>) st'))"
proof -
  obtain r where r: "value_at st 0 ''tableData'' = ORef r" "table_cell r"
    "case tableData c of Table arr \<Rightarrow> rows_at st r (to_list arr) | NotArray v \<Rightarrow> error_at st r v"
    using holds_table [OF h] .
  show ?thesis
  proof (cases "tableData c")
    case (NotArray v)
    then show ?thesis using r by (simp add: error_at_def)
  next
    case (Table arr)
    obtain as where as: "arr = of_list as" "length as \<le> max_safe" using ok Table by (auto simp: client_ok_def)
    let ?cell = "\<lambda>a. ORef (row_cell a)"
    let ?m = "Splice (min e (length as)) 1 []"
    have i: "items_of st (ORef r) = Some (map ?cell as)" using r(3) Table as(1) by (simp add: rows_at_def)
    have m: "mutated ?m (map ?cell as) = map ?cell (take e as @ drop (Suc e) as)"
      by (cases "e < length as") (simp_all add: take_map drop_map min_def)
    have sp: "to_list (splice_one e arr) = take e as @ drop (Suc e) as"
      using as by (simp add: splice_one_of_list)
    have "holds (c\<lparr>tableData := Table (splice_one e arr)\<rparr>) st'" if o: "owrite_step f (OMutate r ?m) st = Some st'" for f st'
    proof -
      have s: "reads_same {} {r} st st'" using mutate_reads o by simp
      have "rows_at st' r (to_list (splice_one e arr))"
        using mutate_items [OF _ i, of f ?m st'] o m sp by (simp add: rows_at_def)
      moreover have "object_at st' a v = object_at st a v" "value_at st' a k = value_at st a k" for a v k
        using object_same [OF s] s by (simp_all add: reads_same_def)
      ultimately show ?thesis using h r(1,2) by (simp add: holds_def)
    qed
    then show ?thesis using r(1) i Table by (simp add: length_at_def)
  qed
qed

lemma holds_same: "tableData c' = tableData c \<Longrightarrow> row_heap c' = row_heap c \<Longrightarrow> next_row c' = next_row c \<Longrightarrow>
    newTitle c' = newTitle c \<Longrightarrow> holds c' st = holds c st"
  by (simp add: holds_def)

text \<open>Every callback, and every gesture.\<close>

lemma reply_holds:
  assumes ok: "client_ok c" and h: "holds c st" and on: "on_reply k s c = (c', ss)" and fits: "reply_fits t k s c st"
  shows "case reply_write t k s st of None \<Rightarrow> holds c' st
    | Some u \<Rightarrow> intercepted st u \<and> (\<forall>f st'. owrite_step f u st = Some st' \<longrightarrow> holds c' st')"
proof (cases s)
  case (Err x)
  then have "reply_write t k s st = None" by (cases k) simp_all
  then show ?thesis using on h Err holds_same [of c' c] by (auto simp: reject_unhandled_def)
next
  case (Ok rep)
  show ?thesis
  proof (cases k)
    case KList
    have c': "c' = set_table (getv rep ''data'') c" using on Ok KList by simp
    have p: "parsed t (next_row c) (getv rep ''data'') st"
      and v: "\<exists>vs m. getv rep ''data'' = Arr vs \<or> getv rep ''data'' = error_json m"
      using fits KList Ok by (auto simp: reply_fits_def)
    have "prop_at st 0 ''tableData'' \<noteq> None" using h by (intro there) (auto simp: holds_def)
    moreover have "holds c' st'" if "owrite_step f (OAssign 0 ''tableData'' (ORef t)) st = Some st'" for f st'
      using holds_list [OF h p _ that] v c' by blast
    ultimately show ?thesis using KList Ok by simp
  next
    case KAdd
    then show ?thesis using on Ok h holds_same [of c' c] by auto
  next
    case (KEdit e a w)
    have a: "a < next_row c" using fits KEdit by (simp add: reply_fits_def)
    note ed = holds_edit [OF ok h a, where t = t and e = e and w = w and rep = rep, folded KEdit Ok]
    show ?thesis
    proof (cases "set_status e (\<not> truthy (getv (row_heap c a) ''status'')) c")
      case None
      then have "c' = reject_unhandled c" using on Ok KEdit by (simp add: Let_def)
      then have "holds c' st" using h holds_same [of c' c] by (simp add: reject_unhandled_def)
      then show ?thesis using ed None by (simp split: option.splits)
    next
      case (Some c1)
      then obtain x where "c' = c1\<lparr>toasts := x\<rparr>" using on Ok KEdit by (auto simp: Let_def)
      then have "holds c' st' = holds c1 st'" for st' by (simp add: holds_def)
      then show ?thesis using ed Some by (simp split: option.splits)
    qed
  next
    case (KDelete e)
    note de = holds_delete [OF ok h, where t = t and e = e and rep = rep, folded KDelete Ok]
    show ?thesis
    proof (cases "tableData c")
      case (NotArray v)
      then have "c' = reject_unhandled c" using on Ok KDelete by simp
      then have "holds c' st" using h holds_same [of c' c] by (simp add: reject_unhandled_def)
      then show ?thesis using de NotArray by (simp split: option.splits)
    next
      case (Table arr)
      then obtain x where "c' = c\<lparr>tableData := Table (splice_one e arr), toasts := x\<rparr>" using on Ok KDelete by auto
      then have "holds c' st' = holds (c\<lparr>tableData := Table (splice_one e arr)\<rparr>) st'" for st' by (simp add: holds_def)
      then show ?thesis using de Table by (simp split: option.splits)
    qed
  qed
qed

lemma act_holds:
  assumes h: "holds c st" and act: "act x c = Some (c', ss)"
  shows "case act_write x c of None \<Rightarrow> holds c' st
    | Some u \<Rightarrow> intercepted st u \<and> (\<forall>f st'. owrite_step f u st = Some st' \<longrightarrow> holds c' st')"
proof -
  have pr: "prop_at st 0 ''newTitle'' \<noteq> None" using h by (intro there) (auto simp: holds_def)
  have t: "intercepted st (OAssign 0 ''newTitle'' (OText y)) \<and>
    (\<forall>f st'. owrite_step f (OAssign 0 ''newTitle'' (OText y)) st = Some st' \<longrightarrow> holds (c\<lparr>newTitle := y\<rparr>) st')" for y
    using pr holds_assign_title [OF h] by simp
  show ?thesis
  proof (cases x)
    case (TypeTitle y)
    then show ?thesis using act t [of y] by simp
  next
    case ClickAdd
    show ?thesis
    proof (cases "newTitle c = []")
      case True
      then have "holds c' st = holds c st" using act ClickAdd holds_same [of c' c] by (auto simp: handleAdd_def)
      then show ?thesis using True ClickAdd h by simp
    next
      case False
      then have "c' = c\<lparr>newTitle := []\<rparr>" using act ClickAdd by (simp add: handleAdd_def)
      then show ?thesis using False ClickAdd t [of "[]"] by simp
    qed
  qed (use act h in auto)
qed

section \<open>Runs of the page\<close>

text \<open>The page is created with an empty table and an empty title, observed, and goes on by gestures and
  replies. All objects that replies are parsed to are cells from the start; \<open>f\<close> is the depth of calls.\<close>

definition first_cells :: "nat \<Rightarrow> ostate \<Rightarrow> bool" where
  "first_cells t st \<longleftrightarrow>
     raw_data st \<and> (\<exists>ps. cells st 0 = Some (OObj ps None)) \<and> value_at st 0 ''newTitle'' = OText []
     \<and> value_at st 0 ''tableData'' = ORef t \<and> table_cell t \<and> items_of st (ORef t) = Some []"

inductive page_cells :: "nat \<Rightarrow> client \<Rightarrow> ostate \<Rightarrow> bool" for f where
  page_created: "first_cells t st0 \<Longrightarrow> finite (to_observe st0) \<Longrightarrow> card (to_observe st0) \<le> f \<Longrightarrow> observe_data f 0 st0 = Some st \<Longrightarrow>
    page_cells f init_client st"
| page_acts: "page_cells f c st \<Longrightarrow> act x c = Some (c', ss) \<Longrightarrow> perform f (act_write x c) st = Some st' \<Longrightarrow> page_cells f c' st'"
| page_reply: "page_cells f c st \<Longrightarrow> on_reply k s c = (c', ss) \<Longrightarrow> reply_fits t k s c st \<Longrightarrow>
    perform f (reply_write t k s st) st = Some st' \<Longrightarrow> page_cells f c' st'"

definition page_ok :: "nat \<Rightarrow> client \<Rightarrow> ostate \<Rightarrow> bool" where
  "page_ok f c st \<longleftrightarrow>
     client_ok c \<and> holds c st \<and> data_but {} st \<and> 0 \<in> vm_roots st
     \<and> (\<exists>U. finite U \<and> card U \<le> f \<and> to_observe st \<subseteq> U)"

lemma page_step_ok:
  assumes "page_ok f c st" and "client_ok c'"
    and "case u of None \<Rightarrow> holds c' st
      | Some w \<Rightarrow> intercepted st w \<and> (\<forall>f st'. owrite_step f w st = Some st' \<longrightarrow> holds c' st')"
  shows "\<exists>st'. perform f u st = Some st' \<and> page_ok f c' st'"
proof (cases u)
  case None
  then show ?thesis using assms by (simp add: page_ok_def)
next
  case (Some w)
  obtain U where U: "finite U" "card U \<le> f" "to_observe st \<subseteq> U" using assms(1) by (auto simp: page_ok_def)
  from owrite_ends [OF this] obtain st' where st': "owrite_step f w st = Some st'" "to_observe st' \<subseteq> U" by blast
  have i: "intercepted st w" "holds c' st'" using assms(3) Some st'(1) by auto
  then have "owrites f [w] st = Some st'" using st'(1) by simp
  then have "vm_roots st' = vm_roots st" by (rule owrites_roots)
  moreover have "data_but {} st'" using owrite_ok [OF st'(1) i(1)] assms(1) by (simp add: page_ok_def)
  ultimately show ?thesis using st' U i(2) assms(1,2) Some by (auto simp: page_ok_def)
qed

lemma client_ok_act: "client_ok c \<Longrightarrow> act x c = Some (c', ss) \<Longrightarrow> client_ok c'"
  using act_ok by blast

lemma client_ok_reply: "client_ok c \<Longrightarrow> on_reply k s c = (c', ss) \<Longrightarrow> reply_fits t k s c st \<Longrightarrow> client_ok c'"
  using on_reply_ok unfolding reply_fits_def by blast

lemma first_cells_ok:
  assumes "first_cells t st0" and "finite (to_observe st0)" and "card (to_observe st0) \<le> f" and "observe_data f 0 st0 = Some st"
  shows "page_ok f init_client st"
proof -
  obtain ps where ps: "cells st0 0 = Some (OObj ps None)" "raw_data st0" using assms(1) by (auto simp: first_cells_def)
  have d: "data_but {} st" "0 \<in> vm_roots st" using observe_data_ok [OF assms(4) raw_data_ok [OF ps(2)] ps(1)] by blast+
  obtain s where s: "observe f (ORef 0) st0 = Some s" "st = s\<lparr>vm_roots := insert 0 (vm_roots s)\<rparr>"
    using assms(4) by (auto simp: observe_data_def)
  have o: "observes {} st0 s" using observe_observes s(1) .
  have r: "value_at st a k = value_at st0 a k" "items_of st v = items_of st0 v" for a k v
  proof -
    have "value_at st a k = value_at s a k" "items_of st v = items_of s v"
      by (simp_all add: s(2) value_at_def prop_at_def items_of_def split: oval.split)
    then show "value_at st a k = value_at st0 a k" "items_of st v = items_of st0 v" using observes_reads(2,4) [OF o] by simp_all
  qed
  have "holds init_client st"
    using assms(1) by (auto simp: holds_def init_client_def first_cells_def r rows_at_def)
  moreover have "client_ok init_client" by (simp add: client_ok_def init_client_def)
  moreover have "to_observe st \<subseteq> to_observe st0"
    using observe_data_ends [OF assms(2,3) subset_refl, of 0] assms(4) by auto
  ultimately show ?thesis using d assms(2,3) by (auto simp: page_ok_def)
qed

lemma page_cells_ok: "page_cells f c st \<Longrightarrow> page_ok f c st"
proof (induction rule: page_cells.induct)
  case (page_created t st0 st)
  then show ?case by (rule first_cells_ok)
next
  case (page_acts c st x c' ss st')
  then have "client_ok c" "holds c st" by (simp_all add: page_ok_def)
  from page_step_ok [OF page_acts.IH client_ok_act [OF this(1) page_acts.hyps(2)] act_holds [OF this(2) page_acts.hyps(2)]]
  show ?case using page_acts.hyps(3) by auto
next
  case (page_reply c st k s c' ss t st')
  then have h: "client_ok c" "holds c st" by (simp_all add: page_ok_def)
  from page_step_ok [OF page_reply.IH client_ok_reply [OF h(1) page_reply.hyps(2,3)] reply_holds [OF h page_reply.hyps(2,3)]]
  show ?case using page_reply.hyps(4) by auto
qed

text \<open>A write of the page queues a component that has read what it changes.\<close>

lemma write_noticed:
  assumes "page_ok f c st" and "\<And>w. u = Some w \<Longrightarrow> intercepted st w" and "perform f u st = Some st'"
    and "in_scope r {0} st" and "run_oreader h r st = Some (x, ds)" and "o_eval r st' \<noteq> x" and "reactive_ok [] rs"
  shows "has (announce (drop (length (told st)) (told st')) (mount_component (dep_reader ds x) rs)) (Suc (uid rs))"
proof (cases u)
  case None
  then show ?thesis using assms(3,6) run_oreader_eval [OF assms(5)] by simp
next
  case (Some w)
  have d: "data_but {} st" "0 \<in> vm_roots st" using assms(1) by (simp_all add: page_ok_def)
  have "owrite_step f w st = Some st'" using assms(3) Some by simp
  from noticed [OF d assms(4,5) assms(2) [OF Some] this assms(6)] obtain e where
    "e \<in> set ds" "e \<in> set (drop (length (told st)) (told st'))" by blast
  then show ?thesis by (rule announced_component [OF assms(7)])
qed

section \<open>Page, server and data\<close>

text \<open>The write that an event of \<open>TodoSystem\<close> makes. \<open>t\<close> is again the cell that a list is parsed to.\<close>

definition settled_write :: "nat \<Rightarrow> environment \<Rightarrow> nat \<Rightarrow> xhr_event list \<Rightarrow> 'd world \<Rightarrow> ostate \<Rightarrow> owrite option" where
  "settled_write t env k evs w st =
     (case wire_settled env (fl_config (flights w ! k)) evs of
        None \<Rightarrow> None
      | Some s \<Rightarrow> reply_write t (fl_then (flights w ! k)) s st)"

fun event_write :: "nat \<Rightarrow> environment \<Rightarrow> event \<Rightarrow> 'd world \<Rightarrow> ostate \<Rightarrow> owrite option" where
  "event_write t env (Act x) w st = act_write x (page w)"
| "event_write t env (Serve k) w st = None"
| "event_write t env (Deliver k) w st =
     (case fl_phase (flights w ! k) of
        OnWire \<Rightarrow> None
      | Answered r \<Rightarrow> settled_write t env k [ReadyState 4 (reply_status r) [] (reply_text r) []] w st)"
| "event_write t env (Lose k) w st = settled_write t env k [NetworkError] w st"

text \<open>The list that is delivered, if one is, has been parsed to \<open>t\<close>.\<close>

definition list_parsed :: "nat \<Rightarrow> environment \<Rightarrow> event \<Rightarrow> 'd world \<Rightarrow> ostate \<Rightarrow> bool" where
  "list_parsed t env ev w st \<longleftrightarrow>
     (\<forall>k r rep. ev = Deliver k \<longrightarrow> fl_then (flights w ! k) = KList \<longrightarrow> fl_phase (flights w ! k) = Answered r \<longrightarrow>
        wire_settled env (fl_config (flights w ! k)) [ReadyState 4 (reply_status r) [] (reply_text r) []] = Some (Ok rep) \<longrightarrow>
        parsed t (next_row (page w)) (getv rep ''data'') st)"

lemma sent_list: "(cfg, KList) = sent_for it \<Longrightarrow> it = AskList"
  by (cases it) simp_all

lemma settled_fits:
  assumes w: "world_ok ok w" and k: "k < length (flights w)" and s: "settle_flight env k evs w = Some w'"
    and l: "\<And>rep. fl_then (flights w ! k) = KList \<Longrightarrow> wire_settled env (fl_config (flights w ! k)) evs = Some (Ok rep) \<Longrightarrow>
      ((\<exists>ts. getv rep ''data'' = Arr (map todo_json ts) \<and> length ts \<le> max_safe) \<or> (\<exists>m. getv rep ''data'' = error_json m))
      \<and> parsed t (next_row (page w)) (getv rep ''data'') st"
  shows "\<exists>j x ss. on_reply j x (page w) = (page w', ss) \<and> reply_fits t j x (page w) st \<and> settled_write t env k evs w st = reply_write t j x st"
proof -
  let ?f = "flights w ! k"
  obtain x ss where x: "wire_settled env (fl_config ?f) evs = Some x" "on_reply (fl_then ?f) x (page w) = (page w', ss)"
    using s by (auto simp: settle_flight_def Let_def split: option.splits prod.splits)
  have "flight_ok (page w) ?f" using w k by (simp add: world_ok_def)
  then obtain it where it: "(fl_config ?f, fl_then ?f) = sent_for it" "intent_ok (page w) it" by (auto simp: flight_ok_def)
  have "a < next_row (page w)" if "fl_then ?f = KEdit e a b" for e a b
    using it that by (cases it) (simp_all add: getTodoList_def)
  then have "reply_fits t (fl_then ?f) x (page w) st" using l x(1) by (simp add: reply_fits_def)
  then show ?thesis using x by (auto simp: settled_write_def)
qed

text \<open>Every event is a gesture of the page, a reply to it, or nothing to it.\<close>

lemma event_on_page:
  assumes w: "world_ok ok w" and st: "step_world env g ev w = Some w'" and p: "list_parsed t env ev w st"
  shows "(page w' = page w \<and> event_write t env ev w st = None)
    \<or> (\<exists>x ss. act x (page w) = Some (page w', ss) \<and> event_write t env ev w st = act_write x (page w))
    \<or> (\<exists>j x ss. on_reply j x (page w) = (page w', ss) \<and> reply_fits t j x (page w) st \<and> event_write t env ev w st = reply_write t j x st)"
proof (cases ev)
  case (Act x)
  then obtain ss where "act x (page w) = Some (page w', ss)" using st by auto
  moreover have "event_write t env ev w st = act_write x (page w)" using Act by simp
  ultimately show ?thesis by blast
next
  case (Serve k)
  then show ?thesis using st by (auto split: if_splits option.splits prod.splits)
next
  case (Deliver k)
  then obtain r where k: "k < length (flights w)" and r: "fl_phase (flights w ! k) = Answered r"
    and s: "settle_flight env k [ReadyState 4 (reply_status r) [] (reply_text r) []] w = Some w'"
    using st by (auto split: if_splits phase.splits)
  have f: "flight_ok (page w) (flights w ! k)" using w k by (simp add: world_ok_def)
  have "((\<exists>ts. getv rep ''data'' = Arr (map todo_json ts) \<and> length ts \<le> max_safe) \<or> (\<exists>m. getv rep ''data'' = error_json m))
      \<and> parsed t (next_row (page w)) (getv rep ''data'') st"
    if "fl_then (flights w ! k) = KList"
      "wire_settled env (fl_config (flights w ! k)) [ReadyState 4 (reply_status r) [] (reply_text r) []] = Some (Ok rep)" for rep
  proof
    obtain it where it: "(fl_config (flights w ! k), fl_then (flights w ! k)) = sent_for it" using f by (auto simp: flight_ok_def)
    then have "(fl_config (flights w ! k), fl_then (flights w ! k)) = sent_for AskList" using sent_list that(1) by metis
    then show "(\<exists>ts. getv rep ''data'' = Arr (map todo_json ts) \<and> length ts \<le> max_safe) \<or> (\<exists>m. getv rep ''data'' = error_json m)"
      by (rule delivered_list [OF f r _ that(2)])
    show "parsed t (next_row (page w)) (getv rep ''data'') st" using p Deliver r that by (simp add: list_parsed_def)
  qed
  then show ?thesis using settled_fits [OF w k s] Deliver r by auto
next
  case (Lose k)
  then have k: "k < length (flights w)" and s: "settle_flight env k [NetworkError] w = Some w'"
    using st by (auto split: if_splits)
  have f: "flight_ok (page w) (flights w ! k)" using w k by (simp add: world_ok_def)
  then obtain it where "fl_config (flights w ! k) = fst (sent_for it)" by (auto simp: flight_ok_def) (metis fst_conv)
  then have "wire_settled env (fl_config (flights w ! k)) [NetworkError] \<noteq> Some (Ok rep)" for rep
    using settled_lost [of env it] by auto
  then show ?thesis using settled_fits [OF w k s] Lose by auto
qed

text \<open>So the data follow the page, event by event.\<close>

lemma event_followed:
  assumes w: "world_ok ok w" and c: "page_cells f (page w) st" and s: "step_world env g ev w = Some w'"
    and p: "list_parsed t env ev w st"
  shows "\<exists>st'. perform f (event_write t env ev w st) st = Some st' \<and> page_cells f (page w') st' \<and> holds (page w') st'
    \<and> (\<forall>u. event_write t env ev w st = Some u \<longrightarrow> intercepted st u)"
proof -
  have ok: "page_ok f (page w) st" by (rule page_cells_ok [OF c])
  then have h: "client_ok (page w)" "holds (page w) st" by (simp_all add: page_ok_def)
  from event_on_page [OF w s p] show ?thesis
  proof (elim disjE exE conjE)
    assume "page w' = page w" "event_write t env ev w st = None"
    then show ?thesis using c h(2) by simp
  next
    fix x ss assume a: "act x (page w) = Some (page w', ss)" "event_write t env ev w st = act_write x (page w)"
    note hs = act_holds [OF h(2) a(1)]
    obtain st' where st': "perform f (act_write x (page w)) st = Some st'" "page_ok f (page w') st'"
      using page_step_ok [OF ok client_ok_act [OF h(1) a(1)] hs] by blast
    then have "page_cells f (page w') st'" using page_cells.page_acts [OF c a(1)] by blast
    then show ?thesis using st' a(2) hs by (auto simp: page_ok_def split: option.splits)
  next
    fix j x ss assume a: "on_reply j x (page w) = (page w', ss)" "reply_fits t j x (page w) st"
      "event_write t env ev w st = reply_write t j x st"
    note hs = reply_holds [OF h a(1,2)]
    obtain st' where st': "perform f (reply_write t j x st) st = Some st'" "page_ok f (page w') st'"
      using page_step_ok [OF ok client_ok_reply [OF h(1) a(1,2)] hs] by blast
    then have "page_cells f (page w') st'" using page_cells.page_reply [OF c a(1,2)] by blast
    then show ?thesis using st' a(3) hs by (auto simp: page_ok_def split: option.splits)
  qed
qed

section \<open>A page and its first list\<close>

definition row_props :: "todo \<Rightarrow> oprop obj" where
  "row_props t =
     [(''id'', \<lparr>pv = ONum (ID t), pd = None, pc = None\<rparr>), (''title'', \<lparr>pv = OText (Title t), pd = None, pc = None\<rparr>),
      (''status'', \<lparr>pv = OBool (Status t), pd = None, pc = None\<rparr>)]"

definition todo_a :: todo where
  "todo_a = \<lparr>ID = 1, Title = ''a'', Status = False\<rparr>"

definition todo_b :: todo where
  "todo_b = \<lparr>ID = 2, Title = ''b'', Status = True\<rparr>"

definition screen_data :: ostate where
  "screen_data =
     \<lparr>cells = [0 \<mapsto> OObj [(''tableData'', \<lparr>pv = ORef 2, pd = None, pc = None\<rparr>), (''newTitle'', \<lparr>pv = OText [], pd = None, pc = None\<rparr>)] None,
        1 \<mapsto> OObj (row_props todo_a) None, 2 \<mapsto> OArr [] None, 3 \<mapsto> OObj (row_props todo_b) None, 4 \<mapsto> OArr [ORef 1, ORef 3] None],
      next_dep = 0, vm_roots = {}, told = []\<rparr>"

definition two_rows :: jv where
  "two_rows = Obj [(''data'', Arr (map todo_json [todo_a, todo_b]))]"

definition count_rows :: "nat oreader" where
  "count_rows = OGet 0 ''tableData'' (\<lambda>xs. OLength (cell_of xs) ODone)"

definition screen_seen :: "ostate option" where
  "screen_seen = observe_data 5 0 screen_data"

lemma screen_evals:
  "run_oreader 9 count_rows (the screen_seen) = Some (0, [1, 2])" "in_scope count_rows {0} (the screen_seen)"
  "o_eval count_rows (the (perform 5 (reply_write 4 KList (Ok two_rows) (the screen_seen)) (the screen_seen))) = 2"
  "\<not> Option.is_none screen_seen"
  by code_simp+

lemma screen_row: "object_at screen_data 1 (todo_json todo_a)" "object_at screen_data 3 (todo_json todo_b)"
  by (auto simp: object_at_def value_at_def prop_at_def screen_data_def row_props_def todo_json_def todo_a_def todo_b_def)

lemma screen_start:
  "\<exists>st. screen_seen = Some st \<and> page_cells 5 init_client st \<and> reply_fits 4 KList (Ok two_rows) init_client st"
proof -
  obtain st where st: "screen_seen = Some st" using screen_evals(4) by (auto simp: Option.is_none_def)
  have "to_observe screen_data \<subseteq> {0, 1, 2, 3, 4}"
    by (auto simp: to_observe_def unobserved_def screen_data_def split: if_splits)
  then have "finite (to_observe screen_data)" "card (to_observe screen_data) \<le> 5"
    using finite_subset card_mono [of "{0, 1, 2, 3, 4 :: nat}" "to_observe screen_data"] by auto
  moreover have "first_cells 2 screen_data"
    by (auto simp: first_cells_def raw_data_def screen_data_def table_cell_def value_at_def prop_at_def items_of_def ob_of_def
        row_props_def split: if_splits option.splits)
  ultimately have p: "page_cells 5 init_client st" using page_created st by (simp add: screen_seen_def)
  obtain s where s: "observe 5 (ORef 0) screen_data = Some s" "st = s\<lparr>vm_roots := insert 0 (vm_roots s)\<rparr>"
    using st by (auto simp: screen_seen_def observe_data_def)
  note o = observes_reads [OF observe_observes [OF s(1)]]
  have "value_at st a k = value_at screen_data a k" "items_of st v = items_of screen_data v" for a k v
  proof -
    have "value_at st a k = value_at s a k" "items_of st v = items_of s v"
      by (simp_all add: s(2) value_at_def prop_at_def items_of_def split: oval.split)
    then show "value_at st a k = value_at screen_data a k" "items_of st v = items_of screen_data v" using o(2,4) by simp_all
  qed
  then have "object_at st 1 (todo_json todo_a)" "object_at st 3 (todo_json todo_b)" "items_of st (ORef 4) = Some [ORef 1, ORef 3]"
    using screen_row by (simp_all add: object_at_def) (simp add: items_of_def screen_data_def)
  then have "parsed 4 0 (Arr (map todo_json [todo_a, todo_b])) st"
    by (simp add: parsed_def table_cell_def rows_at_def row_cell_def All_less_Suc upt_rec)
  then have "reply_fits 4 KList (Ok two_rows) init_client st"
    unfolding reply_fits_def by (auto simp: two_rows_def init_client_def max_safe_def intro!: exI [of _ "[todo_a, todo_b]"])
  then show ?thesis using st p by blast
qed

lemma title_evals:
  "run_oreader 9 (OGet 0 ''newTitle'' ODone) (the screen_seen) = Some (OText [], [3])" "in_scope (OGet 0 ''newTitle'' ODone) {0} (the screen_seen)"
  "o_eval (OGet 0 ''newTitle'' ODone) (the (perform 5 (Some (OAssign 0 ''newTitle'' (OText ''x''))) (the screen_seen))) = OText ''x''"
  by code_simp+

end
