(* ===== verification/ElMessage.thy ===== *)
theory ElMessage
  imports Prelude
begin

text \<open>
  The messages of element-ui (\<open>chunk-vendors.ddcb6f91.js\<close>, the function \<open>Yd\<close> with \<open>close\<close> and \<open>closeAll\<close>, and
  the component \<open>Vd\<close>), which the page shows for every answer: a stack of messages from the top of the
  window, each with a timer, a close button and a listener for the escape key. The height of a
  message is what the browser lays out, a parameter. Messages of one height are stacked without gap or overlap
  whatever is opened and closed; a message goes once, and none stays for ever.
\<close>

section \<open>State\<close>

text \<open>A component \<open>Vd\<close>: \<open>offsetHeight\<close> and \<open>style.top\<close> of its element, \<open>duration\<close>, \<open>closed\<close>, \<open>timer\<close>, the timeouts
  that the browser still holds for it, whether the page gave it an \<open>onClose\<close>, and whether the pointer is over it.\<close>

record message =
  msg_height :: nat
  top_px :: int
  duration :: int
  is_closed :: bool
  timer :: "nat option"
  timeouts :: "nat list"
  user_close :: bool
  pointer_in :: bool

text \<open>The components by their numbers; \<open>qd\<close>; \<open>Ud\<close>; the next timeout; the calls of the page's \<open>onClose\<close>.\<close>

record messages =
  comps :: "nat \<Rightarrow> message"
  msg_stack :: "nat list"
  seed :: nat
  next_timeout :: nat
  user_calls :: "nat list"

definition no_message :: message where
  "no_message = \<lparr>msg_height = 0, top_px = 0, duration = 0, is_closed = False, timer = None, timeouts = [], user_close = False,
     pointer_in = False\<rparr>"

definition messages_init :: messages where
  "messages_init = \<lparr>comps = (\<lambda>_. no_message), msg_stack = [], seed = 1, next_timeout = 0, user_calls = []\<rparr>"

definition set_message :: "nat \<Rightarrow> message \<Rightarrow> messages \<Rightarrow> messages" where
  "set_message i m st = st\<lparr>comps := (comps st)(i := m)\<rparr>"

section \<open>Timers\<close>

definition start_timer :: "nat \<Rightarrow> messages \<Rightarrow> messages" where
  "start_timer i st =
     (let m = comps st i; n = next_timeout st in
      if duration m > 0 then set_message i (m\<lparr>timer := Some n, timeouts := timeouts m @ [n]\<rparr>) (st\<lparr>next_timeout := Suc n\<rparr>)
      else st)"

definition clear_timer :: "nat \<Rightarrow> messages \<Rightarrow> messages" where
  "clear_timer i st =
     (let m = comps st i in
      case timer m of None \<Rightarrow> st | Some t \<Rightarrow> set_message i (m\<lparr>timeouts := removeAll t (timeouts m)\<rparr>) st)"

section \<open>Opening and closing\<close>

text \<open>\<open>Yd(t)\<close>: a message of a height, with a duration, with or without an \<open>onClose\<close>, and with an \<open>offset\<close>, if any.\<close>

definition open_message :: "nat \<Rightarrow> int \<Rightarrow> bool \<Rightarrow> int option \<Rightarrow> messages \<Rightarrow> messages" where
  "open_message h d u off st =
     (let i = seed st;
          m = \<lparr>msg_height = h, top_px = 20, duration = d, is_closed = False, timer = None, timeouts = [], user_close = u,
                pointer_in = False\<rparr>;
          st1 = start_timer i (set_message i m (st\<lparr>seed := Suc i\<rparr>));
          r = fold (\<lambda>j r. r + int (msg_height (comps st1 j)) + 16) (msg_stack st1)
                (case off of None \<Rightarrow> 20 | Some x \<Rightarrow> if x = 0 then 20 else x)
      in set_message i ((comps st1 i)\<lparr>top_px := r\<rparr>) (st1\<lparr>msg_stack := msg_stack st1 @ [i]\<rparr>))"

text \<open>\<open>Yd.close(e, t)\<close>. After the removal \<open>qd[i]\<close> is the next message.\<close>

definition move_up :: "nat \<Rightarrow> nat \<Rightarrow> messages \<Rightarrow> messages" where
  "move_up d a st = set_message a ((comps st a)\<lparr>top_px := top_px (comps st a) - int d - 16\<rparr>) st"

primrec index_of :: "nat \<Rightarrow> nat list \<Rightarrow> nat option" where
  "index_of i [] = None"
| "index_of i (j # js) = (if i = j then Some 0 else map_option Suc (index_of i js))"

definition close_message :: "nat \<Rightarrow> messages \<Rightarrow> messages" where
  "close_message e st =
     (case index_of e (msg_stack st) of
        None \<Rightarrow> st
      | Some i \<Rightarrow>
          (let n = length (msg_stack st);
               st1 = (if user_close (comps st e) then st\<lparr>user_calls := user_calls st @ [e]\<rparr> else st);
               st2 = st1\<lparr>msg_stack := take i (msg_stack st1) @ drop (Suc i) (msg_stack st1)\<rparr>
           in if n \<le> 1 \<or> i > length (msg_stack st2) - 1 then st2
              else fold (move_up (msg_height (comps st2 (msg_stack st2 ! i)))) (drop i (msg_stack st2)) st2))"

text \<open>The component's \<open>close\<close>, by its button.\<close>

definition close_component :: "nat \<Rightarrow> messages \<Rightarrow> messages" where
  "close_component i st = close_message i (set_message i ((comps st i)\<lparr>is_closed := True\<rparr>) st)"

definition close_open :: "nat \<Rightarrow> messages \<Rightarrow> messages" where
  "close_open i st = (if is_closed (comps st i) then st else close_component i st)"

definition close_all :: "messages \<Rightarrow> messages" where
  "close_all st = fold (\<lambda>t st. close_component (msg_stack st ! t) st) (rev [0..<length (msg_stack st)]) st"

section \<open>Events\<close>

text \<open>What the page does, and what the browser reports. A message is in the document from its opening until it has
  faded out after its closing; the events of one that is not there do nothing. Every component listens for the
  escape key, in the order of their creation.\<close>

datatype message_event =
    MOpen nat int bool "int option"
  | MButton nat
  | MTimeout nat nat
  | MEnter nat
  | MLeave nat
  | MEscape
  | MCloseAll

fun message_step :: "message_event \<Rightarrow> messages \<Rightarrow> messages" where
  "message_step (MOpen h d u off) st = open_message h d u off st"
| "message_step (MButton i) st = (if 0 < i \<and> i < seed st then close_component i st else st)"
| "message_step (MTimeout i t) st =
     (if t \<in> set (timeouts (comps st i))
      then close_open i (set_message i ((comps st i)\<lparr>timeouts := removeAll t (timeouts (comps st i))\<rparr>) st)
      else st)"
| "message_step (MEnter i) st =
     (if 0 < i \<and> i < seed st \<and> \<not> pointer_in (comps st i)
      then clear_timer i (set_message i ((comps st i)\<lparr>pointer_in := True\<rparr>) st) else st)"
| "message_step (MLeave i) st =
     (if 0 < i \<and> i < seed st \<and> pointer_in (comps st i)
      then start_timer i (set_message i ((comps st i)\<lparr>pointer_in := False\<rparr>) st) else st)"
| "message_step MEscape st = fold close_open [1..<seed st] st"
| "message_step MCloseAll st = close_all st"

definition message_run :: "message_event list \<Rightarrow> messages \<Rightarrow> messages" where
  "message_run es st = fold message_step es st"

section \<open>What closing does\<close>

lemma index_of_Some: "index_of e xs = Some i \<Longrightarrow> i < length xs \<and> xs ! i = e"
  by (induction xs arbitrary: i) (auto split: if_splits)

lemma index_of_None: "index_of e xs = None \<longleftrightarrow> e \<notin> set xs"
  by (induction xs) auto

lemma move_ups:
  "distinct as \<Longrightarrow> fold (move_up d) as st = st\<lparr>comps := (\<lambda>b. if b \<in> set as then (comps st b)\<lparr>top_px := top_px (comps st b) - int d - 16\<rparr> else comps st b)\<rparr>"
proof (induction as arbitrary: st)
  case (Cons a as)
  then have "fold (move_up d) (a # as) st = fold (move_up d) as (move_up d a st)" "a \<notin> set as" by simp_all
  then show ?case using Cons.IH [of "move_up d a st"] Cons.prems by (auto simp: move_up_def set_message_def fun_eq_iff)
qed simp

text \<open>The messages below the closed one move up by the height of the first of them.\<close>

lemma close_message_spec:
  assumes "distinct (msg_stack st)" and "i < length (msg_stack st)" and "msg_stack st ! i = e"
  shows "close_message e st = st\<lparr>msg_stack := take i (msg_stack st) @ drop (Suc i) (msg_stack st),
    user_calls := user_calls st @ (if user_close (comps st e) then [e] else []),
    comps := (\<lambda>b. if b \<in> set (drop (Suc i) (msg_stack st))
      then (comps st b)\<lparr>top_px := top_px (comps st b) - int (msg_height (comps st (msg_stack st ! Suc i))) - 16\<rparr> else comps st b)\<rparr>"
proof -
  let ?q = "msg_stack st"
  have "index_of e ?q = Some i"
  proof (cases "index_of e ?q")
    case None
    then show ?thesis using assms index_of_None nth_mem by metis
  next
    case (Some j)
    then have "j = i" using index_of_Some [OF Some] nth_eq_iff_index_eq [OF assms(1)] assms(2,3) by blast
    then show ?thesis using Some by simp
  qed
  moreover have "?q ! Suc i = (take i ?q @ drop (Suc i) ?q) ! i" if "Suc i < length ?q"
    using that by (simp add: nth_append)
  moreover have "drop i (take i ?q @ drop (Suc i) ?q) = drop (Suc i) ?q" using assms(2) by simp
  moreover have "distinct (drop (Suc i) ?q)" using assms(1) by simp
  moreover have "length ?q \<le> 1 \<or> i > length ?q - 2 \<longleftrightarrow> \<not> Suc i < length ?q" using assms(2) by linarith
  ultimately show ?thesis using assms(2) by (auto simp: close_message_def Let_def move_ups fun_eq_iff)
qed

section \<open>Every message goes once\<close>

text \<open>The stack holds the messages that are not closed; the page has heard of the others, once; an open
  message that the pointer is not over has a timeout, those in \<open>E\<close> apart.\<close>

definition messages_but :: "nat set \<Rightarrow> messages \<Rightarrow> bool" where
  "messages_but E st \<longleftrightarrow>
     0 < seed st \<and> distinct (msg_stack st) \<and> set (msg_stack st) = {i. 0 < i \<and> i < seed st \<and> \<not> is_closed (comps st i)}
     \<and> distinct (user_calls st)
     \<and> set (user_calls st) = {i. 0 < i \<and> i < seed st \<and> is_closed (comps st i) \<and> user_close (comps st i)}
     \<and> (\<forall>i \<in> set (msg_stack st) - E. duration (comps st i) > 0 \<longrightarrow> \<not> pointer_in (comps st i) \<longrightarrow> timeouts (comps st i) \<noteq> [])
     \<and> (\<forall>i. \<not> (0 < i \<and> i < seed st) \<longrightarrow> timeouts (comps st i) = [])"

abbreviation messages_ok :: "messages \<Rightarrow> bool" where
  "messages_ok \<equiv> messages_but {}"

lemma take_drop_set:
  assumes "distinct xs" and "i < length xs"
  shows "set (take i xs @ drop (Suc i) xs) = set xs - {xs ! i}" and "distinct (take i xs @ drop (Suc i) xs)"
proof -
  have e: "xs = take i xs @ xs ! i # drop (Suc i) xs" using id_take_nth_drop [OF assms(2)] .
  then have d: "distinct (take i xs @ xs ! i # drop (Suc i) xs)" using assms(1) by simp
  then show "distinct (take i xs @ drop (Suc i) xs)" by simp
  have "set xs = set (take i xs @ xs ! i # drop (Suc i) xs)" using e by simp
  then show "set (take i xs @ drop (Suc i) xs) = set xs - {xs ! i}" using d by auto
qed

text \<open>Closing an open message, and a closed one again.\<close>

lemma close_open_spec:
  assumes "messages_but E st" and "0 < e" and "e < seed st" and "\<not> is_closed (comps st e)"
  shows "\<exists>i F. i < length (msg_stack st) \<and> msg_stack st ! i = e \<and> close_component e st = st\<lparr>msg_stack := take i (msg_stack st) @ drop (Suc i) (msg_stack st),
        user_calls := user_calls st @ (if user_close (comps st e) then [e] else []),
        comps := (\<lambda>b. (comps st b)\<lparr>top_px := F b, is_closed := is_closed (comps st b) \<or> b = e\<rparr>)\<rparr>"
proof -
  let ?s = "set_message e ((comps st e)\<lparr>is_closed := True\<rparr>) st"
  have "e \<in> set (msg_stack st)" "distinct (msg_stack st)" using assms by (simp_all add: messages_but_def)
  then obtain i where i: "i < length (msg_stack st)" "msg_stack st ! i = e" "distinct (msg_stack st)" by (auto simp: in_set_conv_nth)
  then have c: "close_component e st = ?s\<lparr>msg_stack := take i (msg_stack ?s) @ drop (Suc i) (msg_stack ?s),
    user_calls := user_calls ?s @ (if user_close (comps ?s e) then [e] else []),
    comps := (\<lambda>b. if b \<in> set (drop (Suc i) (msg_stack ?s))
      then (comps ?s b)\<lparr>top_px := top_px (comps ?s b) - int (msg_height (comps ?s (msg_stack ?s ! Suc i))) - 16\<rparr> else comps ?s b)\<rparr>"
    unfolding close_component_def by (intro close_message_spec) (simp_all add: set_message_def)
  let ?F = "\<lambda>b. if b \<in> set (drop (Suc i) (msg_stack ?s)) then top_px (comps ?s b) - int (msg_height (comps ?s (msg_stack ?s ! Suc i))) - 16
    else top_px (comps ?s b)"
  have "close_component e st = st\<lparr>msg_stack := take i (msg_stack st) @ drop (Suc i) (msg_stack st),
        user_calls := user_calls st @ (if user_close (comps st e) then [e] else []),
        comps := (\<lambda>b. (comps st b)\<lparr>top_px := ?F b, is_closed := is_closed (comps st b) \<or> b = e\<rparr>)\<rparr>"
    unfolding c by (auto simp: set_message_def fun_eq_iff)
  with i(1,2) show ?thesis by (intro exI [of _ i] exI [of _ ?F] conjI)
qed

lemma close_again:
  assumes "messages_but E st" and "is_closed (comps st e)"
  shows "close_component e st = st"
proof -
  let ?m = "(comps st e)\<lparr>is_closed := True\<rparr>"
  have "?m = comps st e" using assms(2) by simp
  then have "set_message e ?m st = st" by (simp add: set_message_def)
  moreover have "index_of e (msg_stack st) = None" using assms by (simp add: index_of_None messages_but_def)
  ultimately show ?thesis by (simp add: close_component_def close_message_def)
qed

lemma close_component_ok:
  assumes ok: "messages_but E st" and e: "0 < e" "e < seed st"
  shows "messages_but (E - {e}) (close_component e st) \<and> seed (close_component e st) = seed st
    \<and> msg_stack (close_component e st) = filter (\<lambda>j. j \<noteq> e) (msg_stack st)
    \<and> (\<forall>j. is_closed (comps (close_component e st) j) \<longleftrightarrow> is_closed (comps st j) \<or> j = e)"
proof (cases "is_closed (comps st e)")
  case True
  then have "e \<notin> set (msg_stack st)" using ok by (simp add: messages_but_def)
  then have "filter (\<lambda>j. j \<noteq> e) (msg_stack st) = msg_stack st" "messages_but (E - {e}) st"
    using ok by (auto simp: filter_id_conv messages_but_def)
  then show ?thesis using close_again [OF ok True] True by auto
next
  case False
  from close_open_spec [OF ok e False] obtain i F where i: "i < length (msg_stack st)" "msg_stack st ! i = e"
    and c: "close_component e st = st\<lparr>msg_stack := take i (msg_stack st) @ drop (Suc i) (msg_stack st),
        user_calls := user_calls st @ (if user_close (comps st e) then [e] else []),
        comps := (\<lambda>b. (comps st b)\<lparr>top_px := F b, is_closed := is_closed (comps st b) \<or> b = e\<rparr>)\<rparr>" by blast
  have d: "distinct (msg_stack st)" using ok by (simp add: messages_but_def)
  note td = take_drop_set [OF d i(1), unfolded i(2)]
  have "e \<notin> set (user_calls st)" using ok False by (simp add: messages_but_def)
  let ?q = "take i (msg_stack st) @ drop (Suc i) (msg_stack st)" and ?s = "close_component e st"
  have f: "seed ?s = seed st" "msg_stack ?s = ?q" "is_closed (comps ?s j) \<longleftrightarrow> is_closed (comps st j) \<or> j = e"
    "user_close (comps ?s j) = user_close (comps st j)" "duration (comps ?s j) = duration (comps st j)"
    "pointer_in (comps ?s j) = pointer_in (comps st j)" "timeouts (comps ?s j) = timeouts (comps st j)"
    "user_calls ?s = user_calls st @ (if user_close (comps st e) then [e] else [])" for j
    by (simp_all add: c)
  have "set ?q = {j. 0 < j \<and> j < seed st \<and> \<not> (is_closed (comps st j) \<or> j = e)}"
    unfolding td(1) using ok by (auto simp: messages_but_def)
  moreover have "distinct (user_calls ?s)" using ok False by (simp add: f messages_but_def)
  moreover have "set (user_calls ?s) = {j. 0 < j \<and> j < seed st \<and> (is_closed (comps st j) \<or> j = e) \<and> user_close (comps st j)}"
    using ok e by (auto simp: f messages_but_def)
  moreover have "\<forall>j \<in> set ?q - (E - {e}). duration (comps st j) > 0 \<longrightarrow> \<not> pointer_in (comps st j) \<longrightarrow> timeouts (comps st j) \<noteq> []"
    unfolding td(1) using ok by (auto simp: messages_but_def)
  moreover have "0 < seed st" "\<forall>j. \<not> (0 < j \<and> j < seed st) \<longrightarrow> timeouts (comps st j) = []" using ok by (simp_all add: messages_but_def)
  ultimately have "messages_but (E - {e}) ?s"
    unfolding messages_but_def f(1-7) using td(2) by (intro conjI)
  moreover have "filter (\<lambda>j. j \<noteq> e) (msg_stack st) = take i (msg_stack st) @ drop (Suc i) (msg_stack st)"
  proof -
    have q: "msg_stack st = take i (msg_stack st) @ e # drop (Suc i) (msg_stack st)" using id_take_nth_drop [OF i(1)] i(2) by simp
    have "filter (\<lambda>j. j \<noteq> e) (msg_stack st) = filter (\<lambda>j. j \<noteq> e) (take i (msg_stack st) @ drop (Suc i) (msg_stack st))"
      by (rule trans [OF arg_cong [OF q]]) simp
    also have "\<dots> = take i (msg_stack st) @ drop (Suc i) (msg_stack st)" using td(1) by (intro filter_True) blast
    finally show ?thesis .
  qed
  ultimately show ?thesis by (simp add: c)
qed

lemma close_open_ok:
  assumes "messages_ok st" and "0 < e" and "e < seed st"
  shows "messages_ok (close_open e st) \<and> seed (close_open e st) = seed st
    \<and> (\<forall>j. is_closed (comps (close_open e st) j) \<longleftrightarrow> is_closed (comps st j) \<or> j = e)"
  using close_component_ok [OF assms] assms(1) by (auto simp: close_open_def)

lemma escape_ok:
  assumes "messages_ok st" and "\<And>e. e \<in> set es \<Longrightarrow> 0 < e \<and> e < seed st"
  shows "messages_ok (fold close_open es st) \<and> seed (fold close_open es st) = seed st
    \<and> (\<forall>j. is_closed (comps (fold close_open es st) j) \<longleftrightarrow> is_closed (comps st j) \<or> j \<in> set es)"
  using assms
proof (induction es arbitrary: st)
  case (Cons e es)
  have 1: "messages_ok (close_open e st)" "seed (close_open e st) = seed st"
    "\<forall>j. is_closed (comps (close_open e st) j) \<longleftrightarrow> is_closed (comps st j) \<or> j = e"
    using close_open_ok Cons.prems by simp_all
  have "messages_ok (fold close_open es (close_open e st)) \<and> seed (fold close_open es (close_open e st)) = seed (close_open e st)
    \<and> (\<forall>j. is_closed (comps (fold close_open es (close_open e st)) j) \<longleftrightarrow> is_closed (comps (close_open e st) j) \<or> j \<in> set es)"
    using Cons.prems(2) 1(2) by (intro Cons.IH [OF 1(1)]) simp
  then show ?case using 1(2,3) by simp
qed simp

lemma escape_empties:
  assumes "messages_ok st"
  shows "messages_ok (message_step MEscape st) \<and> msg_stack (message_step MEscape st) = []"
proof -
  let ?s = "fold close_open [1..<seed st] st"
  have e: "messages_ok ?s" "seed ?s = seed st" "\<forall>j. is_closed (comps ?s j) \<longleftrightarrow> is_closed (comps st j) \<or> j \<in> set [1..<seed st]"
    using escape_ok [OF assms, of "[1..<seed st]"] by simp_all
  from e(1) have m: "set (msg_stack ?s) = {i. 0 < i \<and> i < seed ?s \<and> \<not> is_closed (comps ?s i)}" unfolding messages_but_def by (elim conjE)
  have "j \<notin> set (msg_stack ?s)" for j
  proof
    assume "j \<in> set (msg_stack ?s)"
    then have "0 < j \<and> j < seed st \<and> \<not> is_closed (comps ?s j)" unfolding m e(2) by blast
    then show False using e(3) [rule_format, of j] by simp
  qed
  then have "msg_stack ?s = []" by (metis list.set_intros(1) neq_Nil_conv)
  then show ?thesis using e(1) by simp
qed

lemma close_all_ok:
  assumes "messages_ok st" and "n = length (msg_stack st)"
  shows "messages_ok (fold (\<lambda>t st. close_component (msg_stack st ! t) st) (rev [0..<n]) st)
    \<and> msg_stack (fold (\<lambda>t st. close_component (msg_stack st ! t) st) (rev [0..<n]) st) = []"
  using assms
proof (induction n arbitrary: st)
  case (Suc n)
  let ?e = "msg_stack st ! n"
  have d: "distinct (msg_stack st)" and l: "length (msg_stack st) = Suc n" using Suc.prems by (simp_all add: messages_but_def)
  have "?e \<in> set (msg_stack st)" using l by simp
  then have e: "0 < ?e" "?e < seed st" using Suc.prems(1) by (simp_all add: messages_but_def)
  have "length (filter (\<lambda>j. j \<noteq> ?e) (msg_stack st)) = n"
  proof -
    have "length (filter (\<lambda>j. j \<noteq> ?e) (msg_stack st)) = card (set (msg_stack st) - {?e})"
      using d distinct_card [of "filter (\<lambda>j. j \<noteq> ?e) (msg_stack st)"] by (simp add: set_diff_eq)
    then show ?thesis using \<open>?e \<in> set (msg_stack st)\<close> l distinct_card [OF d] by (simp add: card_Diff_singleton)
  qed
  then show ?case using Suc.IH [of "close_component ?e st"] close_component_ok [OF Suc.prems(1) e] by simp
qed simp

lemma set_message_ok:
  assumes "messages_but E st" and "0 < i" and "i < seed st"
    and "is_closed m = is_closed (comps st i)" and "user_close m = user_close (comps st i)"
    and "i \<notin> F \<Longrightarrow> duration m > 0 \<Longrightarrow> \<not> pointer_in m \<Longrightarrow> timeouts m \<noteq> []" and "E \<subseteq> insert i F"
  shows "messages_but F (set_message i m (st\<lparr>next_timeout := n\<rparr>))"
proof -
  let ?s = "set_message i m (st\<lparr>next_timeout := n\<rparr>)"
  have f: "seed ?s = seed st" "msg_stack ?s = msg_stack st" "user_calls ?s = user_calls st"
    "is_closed (comps ?s j) = is_closed (comps st j)" "user_close (comps ?s j) = user_close (comps st j)"
    "j \<noteq> i \<Longrightarrow> comps ?s j = comps st j" "comps ?s i = m" for j
    using assms(4,5) by (simp_all add: set_message_def)
  have "\<forall>j \<in> set (msg_stack st) - F. duration (comps ?s j) > 0 \<longrightarrow> \<not> pointer_in (comps ?s j) \<longrightarrow> timeouts (comps ?s j) \<noteq> []"
  proof
    fix j assume j: "j \<in> set (msg_stack st) - F"
    show "duration (comps ?s j) > 0 \<longrightarrow> \<not> pointer_in (comps ?s j) \<longrightarrow> timeouts (comps ?s j) \<noteq> []"
    proof (cases "j = i")
      case True
      then show ?thesis using j assms(6) f(7) by simp
    next
      case False
      then have "j \<notin> E" using j assms(7) by blast
      then show ?thesis using j assms(1) f(6) [OF False] by (simp add: messages_but_def)
    qed
  qed
  moreover have "timeouts (comps ?s j) = []" if "\<not> (0 < j \<and> j < seed st)" for j
  proof -
    have "j \<noteq> i" using that assms(2,3) by blast
    moreover have "timeouts (comps st j) = []" using assms(1) that unfolding messages_but_def by blast
    ultimately show ?thesis using f(6) by simp
  qed
  ultimately show ?thesis using assms(1) unfolding messages_but_def f(1-5) by blast
qed

lemma set_message_twice: "set_message i m (set_message i m' st) = set_message i m st"
  by (simp add: set_message_def)

lemma enter_ok:
  assumes "messages_ok st" and "0 < i" and "i < seed st"
  shows "messages_ok (clear_timer i (set_message i ((comps st i)\<lparr>pointer_in := True\<rparr>) st))"
proof -
  let ?m = "(comps st i)\<lparr>pointer_in := True\<rparr>"
  have m: "comps (set_message i ?m st) i = ?m" by (simp add: set_message_def)
  obtain ts where "clear_timer i (set_message i ?m st) = set_message i (?m\<lparr>timeouts := ts\<rparr>) st"
  proof (cases "timer ?m")
    case None
    then have "clear_timer i (set_message i ?m st) = set_message i (?m\<lparr>timeouts := timeouts ?m\<rparr>) st"
      by (simp add: clear_timer_def m)
    then show ?thesis by (rule that)
  next
    case (Some t)
    then have "clear_timer i (set_message i ?m st) = set_message i (?m\<lparr>timeouts := removeAll t (timeouts ?m)\<rparr>) st"
      by (simp add: clear_timer_def m set_message_twice)
    then show ?thesis by (rule that)
  qed
  moreover have "messages_ok (set_message i (?m\<lparr>timeouts := ts\<rparr>) (st\<lparr>next_timeout := next_timeout st\<rparr>))"
    by (rule set_message_ok [OF assms]) simp_all
  ultimately show ?thesis by simp
qed

text \<open>Starting a timer, for a message whose timer may be missing.\<close>

lemma start_timer_ok:
  assumes "messages_but {i} st" and "0 < i" and "i < seed st"
  shows "messages_ok (start_timer i st)"
proof (cases "duration (comps st i) > 0")
  case True
  have "messages_ok (set_message i ((comps st i)\<lparr>timer := Some (next_timeout st), timeouts := timeouts (comps st i) @ [next_timeout st]\<rparr>)
    (st\<lparr>next_timeout := Suc (next_timeout st)\<rparr>))"
    by (rule set_message_ok [OF assms]) simp_all
  then show ?thesis using True by (simp add: start_timer_def Let_def)
next
  case False
  then show ?thesis using assms(1) by (auto simp: start_timer_def messages_but_def)
qed

lemma open_ok:
  assumes "messages_ok st"
  shows "messages_ok (open_message h d u off st)"
proof -
  let ?i = "seed st"
  let ?m = "\<lparr>msg_height = h, top_px = 20, duration = d, is_closed = False, timer = None, timeouts = [], user_close = u, pointer_in = False\<rparr>"
  let ?s = "set_message ?i ?m (st\<lparr>seed := Suc ?i, msg_stack := msg_stack st @ [?i]\<rparr>)"
  have f: "seed ?s = Suc ?i" "msg_stack ?s = msg_stack st @ [?i]" "user_calls ?s = user_calls st" "comps ?s ?i = ?m"
    "j \<noteq> ?i \<Longrightarrow> comps ?s j = comps st j" for j
    by (simp_all add: set_message_def)
  have p: "0 < ?i" "distinct (msg_stack st)" "set (msg_stack st) = {i. 0 < i \<and> i < ?i \<and> \<not> is_closed (comps st i)}" "distinct (user_calls st)"
    "set (user_calls st) = {i. 0 < i \<and> i < ?i \<and> is_closed (comps st i) \<and> user_close (comps st i)}"
    "\<forall>i \<in> set (msg_stack st). duration (comps st i) > 0 \<longrightarrow> \<not> pointer_in (comps st i) \<longrightarrow> timeouts (comps st i) \<noteq> []"
    "\<forall>i. \<not> (0 < i \<and> i < ?i) \<longrightarrow> timeouts (comps st i) = []"
    using assms unfolding messages_but_def by (elim conjE; simp)+
  have "set (msg_stack st @ [?i]) = {i. 0 < i \<and> i < Suc ?i \<and> \<not> is_closed (comps ?s i)}"
    using p(1) f(4,5) by (auto simp: p(3) less_Suc_eq)
  moreover have "set (user_calls st) = {i. 0 < i \<and> i < Suc ?i \<and> is_closed (comps ?s i) \<and> user_close (comps ?s i)}"
    unfolding p(5) using f(4,5) by (auto simp: less_Suc_eq)
  moreover have "\<forall>i \<in> set (msg_stack st @ [?i]) - {?i}. duration (comps ?s i) > 0 \<longrightarrow> \<not> pointer_in (comps ?s i) \<longrightarrow> timeouts (comps ?s i) \<noteq> []"
    using p(6) f(5) by auto
  moreover have "\<forall>i. \<not> (0 < i \<and> i < Suc ?i) \<longrightarrow> timeouts (comps ?s i) = []" 
  proof (intro allI impI)
    fix i assume i: "\<not> (0 < i \<and> i < Suc ?i)"
    then have "i \<noteq> ?i" using p(1) by auto
    then show "timeouts (comps ?s i) = []" using p(7) f(5) i by auto
  qed
  moreover have "distinct (msg_stack st @ [?i])" using p(2,3) by simp
  ultimately have "messages_but {?i} ?s" unfolding messages_but_def f(1-3) using p(4) by simp
  then have 1: "messages_ok (start_timer ?i ?s)" using start_timer_ok p(1) f(1) by simp
  let ?t = "start_timer ?i (set_message ?i ?m (st\<lparr>seed := Suc ?i\<rparr>))"
  have t: "start_timer ?i ?s = ?t\<lparr>msg_stack := msg_stack ?t @ [?i]\<rparr>" by (simp add: start_timer_def set_message_def Let_def)
  obtain r where r: "open_message h d u off st = set_message ?i ((comps ?t ?i)\<lparr>top_px := r\<rparr>) (?t\<lparr>msg_stack := msg_stack ?t @ [?i]\<rparr>)"
    by (simp add: open_message_def Let_def)
  let ?v = "?t\<lparr>msg_stack := msg_stack ?t @ [?i]\<rparr>"
  have "messages_ok (set_message ?i ((comps ?v ?i)\<lparr>top_px := r\<rparr>) (?v\<lparr>next_timeout := next_timeout ?v\<rparr>))"
  proof (rule set_message_ok)
    show v: "messages_ok ?v" using 1 t by simp
    show "0 < ?i" using assms by (simp add: messages_but_def)
    show "?i < seed ?v" by (simp add: start_timer_def set_message_def Let_def)
    show "timeouts ((comps ?v ?i)\<lparr>top_px := r\<rparr>) \<noteq> []"
      if "0 < duration ((comps ?v ?i)\<lparr>top_px := r\<rparr>)" "\<not> pointer_in ((comps ?v ?i)\<lparr>top_px := r\<rparr>)"
      using v that by (simp add: messages_but_def)
  qed simp_all
  then show ?thesis by (simp add: r)
qed

lemma message_step_ok: "messages_ok st \<Longrightarrow> messages_ok (message_step e st)"
proof (cases e)
  case (MButton i)
  assume "messages_ok st"
  then show ?thesis using MButton close_component_ok by fastforce
next
  case (MTimeout i t)
  assume ok: "messages_ok st"
  show ?thesis
  proof (cases "t \<in> set (timeouts (comps st i))")
    case True
    let ?m = "(comps st i)\<lparr>timeouts := removeAll t (timeouts (comps st i))\<rparr>"
    have i: "0 < i" "i < seed st" using ok True by (auto simp: messages_but_def)
    have s: "messages_but {i} (set_message i ?m (st\<lparr>next_timeout := next_timeout st\<rparr>))"
      by (rule set_message_ok [OF ok i]) simp_all
    have "messages_ok (close_open i (set_message i ?m st))"
    proof (cases "is_closed (comps st i)")
      case True
      then have "messages_ok (set_message i ?m st)" using s by (simp add: messages_but_def set_message_def)
      then show ?thesis using True by (simp add: close_open_def set_message_def)
    next
      case False
      then show ?thesis using close_component_ok [of "{i}" "set_message i ?m st" i] s i
        by (simp add: close_open_def set_message_def)
    qed
    then show ?thesis using MTimeout True by simp
  qed (use MTimeout ok in simp)
next
  case (MLeave i)
  assume ok: "messages_ok st"
  show ?thesis
  proof (cases "0 < i \<and> i < seed st \<and> pointer_in (comps st i)")
    case True
    have "messages_but {i} (set_message i ((comps st i)\<lparr>pointer_in := False\<rparr>) (st\<lparr>next_timeout := next_timeout st\<rparr>))"
      using True by (intro set_message_ok [OF ok]) simp_all
    then have "messages_ok (start_timer i (set_message i ((comps st i)\<lparr>pointer_in := False\<rparr>) st))"
      using True by (intro start_timer_ok) (simp_all add: set_message_def)
    then show ?thesis using MLeave True by simp
  qed (use MLeave ok in auto)
qed (use escape_empties open_ok enter_ok close_all_ok in \<open>simp_all add: close_all_def\<close>)

lemma messages_init_ok: "messages_ok messages_init"
  by (auto simp: messages_but_def messages_init_def no_message_def)

lemma message_run_ok: "messages_ok st \<Longrightarrow> messages_ok (message_run es st)"
  by (induction es arbitrary: st) (simp_all add: message_run_def message_step_ok)

section \<open>Where messages stand\<close>

text \<open>Where the message at an index stands if all above it are stacked.\<close>

definition msg_place :: "messages \<Rightarrow> nat \<Rightarrow> int" where
  "msg_place st k = 20 + (\<Sum>j<k. int (msg_height (comps st (msg_stack st ! j))) + 16)"

definition stacked :: "messages \<Rightarrow> bool" where
  "stacked st \<longleftrightarrow> (\<forall>k < length (msg_stack st). top_px (comps st (msg_stack st ! k)) = msg_place st k)"

lemma nth_skip: "j < length xs - 1 \<Longrightarrow> k < length xs \<Longrightarrow> (take k xs @ drop (Suc k) xs) ! j = xs ! (if j < k then j else Suc j)"
  by (auto simp: nth_append min_def)

lemma sum_skip:
  fixes g :: "nat \<Rightarrow> int"
  shows "k \<le> j \<Longrightarrow> (\<Sum>i<j. g (if i < k then i else Suc i)) = (\<Sum>i<Suc j. g i) - g k"
proof (induction j)
  case (Suc j)
  then show ?case by (cases "k = Suc j") auto
qed simp

text \<open>Closing the message at an index, in full.\<close>

lemma close_at:
  assumes "messages_but E st" and "k < length (msg_stack st)"
  shows "msg_stack (close_component (msg_stack st ! k) st) = take k (msg_stack st) @ drop (Suc k) (msg_stack st)"
    and "msg_height (comps (close_component (msg_stack st ! k) st) b) = msg_height (comps st b)"
    and "j < length (msg_stack st) - 1 \<Longrightarrow> top_px (comps (close_component (msg_stack st ! k) st) (msg_stack st ! (if j < k then j else Suc j)))
      = (if j < k then top_px (comps st (msg_stack st ! j))
         else top_px (comps st (msg_stack st ! Suc j)) - int (msg_height (comps st (msg_stack st ! Suc k))) - 16)"
proof -
  let ?e = "msg_stack st ! k" and ?q = "msg_stack st"
  let ?s = "set_message ?e ((comps st ?e)\<lparr>is_closed := True\<rparr>) st"
  have d: "distinct ?q" using assms(1) by (simp add: messages_but_def)
  have s: "msg_stack ?s = ?q" "msg_height (comps ?s b) = msg_height (comps st b)" "top_px (comps ?s b) = top_px (comps st b)" for b
    by (simp_all add: set_message_def)
  note c = close_message_spec [of ?s k ?e, unfolded s(1), OF d assms(2) refl, folded close_component_def]
  show "msg_stack (close_component ?e st) = take k ?q @ drop (Suc k) ?q"
    and "msg_height (comps (close_component ?e st) b) = msg_height (comps st b)" by (simp_all add: c s)
  assume j: "j < length ?q - 1"
  show "top_px (comps (close_component ?e st) (?q ! (if j < k then j else Suc j)))
      = (if j < k then top_px (comps st (?q ! j)) else top_px (comps st (?q ! Suc j)) - int (msg_height (comps st (?q ! Suc k))) - 16)"
  proof (cases "j < k")
    case True
    have "?q ! j \<notin> set (drop (Suc k) ?q)"
    proof
      assume "?q ! j \<in> set (drop (Suc k) ?q)"
      then obtain i where "i < length ?q - Suc k" "?q ! (Suc k + i) = ?q ! j" by (auto simp: in_set_conv_nth)
      then show False using d True assms(2) by (auto simp: nth_eq_iff_index_eq)
    qed
    then show ?thesis using True by (simp add: c s)
  next
    case False
    have "drop (Suc k) ?q ! (j - k) = ?q ! Suc j" "j - k < length (drop (Suc k) ?q)" using False j by auto
    then have "?q ! Suc j \<in> set (drop (Suc k) ?q)" by (metis nth_mem)
    then show ?thesis using False by (simp add: c s)
  qed
qed

lemma close_stacked:
  assumes ok: "messages_but E st" and st: "stacked st" and k: "k < length (msg_stack st)"
    and j: "j < length (msg_stack (close_component (msg_stack st ! k) st))"
  shows "top_px (comps (close_component (msg_stack st ! k) st) (msg_stack (close_component (msg_stack st ! k) st) ! j))
    = msg_place (close_component (msg_stack st ! k) st) j
      + (if k \<le> j then int (msg_height (comps st (msg_stack st ! k))) - int (msg_height (comps st (msg_stack st ! Suc k))) else 0)"
proof -
  let ?s = "close_component (msg_stack st ! k) st" and ?h = "\<lambda>i. int (msg_height (comps st (msg_stack st ! i))) + 16"
  note c = close_at [OF ok k]
  have j': "j < length (msg_stack st) - 1" using j k by (simp add: c(1))
  have at: "msg_stack ?s ! i = msg_stack st ! (if i < k then i else Suc i)" if "i \<le> j" for i
    using nth_skip [of i "msg_stack st" k] that j' k by (simp add: c(1))
  have "msg_place ?s j = 20 + (\<Sum>i<j. ?h (if i < k then i else Suc i))"
    unfolding msg_place_def c(2) using at by (intro arg_cong2 [of _ _ _ _ "(+)"] refl sum.cong) simp_all
  then have p: "msg_place ?s j = (if k \<le> j then msg_place st (Suc j) - ?h k else msg_place st j)"
    using sum_skip [of k j ?h] by (auto simp: msg_place_def intro!: sum.cong)
  have t: "top_px (comps st (msg_stack st ! i)) = msg_place st i" if "i < length (msg_stack st)" for i using st that by (simp add: stacked_def)
  show ?thesis unfolding at [OF order_refl] c(3) [OF j'] p using t [of j] t [of "Suc j"] j' by auto
qed

text \<open>Messages of one height.\<close>

definition evenly :: "nat \<Rightarrow> messages \<Rightarrow> bool" where
  "evenly h st \<longleftrightarrow> (\<forall>i \<in> set (msg_stack st). msg_height (comps st i) = h)
     \<and> (\<forall>k < length (msg_stack st). top_px (comps st (msg_stack st ! k)) = 20 + int k * (int h + 16))"

lemma evenly_same:
  assumes "evenly h st" and "msg_stack st' = msg_stack st" and "\<And>i. msg_height (comps st' i) = msg_height (comps st i)"
    and "\<And>i. top_px (comps st' i) = top_px (comps st i)"
  shows "evenly h st'"
  using assms(1) by (simp add: evenly_def assms(2-4))

lemma evenly_stacked:
  assumes "\<forall>i \<in> set (msg_stack st). msg_height (comps st i) = h"
  shows "evenly h st \<longleftrightarrow> stacked st"
proof -
  have "msg_place st k = 20 + int k * (int h + 16)" if "k < length (msg_stack st)" for k
  proof -
    have "(\<Sum>j<k. int (msg_height (comps st (msg_stack st ! j))) + 16) = (\<Sum>j<k. int h + 16)"
      using assms that by (intro sum.cong) auto
    then show ?thesis by (simp add: msg_place_def)
  qed
  then show ?thesis using assms by (simp add: evenly_def stacked_def)
qed

lemma close_evenly:
  assumes ok: "messages_but E st" and ev: "evenly h st" and e: "0 < e" "e < seed st"
  shows "evenly h (close_component e st)"
proof (cases "e \<in> set (msg_stack st)")
  case False
  then have "close_component e st = set_message e ((comps st e)\<lparr>is_closed := True\<rparr>) st"
    by (simp add: close_component_def close_message_def set_message_def index_of_None [THEN iffD2])
  then show ?thesis using evenly_same [OF ev] by (simp add: set_message_def)
next
  case True
  then obtain k where k: "k < length (msg_stack st)" "e = msg_stack st ! k" by (auto simp: in_set_conv_nth)
  let ?s = "close_component e st"
  note c = close_at(1,2) [OF ok k(1), folded k(2)]
  have hs: "\<forall>i \<in> set (msg_stack st). msg_height (comps st i) = h" using ev by (simp add: evenly_def)
  then have hs': "\<forall>i \<in> set (msg_stack ?s). msg_height (comps ?s i) = h" by (auto simp: c dest: in_set_takeD in_set_dropD)
  have "stacked st" using ev evenly_stacked hs by blast
  have "top_px (comps ?s (msg_stack ?s ! j)) = msg_place ?s j" if "j < length (msg_stack ?s)" for j
  proof -
    have "k \<le> j \<Longrightarrow> Suc k < length (msg_stack st)" using that k(1) by (simp add: c(1))
    then have "k \<le> j \<Longrightarrow> msg_height (comps st (msg_stack st ! k)) = msg_height (comps st (msg_stack st ! Suc k))" using hs k(1) by simp
    then show ?thesis using close_stacked [OF ok \<open>stacked st\<close> k(1)] that k(2) by simp
  qed
  then show ?thesis using evenly_stacked [OF hs'] by (simp add: stacked_def)
qed

lemma fold_offsets: "fold (\<lambda>j r. r + int (f j) + 16) xs r = r + (\<Sum>i<length xs. int (f (xs ! i)) + 16)"
proof (induction xs arbitrary: r)
  case (Cons x xs)
  then show ?case by (simp add: sum.lessThan_Suc_shift del: sum.lessThan_Suc)
qed simp

lemma open_evenly:
  assumes ev: "evenly h st" and ok: "messages_ok st" and off: "off = None \<or> off = Some 0 \<or> off = Some 20"
  shows "evenly h (open_message h d u off st)"
proof -
  let ?i = "seed st"
  let ?m = "\<lparr>msg_height = h, top_px = 20, duration = d, is_closed = False, timer = None, timeouts = [], user_close = u, pointer_in = False\<rparr>"
  let ?t = "start_timer ?i (set_message ?i ?m (st\<lparr>seed := Suc ?i\<rparr>))"
  have n: "?i \<notin> set (msg_stack st)" using ok by (simp add: messages_but_def)
  have t: "msg_stack ?t = msg_stack st" "msg_height (comps ?t ?i) = h" "j \<noteq> ?i \<Longrightarrow> comps ?t j = comps st j" for j
    by (simp_all add: start_timer_def set_message_def Let_def)
  have s: "msg_stack st ! j \<noteq> ?i" if "j < length (msg_stack st)" for j using n nth_mem [OF that] by metis
  let ?r = "20 + int (length (msg_stack st)) * (int h + 16)"
  have "(\<Sum>i<length (msg_stack st). int (msg_height (comps ?t (msg_stack st ! i))) + 16) = (\<Sum>i<length (msg_stack st). int h + 16)"
    using ev s t(3) by (intro sum.cong) (simp_all add: evenly_def)
  then have "fold (\<lambda>j r. r + int (msg_height (comps ?t j)) + 16) (msg_stack ?t) 20 = ?r" by (simp add: fold_offsets t(1))
  then have o: "open_message h d u off st = set_message ?i ((comps ?t ?i)\<lparr>top_px := ?r\<rparr>) (?t\<lparr>msg_stack := msg_stack st @ [?i]\<rparr>)"
    using off by (auto simp: open_message_def Let_def t(1))
  have "\<forall>j \<in> set (msg_stack st). msg_height (comps st j) = h" using ev by (simp add: evenly_def)
  then show ?thesis using ev s n t(2,3) by (auto simp: o evenly_def set_message_def nth_append less_Suc_eq)
qed

lemma timers_keep_places:
  "msg_stack (start_timer i st) = msg_stack st" "msg_height (comps (start_timer i st) j) = msg_height (comps st j)"
  "top_px (comps (start_timer i st) j) = top_px (comps st j)"
  "msg_stack (clear_timer i st) = msg_stack st" "msg_height (comps (clear_timer i st) j) = msg_height (comps st j)"
  "top_px (comps (clear_timer i st) j) = top_px (comps st j)"
  by (simp_all add: start_timer_def clear_timer_def set_message_def Let_def split: option.split)

fun ordinary :: "nat \<Rightarrow> message_event \<Rightarrow> bool" where
  "ordinary h (MOpen h' d u off) \<longleftrightarrow> h' = h \<and> (off = None \<or> off = Some 0 \<or> off = Some 20)"
| "ordinary h _ \<longleftrightarrow> True"

lemma close_open_evenly:
  "messages_but E st \<Longrightarrow> evenly h st \<Longrightarrow> 0 < e \<Longrightarrow> e < seed st \<Longrightarrow> evenly h (close_open e st)"
  by (simp add: close_open_def close_evenly)

lemma escape_evenly:
  assumes "messages_ok st" and "evenly h st" and "\<And>e. e \<in> set es \<Longrightarrow> 0 < e \<and> e < seed st"
  shows "evenly h (fold close_open es st)"
  using assms
proof (induction es arbitrary: st)
  case (Cons e es)
  then show ?case using close_open_ok [of st e] close_open_evenly [of "{}" st h e] by simp
qed simp

lemma step_evenly:
  assumes ok: "messages_ok st" and ev: "evenly h st" and e: "ordinary h e"
  shows "evenly h (message_step e st)"
proof (cases e)
  case (MOpen h' d u off)
  then show ?thesis using open_evenly ok ev e by auto
next
  case (MButton i)
  then show ?thesis using close_evenly ok ev by simp
next
  case (MTimeout i t)
  show ?thesis
  proof (cases "t \<in> set (timeouts (comps st i))")
    case True
    let ?s = "set_message i ((comps st i)\<lparr>timeouts := removeAll t (timeouts (comps st i))\<rparr>) st"
    have i: "0 < i" "i < seed st" using ok True by (auto simp: messages_but_def)
    have "messages_but {i} ?s" using set_message_ok [OF ok i, of _ "{i}" "next_timeout st"] by simp
    moreover have "evenly h ?s" by (rule evenly_same [OF ev]) (simp_all add: set_message_def)
    ultimately have "evenly h (close_open i ?s)" using close_open_evenly i by (simp add: set_message_def)
    then show ?thesis using MTimeout True by simp
  qed (use MTimeout ev in simp)
next
  case (MEnter i)
  have "evenly h (message_step e st)" by (rule evenly_same [OF ev]) (simp_all add: MEnter timers_keep_places set_message_def)
  then show ?thesis .
next
  case (MLeave i)
  have "evenly h (message_step e st)" by (rule evenly_same [OF ev]) (simp_all add: MLeave timers_keep_places set_message_def)
  then show ?thesis .
next
  case MEscape
  then show ?thesis using escape_evenly [OF ok ev, of "[1..<seed st]"] by simp
next
  case MCloseAll
  have "msg_stack (close_all st) = []" using close_all_ok [OF ok refl] by (simp add: close_all_def)
  then show ?thesis using MCloseAll by (simp add: evenly_def)
qed

lemma run_evenly: "messages_ok st \<Longrightarrow> evenly h st \<Longrightarrow> (\<And>e. e \<in> set es \<Longrightarrow> ordinary h e) \<Longrightarrow> evenly h (message_run es st)"
  by (induction es arbitrary: st) (simp_all add: message_run_def message_step_ok step_evenly)

end
