(* ===== verification/RoutePattern.thy ===== *)
theory RoutePattern
  imports RouterUrl
begin

text \<open>
  Patterns of routes: \<open>path-to-regexp\<close> as vue-router 3.1.3 bundles it (\<open>chunk-vendors.ddcb6f91.js\<close>,
  module \<open>8c4f\<close>): \<open>F\<close> (parse), \<open>G\<close> (tokensToRegExp), \<open>B\<close> (tokensToFunction), with the encodings \<open>V\<close> and
  \<open>z\<close>, and the uses \<open>J\<close> (fillParams) and \<open>pe\<close> (matchRoute). The expression that \<open>G\<close> writes as text is
  built as a tree, and matched as the language does it, by backtracking. Patterns with parentheses,
  which contain an expression of their own, are not modelled. A path filled in from parameters is
  read back as the same parameters.
\<close>

section \<open>Tokens\<close>

text \<open>A parameter is named, or numbered when the pattern is an asterisk. Its own pattern is \<open>[^d]+?\<close> for
  its delimiter \<open>d\<close>, or \<open>.*\<close>.\<close>

datatype param_name = Named string | Unnamed nat
datatype param_pattern = Segment char | Asterisk

record token =
  tk_name :: param_name
  tk_prefix :: string
  tk_delimiter :: char
  tk_optional :: bool
  tk_repeat :: bool
  tk_partial :: bool
  tk_pattern :: param_pattern

datatype piece = Lit string | Param token

definition word_char :: "char \<Rightarrow> bool" where
  "word_char c \<longleftrightarrow> is_alpha c \<or> is_digit c \<or> c = CHR ''_''"

text \<open>What the second alternative of the expression \<open>A\<close> finds at the head of a text: the prefix, the
  name (none for an asterisk), the modifier, and what follows.\<close>

definition bare_param :: "string \<Rightarrow> (string option \<times> char option \<times> string) option" where
  "bare_param s =
     (case s of
        [] \<Rightarrow> None
      | c # t \<Rightarrow>
        if c = CHR ''*'' then Some (None, None, t)
        else if c = CHR '':'' \<and> t \<noteq> [] \<and> word_char (hd t) then
          (let w = takeWhile word_char t; u = dropWhile word_char t in
           if u \<noteq> [] \<and> hd u \<in> set ''+*?'' then Some (Some w, Some (hd u), tl u) else Some (Some w, None, u))
        else None)"

definition param_at :: "string \<Rightarrow> (string \<times> string option \<times> char option \<times> string) option" where
  "param_at s =
     (if s \<noteq> [] \<and> hd s \<in> set ''/.'' then map_option (Pair [hd s]) (bare_param (tl s))
      else map_option (Pair []) (bare_param s))"

definition make_token :: "string \<Rightarrow> string option \<Rightarrow> char option \<Rightarrow> string \<Rightarrow> nat \<Rightarrow> token" where
  "make_token h f v rest r =
     (let d = (if h = [] then CHR ''/'' else hd h) in
      \<lparr>tk_name = (case f of Some w \<Rightarrow> Named w | None \<Rightarrow> Unnamed r), tk_prefix = h, tk_delimiter = d,
       tk_optional = (v = Some CHR ''?'' \<or> v = Some CHR ''*''), tk_repeat = (v = Some CHR ''+'' \<or> v = Some CHR ''*''),
       tk_partial = (h \<noteq> [] \<and> rest \<noteq> [] \<and> hd rest \<noteq> hd h),
       tk_pattern = (if f = None then Asterisk else Segment d)\<rparr>)"

lemma bare_param_less: "bare_param s = Some (f, v, rest) \<Longrightarrow> length rest < length s"
proof -
  have "length (dropWhile word_char t) - n < Suc (length t)" for n t
    using length_dropWhile_le [of word_char t] by linarith
  from this [where n = 0] this [where n = 1] show "bare_param s = Some (f, v, rest) \<Longrightarrow> length rest < length s"
    by (auto simp: bare_param_def Let_def split: list.splits if_splits)
qed

lemma param_at_less: "param_at s = Some (h, f, v, rest) \<Longrightarrow> length rest < length s"
  by (cases s) (auto simp: param_at_def dest!: bare_param_less split: if_splits)

text \<open>\<open>F(e)\<close>: \<open>a\<close> is the literal text so far, \<open>r\<close> the number of the next unnamed parameter.\<close>

function parse_pattern_from :: "string \<Rightarrow> string \<Rightarrow> nat \<Rightarrow> piece list" where
  "parse_pattern_from s a r =
     (case s of
        [] \<Rightarrow> (if a = [] then [] else [Lit a])
      | c # t \<Rightarrow>
        if c = CHR 0x5C \<and> t \<noteq> [] \<and> hd t \<notin> {CHR 0x0A, CHR 0x0D} then parse_pattern_from (tl t) (a @ [hd t]) r
        else
          (case param_at s of
             Some (h, f, v, rest) \<Rightarrow>
               (if a = [] then [] else [Lit a]) @
               Param (make_token h f v rest r) # parse_pattern_from rest [] (if f = None then Suc r else r)
           | None \<Rightarrow> parse_pattern_from t (a @ [c]) r))"
  by pat_completeness auto
termination
  by (relation "measure (\<lambda>(s, a, r). length s)") (auto dest: param_at_less)

declare parse_pattern_from.simps [simp del]

definition parse_pattern :: "string \<Rightarrow> piece list" where
  "parse_pattern e = parse_pattern_from e [] 0"

section \<open>Expressions\<close>

text \<open>The expressions that \<open>G\<close> builds. \<open>Ahead\<close> is a look-ahead, \<open>Opt\<close> and \<open>Star\<close> take as much as they
  can, \<open>Plus\<close> as little; a group is numbered.\<close>

datatype rx =
    Chr char
  | NotChr char
  | Dot
  | Eps
  | AtEnd
  | Cat rx rx
  | Alt rx rx
  | Opt rx
  | Star rx
  | Plus rx
  | Ahead rx
  | Group nat rx

text \<open>With the flag \<open>i\<close> characters are compared in upper case, letters with accents too.\<close>

definition canon_char :: "char \<Rightarrow> char" where
  "canon_char c =
     (if 224 \<le> (of_char c :: nat) \<and> (of_char c :: nat) \<noteq> 247 \<and> (of_char c :: nat) \<noteq> 255
      then char_of ((of_char c :: nat) - 32) else upper_char c)"

definition same_char :: "bool \<Rightarrow> char \<Rightarrow> char \<Rightarrow> bool" where
  "same_char ci c x \<longleftrightarrow> c = x \<or> ci \<and> canon_char c = canon_char x"

text \<open>Every way to match, in the order in which backtracking finds them, with what is left of the text
  and the groups so far. A round of a repetition that consumes nothing is given up, so the length of
  the text bounds the rounds.\<close>

type_synonym match_state = "string \<times> (nat \<Rightarrow> string option)"

definition one_char :: "(char \<Rightarrow> bool) \<Rightarrow> match_state \<Rightarrow> match_state list" where
  "one_char P st = (case fst st of [] \<Rightarrow> [] | x # s \<Rightarrow> if P x then [(s, snd st)] else [])"

primrec rounds :: "bool \<Rightarrow> nat \<Rightarrow> (match_state \<Rightarrow> match_state list) \<Rightarrow> match_state \<Rightarrow> match_state list" where
  "rounds greedy 0 f st = [st]"
| "rounds greedy (Suc n) f st =
     (let more = concat (map (rounds greedy n f) (filter (\<lambda>st'. length (fst st') < length (fst st)) (f st)))
      in if greedy then more @ [st] else st # more)"

primrec rx_match :: "bool \<Rightarrow> rx \<Rightarrow> match_state \<Rightarrow> match_state list" where
  "rx_match ci (Chr c) = one_char (same_char ci c)"
| "rx_match ci (NotChr c) = one_char (\<lambda>x. \<not> same_char ci c x)"
| "rx_match ci Dot = one_char (\<lambda>x. x \<notin> {CHR 0x0A, CHR 0x0D})"
| "rx_match ci Eps = (\<lambda>st. [st])"
| "rx_match ci AtEnd = (\<lambda>st. if fst st = [] then [st] else [])"
| "rx_match ci (Cat a b) = (\<lambda>st. concat (map (rx_match ci b) (rx_match ci a st)))"
| "rx_match ci (Alt a b) = (\<lambda>st. rx_match ci a st @ rx_match ci b st)"
| "rx_match ci (Opt a) = (\<lambda>st. rx_match ci a st @ [st])"
| "rx_match ci (Star a) = (\<lambda>st. rounds True (length (fst st)) (rx_match ci a) st)"
| "rx_match ci (Plus a) = (\<lambda>st. concat (map (\<lambda>st'. rounds False (length (fst st')) (rx_match ci a) st') (rx_match ci a st)))"
| "rx_match ci (Ahead a) = (\<lambda>st. case rx_match ci a st of [] \<Rightarrow> [] | st' # _ \<Rightarrow> [(fst st, snd st')])"
| "rx_match ci (Group k a) =
     (\<lambda>st. map (\<lambda>st'. (fst st', (snd st')(k \<mapsto> take (length (fst st) - length (fst st')) (fst st)))) (rx_match ci a st))"

text \<open>\<open>exec\<close> of an expression that starts with \<open>^\<close>: the groups.\<close>

definition rx_exec :: "bool \<Rightarrow> rx \<Rightarrow> string \<Rightarrow> (nat \<Rightarrow> string option) option" where
  "rx_exec ci r s = (case rx_match ci r (s, \<lambda>_. None) of [] \<Rightarrow> None | st # _ \<Rightarrow> Some (snd st))"

section \<open>From tokens to an expression\<close>

definition rx_lit :: "string \<Rightarrow> rx" where
  "rx_lit s = foldr (\<lambda>c r. Cat (Chr c) r) s Eps"

fun rx_pattern :: "param_pattern \<Rightarrow> rx" where
  "rx_pattern (Segment d) = Plus (NotChr d)"
| "rx_pattern Asterisk = Star Dot"

definition rx_param :: "token \<Rightarrow> nat \<Rightarrow> rx" where
  "rx_param t k =
     (let l = rx_lit (tk_prefix t); c = rx_pattern (tk_pattern t);
          c' = (if tk_repeat t then Cat c (Star (Cat l c)) else c)
      in if tk_optional t then (if tk_partial t then Cat l (Opt (Group k c')) else Opt (Cat l (Group k c')))
         else Cat l (Group k c'))"

fun rx_pieces :: "piece list \<Rightarrow> nat \<Rightarrow> rx \<Rightarrow> rx" where
  "rx_pieces [] k fin = fin"
| "rx_pieces (Lit s # ps) k fin = Cat (rx_lit s) (rx_pieces ps k fin)"
| "rx_pieces (Param t # ps) k fin = Cat (rx_param t k) (rx_pieces ps (Suc k) fin)"

text \<open>The options of a route's pattern; the text that \<open>G\<close> has written ends with a slash exactly if the
  last piece is a literal that does.\<close>

record pattern_options =
  po_strict :: bool
  po_end :: bool
  po_sensitive :: bool

definition ends_with_slash :: "piece list \<Rightarrow> bool" where
  "ends_with_slash ps = (case rev ps of Lit s # _ \<Rightarrow> s \<noteq> [] \<and> last s = CHR ''/'' | _ \<Rightarrow> False)"

definition cut_slash :: "piece list \<Rightarrow> piece list" where
  "cut_slash ps = (case rev ps of Lit s # qs \<Rightarrow> rev qs @ [Lit (butlast s)] | _ \<Rightarrow> ps)"

definition tokens_to_rx :: "piece list \<Rightarrow> pattern_options \<Rightarrow> rx" where
  "tokens_to_rx ps n =
     (let d = ends_with_slash ps;
          tail = (if po_end n then AtEnd
                  else if po_strict n \<and> d then Eps
                  else Ahead (Alt (Chr (CHR ''/'')) AtEnd))
      in if po_strict n then rx_pieces ps 1 tail
         else rx_pieces (if d then cut_slash ps else ps) 1 (Cat (Opt (Cat (Chr (CHR ''/'')) (Ahead AtEnd))) tail))"

definition pattern_keys :: "piece list \<Rightarrow> token list" where
  "pattern_keys ps = concat (map (\<lambda>p. case p of Lit s \<Rightarrow> [] | Param t \<Rightarrow> [t]) ps)"

section \<open>Filling in parameters\<close>

text \<open>\<open>encodeURI\<close>, \<open>V\<close> and \<open>z\<close>\<close>

definition encode_uri :: "string \<Rightarrow> string" where
  "encode_uri s = concat (map (\<lambda>c. if c \<in> set '';/?:@&=+$,#'' then [c] else encode_unit c) s)"

definition escape_chars :: "string \<Rightarrow> string \<Rightarrow> string" where
  "escape_chars cs s = concat (map (\<lambda>c. if c \<in> set cs then pct_byte (of_char c) else [c]) s)"

definition encode_segment :: "string \<Rightarrow> string" where
  "encode_segment e = escape_chars ''/?#'' (encode_uri e)"

definition encode_asterisk :: "string \<Rightarrow> string" where
  "encode_asterisk e = escape_chars ''?#'' (encode_uri e)"

text \<open>\<open>new RegExp("^(?:" + pattern + ")$")\<close> on an encoded value.\<close>

definition pattern_test :: "param_pattern \<Rightarrow> string \<Rightarrow> bool" where
  "pattern_test p u \<longleftrightarrow> rx_exec False (Cat (rx_pattern p) AtEnd) u \<noteq> None"

definition param_key :: "param_name \<Rightarrow> string" where
  "param_key f = (case f of Named w \<Rightarrow> w | Unnamed r \<Rightarrow> show_nat r)"

text \<open>The values of a repeated parameter.\<close>

fun fill_values :: "token \<Rightarrow> string \<Rightarrow> jv list \<Rightarrow> string option" where
  "fill_values c sep [] = Some []"
| "fill_values c sep (d # ds) =
     (let u = encode_segment (js_string d) in
      if pattern_test (tk_pattern c) u
      then map_option (\<lambda>r. sep @ u @ r) (fill_values c [tk_delimiter c] ds)
      else None)"

text \<open>One round of the loop of \<open>B\<close> with \<open>pretty\<close>; \<open>None\<close> is a \<open>TypeError\<close>. Names of inherited properties
  are not looked up.\<close>

definition fill_param :: "token \<Rightarrow> jv obj \<Rightarrow> string option" where
  "fill_param c o' =
     (case getp o' (param_key (tk_name c)) of
        Undef \<Rightarrow> if tk_optional c then Some (if tk_partial c then tk_prefix c else []) else None
      | Null \<Rightarrow> if tk_optional c then Some (if tk_partial c then tk_prefix c else []) else None
      | Arr ds \<Rightarrow>
          if \<not> tk_repeat c then None
          else if ds = [] then (if tk_optional c then Some [] else None)
          else fill_values c (tk_prefix c) ds
      | d \<Rightarrow>
          (let u = (if tk_pattern c = Asterisk then encode_asterisk (js_string d) else encode_segment (js_string d))
           in if pattern_test (tk_pattern c) u then Some (tk_prefix c @ u) else None))"

fun fill_pieces :: "piece list \<Rightarrow> jv obj \<Rightarrow> string option" where
  "fill_pieces [] o' = Some []"
| "fill_pieces (Lit s # ps) o' = map_option ((@) s) (fill_pieces ps o')"
| "fill_pieces (Param t # ps) o' =
     (case fill_param t o' of None \<Rightarrow> None | Some u \<Rightarrow> map_option ((@) u) (fill_pieces ps o'))"

text \<open>\<open>J(e, t)\<close>: an error gives the empty path.\<close>

definition fill_params :: "string \<Rightarrow> jv obj \<Rightarrow> string" where
  "fill_params e t =
     (let t' = (if truthy (getp t ''pathMatch'') then oset ''0'' (getp t ''pathMatch'') t else t)
      in case fill_pieces (parse_pattern e) t' of None \<Rightarrow> [] | Some s \<Rightarrow> s)"

section \<open>Matching a path\<close>

text \<open>\<open>pe(e, t, n)\<close>: the outer option is the \<open>URIError\<close> of a malformed escape, the inner one whether the
  path matches.\<close>

fun set_groups :: "token list \<Rightarrow> nat \<Rightarrow> (nat \<Rightarrow> string option) \<Rightarrow> jv obj \<Rightarrow> jv obj option" where
  "set_groups [] r i n = Some n"
| "set_groups (a # as) r i n =
     (case (case i r of None \<Rightarrow> Some Undef | Some s \<Rightarrow> map_option Str (decode_uri_component s)) of
        None \<Rightarrow> None
      | Some v \<Rightarrow>
          set_groups as (Suc r) i (oset (case tk_name a of Named w \<Rightarrow> w | Unnamed k \<Rightarrow> if k = 0 then ''pathMatch'' else show_nat k) v n))"

definition match_route :: "piece list \<Rightarrow> pattern_options \<Rightarrow> string \<Rightarrow> jv obj \<Rightarrow> jv obj option option" where
  "match_route ps n t params =
     (case rx_exec (\<not> po_sensitive n) (tokens_to_rx ps n) t of
        None \<Rightarrow> Some None
      | Some i \<Rightarrow> map_option Some (set_groups (pattern_keys ps) 1 i params))"

section \<open>Encoded values\<close>

definition segment_unit :: "char \<Rightarrow> string" where
  "segment_unit c = escape_chars ''/?#'' (if c \<in> set '';/?:@&=+$,#'' then [c] else encode_unit c)"

lemma encode_segment_units: "encode_segment s = concat (map segment_unit s)"
  by (induction s) (simp_all add: encode_segment_def encode_uri_def escape_chars_def segment_unit_def)

lemma pct_byte_chars: "b < 256 \<Longrightarrow> x \<in> set (pct_byte b) \<Longrightarrow> x \<notin> set ''/?#''"
  using is_triple_pct_byte [of b] by (auto simp: is_triple_def is_hex_def)

lemma encode_unit_chars: "x \<in> set (encode_unit c) \<Longrightarrow> x \<notin> set ''/?#''"
proof -
  let ?n = "of_char c :: nat"
  assume x: "x \<in> set (encode_unit c)"
  show ?thesis
  proof (cases "unreserved c")
    case True
    then have "x = c" using x by (simp add: encode_unit_def)
    then show ?thesis using True by (auto simp: unreserved_def is_alpha_def is_digit_def)
  next
    case False
    have n: "?n < 256" "192 + ?n div 64 < 256" "128 + ?n mod 64 < 256"
    proof -
      show "?n < 256" by simp
      then show "192 + ?n div 64 < 256" "128 + ?n mod 64 < 256" by linarith+
    qed
    from x False have "x \<in> set (pct_byte ?n) \<or> x \<in> set (pct_byte (192 + ?n div 64)) \<or> x \<in> set (pct_byte (128 + ?n mod 64))"
      by (auto simp: encode_unit_def Let_def split: if_splits)
    then show ?thesis using n pct_byte_chars by blast
  qed
qed

lemma escape_none: "\<forall>x \<in> set s. x \<notin> set cs \<Longrightarrow> escape_chars cs s = s"
  by (induction s) (simp_all add: escape_chars_def)

lemma segment_unit_cases:
  "segment_unit c = (if c \<in> set ''/?#'' then pct_byte (of_char c) else if c \<in> set '';:@&=+$,'' then [c] else encode_unit c)"
proof -
  have "escape_chars ''/?#'' (encode_unit c) = encode_unit c" using encode_unit_chars by (intro escape_none) blast
  then show ?thesis by (auto simp: segment_unit_def escape_chars_def)
qed

lemma decode_segment_unit: "decode_uri_component (segment_unit c @ t) = map_option ((#) c) (decode_uri_component t)"
proof (cases "c \<in> set ''/?#''")
  case True
  then have "(of_char c :: nat) < 128" by auto
  from decode_pct_byte [OF this, of t] True show ?thesis by (simp only: segment_unit_cases if_True char_of_char)
next
  case False
  show ?thesis
  proof (cases "c \<in> set '';:@&=+$,''")
    case True
    then have "c \<noteq> CHR ''%''" by auto
    then show ?thesis using False True by (simp only: segment_unit_cases if_False if_True) simp
  next
    case F: False
    show ?thesis using False F by (simp only: segment_unit_cases if_False decode_unit)
  qed
qed

lemma decode_encode_segment: "decode_uri_component (encode_segment s) = Some s"
  by (induction s) (simp_all add: encode_segment_units decode_segment_unit)

lemma encode_segment_no_slash: "CHR ''/'' \<notin> set (encode_segment s)"
proof -
  have "CHR ''/'' \<notin> set (segment_unit c)" for c
  proof -
    have "(of_char c :: nat) < 256" by simp
    from pct_byte_chars [OF this] have "CHR ''/'' \<notin> set (pct_byte (of_char c))" by fastforce
    moreover have "CHR ''/'' \<notin> set (encode_unit c)" using encode_unit_chars by fastforce
    moreover have "c \<notin> set ''/?#'' \<Longrightarrow> CHR ''/'' \<notin> set [c]" by auto
    ultimately show ?thesis unfolding segment_unit_cases by (simp only: split: if_split) blast
  qed
  then show ?thesis by (simp add: encode_segment_units)
qed

lemma encode_segment_chars:
  assumes "x \<in> set (encode_segment s)"
  shows "x \<notin> set ''?#''"
proof -
  have "x \<notin> set ''?#''" if x: "x \<in> set (segment_unit c)" for c
  proof -
    have "(of_char c :: nat) < 256" by simp
    from pct_byte_chars [OF this] have "x \<in> set (pct_byte (of_char c)) \<Longrightarrow> x \<notin> set ''?#''" by fastforce
    moreover have "x \<in> set (encode_unit c) \<Longrightarrow> x \<notin> set ''?#''" using encode_unit_chars by fastforce
    moreover have "c \<in> set '';:@&=+$,'' \<Longrightarrow> x \<in> set [c] \<Longrightarrow> x \<notin> set ''?#''" by auto
    moreover have "x \<in> set (pct_byte (of_char c)) \<or> x \<in> set (encode_unit c) \<or> c \<in> set '';:@&=+$,'' \<and> x \<in> set [c]"
    proof (cases "c \<in> set ''/?#''")
      case True
      then show ?thesis using x by (simp only: segment_unit_cases if_True simp_thms)
    next
      case False
      then show ?thesis using x by (cases "c \<in> set '';:@&=+$,''") (simp_all only: segment_unit_cases if_False if_True simp_thms)
    qed
    ultimately show ?thesis by blast
  qed
  then show ?thesis using assms by (auto simp: encode_segment_units)
qed

lemma encode_segment_empty: "encode_segment s = [] \<longleftrightarrow> s = []"
proof -
  have "segment_unit c \<noteq> []" for c by (auto simp: segment_unit_cases pct_byte_def encode_unit_def Let_def)
  then show ?thesis by (cases s) (simp_all add: encode_segment_units)
qed

section \<open>Matching a text that was filled in\<close>

lemma same_char_refl [simp]: "same_char ci c c"
  by (simp add: same_char_def)

lemma same_slash: "same_char ci (CHR ''/'') x \<longleftrightarrow> x = CHR ''/''"
proof -
  have "canon_char x = CHR ''/'' \<Longrightarrow> x = CHR ''/''"
  proof -
    let ?n = "of_char x :: nat"
    assume "canon_char x = CHR ''/''"
    then have n: "(of_char (canon_char x) :: nat) = 47" by simp
    have "?n < 256" by simp
    then have "(?n - 32) mod 256 = ?n - 32" by (intro mod_less) linarith
    then have "?n = 47" using n by (auto simp: canon_char_def upper_char_def split: if_splits)
    then have "?n = of_char (CHR ''/'')" by simp
    then show "x = CHR ''/''" by (simp only: of_char_eq_iff)
  qed
  moreover have "canon_char (CHR ''/'') = CHR ''/''" by (simp add: canon_char_def upper_char_def)
  ultimately show ?thesis by (auto simp: same_char_def)
qed

lemma match_lit: "rx_match ci (rx_lit s) (s @ t, c) = [(t, c)]"
  by (induction s) (simp_all add: rx_lit_def one_char_def)

text \<open>An expression that can only go on at a slash or at the end.\<close>

definition slash_or_end :: "bool \<Rightarrow> rx \<Rightarrow> bool" where
  "slash_or_end ci r \<longleftrightarrow> (\<forall>x t c. x \<noteq> CHR ''/'' \<longrightarrow> rx_match ci r (x # t, c) = [])"

definition at_boundary :: "string \<Rightarrow> bool" where
  "at_boundary t \<longleftrightarrow> t = [] \<or> hd t = CHR ''/''"

lemma rounds_segment:
  "CHR ''/'' \<notin> set w \<Longrightarrow> at_boundary t \<Longrightarrow> length w \<le> n \<Longrightarrow>
     rounds False n (rx_match ci (NotChr (CHR ''/''))) (w @ t, c) = map (\<lambda>i. (drop i w @ t, c)) [0..<Suc (length w)]"
proof (induction w arbitrary: n)
  case Nil
  then have "one_char (\<lambda>x. \<not> same_char ci (CHR ''/'') x) (t, c) = []"
    by (cases t) (auto simp: one_char_def at_boundary_def)
  then show ?case by (cases n) simp_all
next
  case (Cons x w)
  then obtain m where n: "n = Suc m" by (cases n) auto
  have x: "one_char (\<lambda>x. \<not> same_char ci (CHR ''/'') x) (x # w @ t, c) = [(w @ t, c)]"
    using Cons.prems(1) by (auto simp: one_char_def same_slash)
  have "[0..<Suc (length (x # w))] = 0 # map Suc [0..<Suc (length w)]"
    by (subst upt_conv_Cons) (simp_all add: map_Suc_upt del: upt_Suc)
  then show ?case using Cons.IH [of m] Cons.prems n x by (simp add: comp_def del: upt_Suc)
qed

lemma match_segment:
  assumes "v \<noteq> []" and "CHR ''/'' \<notin> set v" and "at_boundary t"
  shows "rx_match ci (Plus (NotChr (CHR ''/''))) (v @ t, c) = map (\<lambda>i. (drop i v @ t, c)) [1..<Suc (length v)]"
proof -
  obtain x w where v: "v = x # w" using assms(1) by (cases v) auto
  have x: "one_char (\<lambda>x. \<not> same_char ci (CHR ''/'') x) (x # w @ t, c) = [(w @ t, c)]"
    using assms(2) v by (auto simp: one_char_def same_slash)
  have "[1..<Suc (length (x # w))] = map Suc [0..<Suc (length w)]" by (simp add: map_Suc_upt del: upt_Suc)
  then show ?thesis
    using rounds_segment [of w t "length (w @ t)" ci c] assms(2,3) x v by (simp add: comp_def del: upt_Suc)
qed

text \<open>So a parameter takes exactly one segment.\<close>

lemma match_param:
  assumes "v \<noteq> []" and "CHR ''/'' \<notin> set v" and "at_boundary t" and "slash_or_end ci r"
  shows "rx_match ci (Cat (Group k (Plus (NotChr (CHR ''/'')))) r) (v @ t, c) = rx_match ci r (t, c(k \<mapsto> v))"
proof -
  let ?f = "\<lambda>i. rx_match ci r (drop i v @ t, c(k \<mapsto> take i v))"
  have g: "rx_match ci (Group k (Plus (NotChr (CHR ''/'')))) (v @ t, c)
      = map (\<lambda>i. (drop i v @ t, c(k \<mapsto> take i v))) [1..<Suc (length v)]"
    using match_segment [OF assms(1-3), of ci c] by (auto simp del: rx_match.simps(10) upt_Suc)
  have "?f i = []" if "i < length v" for i
  proof -
    have "drop i v = v ! i # drop (Suc i) v" "v ! i \<noteq> CHR ''/''"
      using that assms(2) by (auto simp: Cons_nth_drop_Suc dest: nth_mem)
    then show ?thesis using assms(4) by (simp add: slash_or_end_def)
  qed
  then have "concat (map ?f [1..<length v]) = []" by auto
  moreover have "[1..<Suc (length v)] = [1..<length v] @ [length v]" using assms(1) by (cases v) auto
  ultimately have "concat (map ?f [1..<Suc (length v)]) = rx_match ci r (t, c(k \<mapsto> v))" by (simp del: upt_Suc)
  then show ?thesis using g by (simp add: comp_def del: rx_match.simps(10,12) upt_Suc)
qed

text \<open>Patterns whose parameters are whole segments: every piece starts with a slash, and every parameter
  is required and single.\<close>

definition segment_token :: "token \<Rightarrow> bool" where
  "segment_token t \<longleftrightarrow>
     (\<exists>w. tk_name t = Named w) \<and> tk_prefix t = ''/'' \<and> tk_pattern t = Segment (CHR ''/'') \<and> \<not> tk_optional t \<and> \<not> tk_repeat t"

fun segmented :: "piece list \<Rightarrow> bool" where
  "segmented [] = True"
| "segmented (Lit s # ps) \<longleftrightarrow> s \<noteq> [] \<and> hd s = CHR ''/'' \<and> segmented ps"
| "segmented (Param t # ps) \<longleftrightarrow> segment_token t \<and> segmented ps"

text \<open>Non-empty texts for all parameters.\<close>

definition has_values :: "piece list \<Rightarrow> jv obj \<Rightarrow> bool" where
  "has_values ps o' \<longleftrightarrow> (\<forall>t \<in> set (pattern_keys ps). \<exists>s. getp o' (param_key (tk_name t)) = Str s \<and> s \<noteq> [])"

definition value_text :: "jv obj \<Rightarrow> token \<Rightarrow> string" where
  "value_text o' t = js_string (getp o' (param_key (tk_name t)))"

fun fill_groups :: "token list \<Rightarrow> nat \<Rightarrow> jv obj \<Rightarrow> (nat \<Rightarrow> string option) \<Rightarrow> nat \<Rightarrow> string option" where
  "fill_groups [] k o' c = c"
| "fill_groups (t # ts) k o' c = fill_groups ts (Suc k) o' (c(k \<mapsto> encode_segment (value_text o' t)))"

lemma pattern_keys_simps [simp]:
  "pattern_keys [] = []" "pattern_keys (Lit s # ps) = pattern_keys ps" "pattern_keys (Param t # ps) = t # pattern_keys ps"
  by (simp_all add: pattern_keys_def)

lemma concat_map_not_Nil: "x \<in> set xs \<Longrightarrow> f x \<noteq> [] \<Longrightarrow> concat (map f xs) \<noteq> []"
  by auto

lemma segment_test:
  assumes "u \<noteq> []" and "CHR ''/'' \<notin> set u"
  shows "pattern_test (Segment (CHR ''/'')) u"
proof -
  let ?r = "Plus (NotChr (CHR ''/''))" and ?c = "\<lambda>_. None :: string option"
  have m: "rx_match False ?r (u, ?c) = map (\<lambda>i. (drop i u, ?c)) [1..<Suc (length u)]"
    using match_segment [OF assms, of "[]" False ?c] by (simp only: append_Nil2 at_boundary_def simp_thms)
  have "length u \<in> set [1..<Suc (length u)]" using assms(1) by (cases u) auto
  then have "([], ?c) \<in> set (rx_match False ?r (u, ?c))"
    unfolding m set_map by (rule rev_image_eqI) simp
  then have "concat (map (rx_match False AtEnd) (rx_match False ?r (u, ?c))) \<noteq> []"
    by (rule concat_map_not_Nil) simp
  then show ?thesis by (simp only: pattern_test_def rx_exec_def rx_pattern.simps rx_match.simps(6)) (simp split: list.split)
qed

lemma fill_segment:
  assumes "segment_token t" and "getp o' (param_key (tk_name t)) = Str s" and "s \<noteq> []"
  shows "fill_param t o' = Some (CHR ''/'' # encode_segment s)"
  using assms segment_test [of "encode_segment s"] encode_segment_no_slash encode_segment_empty
  by (simp add: fill_param_def segment_token_def)

text \<open>The filled-in path, matched by the expression of the pattern, in the only way there is.\<close>

lemma fill_match:
  assumes "segmented ps" and "has_values ps o'" and fin: "slash_or_end ci fin"
  shows "\<exists>u. fill_pieces ps o' = Some u \<and> at_boundary u \<and> slash_or_end ci (rx_pieces ps k fin)
    \<and> (\<forall>t c. at_boundary t \<longrightarrow> rx_match ci (rx_pieces ps k fin) (u @ t, c) = rx_match ci fin (t, fill_groups (pattern_keys ps) k o' c))"
  using assms(1,2)
proof (induction ps arbitrary: k rule: segmented.induct)
  case 1
  then show ?case using fin by (simp add: at_boundary_def)
next
  case (2 s ps)
  have seg: "segmented ps" and hv: "has_values ps o'" using 2(2,3) by (simp_all add: has_values_def)
  from "2.IH" [OF seg hv, of k] obtain u where u: "fill_pieces ps o' = Some u" "at_boundary u"
    "slash_or_end ci (rx_pieces ps k fin)"
    "\<And>t c. at_boundary t \<Longrightarrow> rx_match ci (rx_pieces ps k fin) (u @ t, c) = rx_match ci fin (t, fill_groups (pattern_keys ps) k o' c)"
    by blast
  obtain s' where s: "s = CHR ''/'' # s'" using 2(2) by (cases s) auto
  have "slash_or_end ci (rx_pieces (Lit s # ps) k fin)"
    by (simp add: slash_or_end_def s rx_lit_def one_char_def same_slash)
  moreover have "rx_match ci (rx_pieces (Lit s # ps) k fin) ((s @ u) @ t, c) = rx_match ci fin (t, fill_groups (pattern_keys ps) k o' c)"
    if "at_boundary t" for t c
    using match_lit [of ci s "u @ t" c] u(4) [OF that] by simp
  moreover have "fill_pieces (Lit s # ps) o' = Some (s @ u)" "at_boundary (s @ u)"
    using u(1) s by (simp_all add: at_boundary_def)
  ultimately show ?case unfolding pattern_keys_simps by blast
next
  case (3 tok ps)
  have tok: "segment_token tok" and seg: "segmented ps" using 3(2) by simp_all
  obtain v where v: "getp o' (param_key (tk_name tok)) = Str v" "v \<noteq> []" using 3(3) by (auto simp: has_values_def)
  have "has_values ps o'" using 3(3) by (simp add: has_values_def)
  from "3.IH" [OF seg this, of "Suc k"] obtain u where u: "fill_pieces ps o' = Some u" "at_boundary u"
    "slash_or_end ci (rx_pieces ps (Suc k) fin)"
    "\<And>t c. at_boundary t \<Longrightarrow> rx_match ci (rx_pieces ps (Suc k) fin) (u @ t, c) = rx_match ci fin (t, fill_groups (pattern_keys ps) (Suc k) o' c)"
    by blast
  let ?e = "encode_segment v" and ?p = "Plus (NotChr (CHR ''/''))"
  have rx: "rx_param tok k = Cat (rx_lit ''/'') (Group k ?p)" using tok by (simp add: rx_param_def segment_token_def)
  have l: "rx_match ci (rx_lit ''/'') (CHR ''/'' # w, c) = [(w, c)]" for w c using match_lit [of ci "''/''" w c] by simp
  have "slash_or_end ci (rx_pieces (Param tok # ps) k fin)"
    by (simp add: slash_or_end_def rx rx_lit_def one_char_def same_slash)
  moreover have "rx_match ci (rx_pieces (Param tok # ps) k fin) ((CHR ''/'' # ?e @ u) @ t, c)
      = rx_match ci fin (t, fill_groups (pattern_keys (Param tok # ps)) k o' c)" if t: "at_boundary t" for t c
  proof -
    have b: "at_boundary (u @ t)" using u(2) t by (cases u) (auto simp: at_boundary_def)
    have "rx_match ci (rx_pieces (Param tok # ps) k fin) ((CHR ''/'' # ?e @ u) @ t, c)
        = rx_match ci (Cat (Group k ?p) (rx_pieces ps (Suc k) fin)) (?e @ u @ t, c)"
      using l [of "?e @ u @ t" c] by (simp add: rx del: rx_match.simps(10,12))
    also have "\<dots> = rx_match ci (rx_pieces ps (Suc k) fin) (u @ t, c(k \<mapsto> ?e))"
      using v(2) by (intro match_param [OF _ encode_segment_no_slash b u(3)]) (simp add: encode_segment_empty)
    also have "\<dots> = rx_match ci fin (t, fill_groups (pattern_keys ps) (Suc k) o' (c(k \<mapsto> ?e)))" by (rule u(4) [OF t])
    finally show ?thesis using v(1) by (simp add: value_text_def)
  qed
  moreover have "fill_pieces (Param tok # ps) o' = Some (CHR ''/'' # ?e @ u)"
    using fill_segment [OF tok v] u(1) by simp
  moreover have "at_boundary (CHR ''/'' # ?e @ u)" by (simp add: at_boundary_def)
  ultimately show ?case by blast
qed

lemma fill_head:
  assumes "segmented ps" and "has_values ps o'" and "fill_pieces ps o' = Some u" and "ps \<noteq> []"
  shows "u \<noteq> [] \<and> hd u = CHR ''/''"
proof -
  obtain p qs where ps: "ps = p # qs" using assms(4) by (cases ps) auto
  show ?thesis
  proof (cases p)
    case (Lit s)
    then show ?thesis using assms(1,3) ps by (cases s) auto
  next
    case (Param t)
    obtain v where v: "getp o' (param_key (tk_name t)) = Str v" "v \<noteq> []" using assms(2) ps Param by (auto simp: has_values_def)
    have "segment_token t" using assms(1) ps Param by simp
    from fill_segment [OF this v] show ?thesis using assms(3) ps Param by auto
  qed
qed

lemma fill_chars:
  assumes "segmented ps" and "has_values ps o'" and "fill_pieces ps o' = Some u"
    and "\<forall>p \<in> set ps. case p of Lit s \<Rightarrow> set s \<inter> set ''?#'' = {} | Param t \<Rightarrow> True"
  shows "set u \<inter> set ''?#'' = {}"
  using assms
proof (induction ps arbitrary: u rule: segmented.induct)
  case (2 s ps)
  then show ?case by (force simp: has_values_def)
next
  case (3 tok ps)
  obtain v where v: "getp o' (param_key (tk_name tok)) = Str v" "v \<noteq> []" using 3(3) by (auto simp: has_values_def)
  with 3(2,4) fill_segment obtain w where w: "fill_pieces ps o' = Some w" "u = CHR ''/'' # encode_segment v @ w"
    by fastforce
  have "set w \<inter> set ''?#'' = {}" using 3 w(1) by (simp add: has_values_def)
  then show ?case using encode_segment_chars w(2) by fastforce
qed simp

text \<open>The groups read back.\<close>

lemma fill_groups_before: "j < k \<Longrightarrow> fill_groups ts k o' c j = c j"
  by (induction ts arbitrary: k c) simp_all

lemma set_fill_groups:
  assumes "\<forall>t \<in> set ts. segment_token t" and "\<forall>t \<in> set ts. \<exists>s. getp o' (param_key (tk_name t)) = Str s"
  shows "set_groups ts k (fill_groups ts k o' c) n = Some (fold (\<lambda>t. oset (param_key (tk_name t)) (getp o' (param_key (tk_name t)))) ts n)"
  using assms
proof (induction ts arbitrary: k c n)
  case Nil
  then show ?case by simp
next
  case (Cons t ts)
  obtain w where w: "tk_name t = Named w" using Cons.prems(1) by (auto simp: segment_token_def)
  have pk: "param_key (Named w) = w" by (simp add: param_key_def)
  obtain s where s: "getp o' w = Str s" using Cons.prems(2) w pk by auto
  have "fill_groups ts (Suc k) o' (c(k \<mapsto> encode_segment s)) k = Some (encode_segment s)"
    by (simp add: fill_groups_before)
  moreover have "set_groups ts (Suc k) (fill_groups ts (Suc k) o' (c(k \<mapsto> encode_segment s))) (oset w (Str s) n)
      = Some (fold (\<lambda>t. oset (param_key (tk_name t)) (getp o' (param_key (tk_name t)))) ts (oset w (Str s) n))"
    using Cons.prems by (intro Cons.IH) simp_all
  ultimately show ?case by (simp add: value_text_def w pk s decode_encode_segment)
qed

lemma segmented_keys: "segmented ps \<Longrightarrow> t \<in> set (pattern_keys ps) \<Longrightarrow> segment_token t"
  by (induction ps rule: segmented.induct) auto

text \<open>A path that was filled in is read back as its parameters, with a slash at its end too if the
  pattern is not strict.\<close>

lemma fill_then_match:
  assumes seg: "segmented ps" and hv: "has_values ps o'" and e: "po_end n" and d: "\<not> ends_with_slash ps"
  shows "\<exists>u. fill_pieces ps o' = Some u
    \<and> match_route ps n u m = Some (Some (fold (\<lambda>t. oset (param_key (tk_name t)) (getp o' (param_key (tk_name t)))) (pattern_keys ps) m))
    \<and> (\<not> po_strict n \<longrightarrow> match_route ps n (u @ ''/'') m = match_route ps n u m)"
proof -
  let ?ci = "\<not> po_sensitive n"
  let ?fin = "if po_strict n then AtEnd else Cat (Opt (Cat (Chr (CHR ''/'')) (Ahead AtEnd))) AtEnd"
  have fin: "slash_or_end ?ci ?fin" by (simp add: slash_or_end_def one_char_def same_slash)
  have rx: "tokens_to_rx ps n = rx_pieces ps 1 ?fin" using e d by (simp add: tokens_to_rx_def Let_def)
  from fill_match [OF seg hv fin, of 1] obtain u where u: "fill_pieces ps o' = Some u"
    and m: "\<And>t c. at_boundary t \<Longrightarrow>
      rx_match ?ci (rx_pieces ps 1 ?fin) (u @ t, c) = rx_match ?ci ?fin (t, fill_groups (pattern_keys ps) 1 o' c)"
    by blast
  let ?g = "fill_groups (pattern_keys ps) 1 o' (\<lambda>_. None)"
  have "rx_exec ?ci (tokens_to_rx ps n) u = Some ?g"
    using m [of "[]" "\<lambda>_. None"] by (simp add: rx rx_exec_def at_boundary_def one_char_def)
  moreover have "\<not> po_strict n \<Longrightarrow> rx_exec ?ci (tokens_to_rx ps n) (u @ ''/'') = Some ?g"
    using m [of "''/''" "\<lambda>_. None"] by (simp add: rx rx_exec_def at_boundary_def one_char_def)
  moreover have "set_groups (pattern_keys ps) 1 ?g m
      = Some (fold (\<lambda>t. oset (param_key (tk_name t)) (getp o' (param_key (tk_name t)))) (pattern_keys ps) m)"
    using segmented_keys [OF seg] hv by (intro set_fill_groups) (auto simp: has_values_def)
  ultimately show ?thesis using u by (simp add: match_route_def)
qed

lemma fold_oset_get:
  "distinct (map f ts) \<Longrightarrow> t \<in> set ts \<Longrightarrow> oget (fold (\<lambda>t. oset (f t) (g t)) ts n) (f t) = Some (g t)"
proof (induction ts arbitrary: n)
  case (Cons x ts)
  have "f x \<notin> f ` set ts \<Longrightarrow> oget (fold (\<lambda>t. oset (f t) (g t)) ts n) (f x) = oget n (f x)" for n
    by (induction ts arbitrary: n) (auto simp: obj_simps)
  then show ?case using Cons by (auto simp: obj_simps)
qed simp

end
