(* ===== verification/RouteTable.thy ===== *)
theory RouteTable
  imports RoutePattern
begin

text \<open>
  The route table of vue-router 3.1.3 (\<open>chunk-vendors.ddcb6f91.js\<close>, module \<open>8c4f\<close>): \<open>ce\<close>
  (createRouteMap), \<open>ue\<close> (addRouteRecord) and \<open>he\<close> (normalizePath). A path is listed once, the first
  definition of a path or a name counts, the wildcard comes last. Components, guards, \<open>meta\<close> and \<open>props\<close>
  of a record are not modelled (\<open>RouterNav\<close> has the guards), and of the options of a pattern \<open>end\<close> is left
  at its default.
\<close>

section \<open>Locations and records\<close>

text \<open>A location as the page gives it; query, hash and parameters may be missing. An empty name or path
  is none.\<close>

record raw_location =
  lo_normalized :: bool
  lo_name :: string
  lo_path :: string
  lo_query :: "jv obj option"
  lo_hash :: "string option"
  lo_params :: "jv obj option"
  lo_append :: bool

text \<open>A route's definition: path, name, redirection, aliases, children, strictness and case
  sensitivity. A redirection is a function of the route, a constant one if it is a location; a
  text stands for the location with that path, and \<open>None\<close> for what is no location.\<close>

type_synonym redirection = "route \<Rightarrow> raw_location option"

datatype route_config =
  RouteConfig (cf_path: string) (cf_name: string) (cf_redirect: "redirection option") (cf_alias: "string list")
    (cf_children: "route_config list") (cf_strict: bool) (cf_sensitive: bool)

text \<open>A record, with a number that stands for the object.\<close>

datatype route_record =
  RouteRecord (rc_id: nat) (rc_path: string) (rc_pieces: "piece list") (rc_options: pattern_options) (rc_name: string)
    (rc_redirect: "redirection option") (rc_match_as: string) (rc_parent: "route_record option")

record route_maps =
  path_list :: "string list"
  path_map :: "route_record obj"
  name_map :: "route_record obj"
  rec_count :: nat

section \<open>Building the table\<close>

text \<open>\<open>he(e, t, n)\<close>\<close>

definition record_path :: "string \<Rightarrow> route_record option \<Rightarrow> bool \<Rightarrow> string" where
  "record_path e t n =
     (let e' = (if n then e else drop_slash e) in
      if e' \<noteq> [] \<and> hd e' = CHR ''/'' then e'
      else case t of None \<Rightarrow> e' | Some r \<Rightarrow> clean_path (rc_path r @ ''/'' @ e'))"

definition make_record :: "route_config \<Rightarrow> route_record option \<Rightarrow> string \<Rightarrow> nat \<Rightarrow> route_record" where
  "make_record i r o' k =
     (let c = record_path (cf_path i) r (cf_strict i) in
      RouteRecord k c (parse_pattern c) \<lparr>po_strict = cf_strict i, po_end = True, po_sensitive = cf_sensitive i\<rparr>
        (cf_name i) (cf_redirect i) o' r)"

text \<open>The entries a record makes under its path and under its name.\<close>

definition list_record :: "route_record \<Rightarrow> route_maps \<Rightarrow> route_maps" where
  "list_record u m =
     (if oget (path_map m) (rc_path u) = None
      then m\<lparr>path_list := path_list m @ [rc_path u], path_map := oset (rc_path u) u (path_map m)\<rparr> else m)"

definition name_record :: "string \<Rightarrow> route_record \<Rightarrow> route_maps \<Rightarrow> route_maps" where
  "name_record s u m =
     (if s \<noteq> [] \<and> oget (name_map m) s = None then m\<lparr>name_map := oset s u (name_map m)\<rparr> else m)"

definition alias_config :: "string \<Rightarrow> route_config list \<Rightarrow> route_config" where
  "alias_config f cs = RouteConfig f [] None [] cs False False"

text \<open>\<open>ue(e, t, n, i, r, o)\<close>: the children first, then the record itself, its aliases, its name.\<close>

fun config_size :: "route_config \<Rightarrow> nat" where
  "config_size (RouteConfig p n d as cs st se) = 1 + length as + sum_list (map config_size cs)"

lemma config_size_child: "c \<in> set (cf_children i) \<Longrightarrow> config_size c < config_size i"
  using member_le_sum_list [of "config_size c" "map config_size (cf_children i)"] by (cases i) auto

lemma config_size_alias: "f \<in> set (cf_alias i) \<Longrightarrow> config_size (alias_config f (cf_children i)) < config_size i"
  by (cases i) (auto simp: alias_config_def intro: length_pos_if_in_set)

function add_route :: "route_config \<Rightarrow> route_record option \<Rightarrow> string \<Rightarrow> route_maps \<Rightarrow> route_maps" where
  "add_route i r o' m =
     (let u = make_record i r o' (rec_count m);
          m1 = fold (\<lambda>c. add_route c (Some u) (if o' = [] then [] else clean_path (o' @ ''/'' @ cf_path c)))
                 (cf_children i) (m\<lparr>rec_count := Suc (rec_count m)\<rparr>);
          m2 = list_record u m1;
          m3 = fold (\<lambda>f. add_route (alias_config f (cf_children i)) r (if rc_path u = [] then ''/'' else rc_path u))
                 (cf_alias i) m2
      in name_record (cf_name i) u m3)"
  by pat_completeness auto
termination
  by (relation "measure (\<lambda>(i, r, o', m). config_size i)") (auto intro: config_size_child config_size_alias)

declare add_route.simps [simp del]

text \<open>The loop of \<open>ce\<close> that moves wildcards to the end: \<open>s\<close> runs up to \<open>l\<close>, and both step back when an
  element has been moved.\<close>

function move_wildcards :: "string list \<Rightarrow> nat \<Rightarrow> nat \<Rightarrow> string list" where
  "move_wildcards r s l =
     (if s < l then
        (if r ! s = ''*'' then move_wildcards (take s r @ drop (Suc s) r @ [r ! s]) s (l - 1)
         else move_wildcards r (Suc s) l)
      else r)"
  by pat_completeness auto
termination
  by (relation "measure (\<lambda>(r, s, l). l - s)") auto

declare move_wildcards.simps [simp del]

definition add_routes :: "route_config list \<Rightarrow> route_maps \<Rightarrow> route_maps" where
  "add_routes es m =
     (let m' = fold (\<lambda>e. add_route e None []) es m
      in m'\<lparr>path_list := move_wildcards (path_list m') 0 (length (path_list m'))\<rparr>)"

definition no_routes :: route_maps where
  "no_routes = \<lparr>path_list = [], path_map = [], name_map = [], rec_count = 0\<rparr>"

definition create_route_map :: "route_config list \<Rightarrow> route_maps" where
  "create_route_map es = add_routes es no_routes"

section \<open>The table is well formed\<close>

lemma move_wildcards_step:
  assumes "s < l"
  shows "move_wildcards r s l =
    (if r ! s = ''*'' then move_wildcards (take s r @ drop (Suc s) r @ [r ! s]) s (l - 1) else move_wildcards r (Suc s) l)"
  using assms by (subst move_wildcards.simps) simp

lemma move_wildcards_end: "move_wildcards r l l = r"
  by (subst move_wildcards.simps) simp

text \<open>After \<open>p\<close>, the part \<open>q\<close> that is still to be looked at, and the wildcards moved so far, \<open>z\<close>.\<close>

lemma move_wildcards_parts:
  "move_wildcards (p @ q @ z) (length p) (length p + length q)
     = p @ filter (\<lambda>x. x \<noteq> ''*'') q @ z @ filter (\<lambda>x. x = ''*'') q"
proof (induction q arbitrary: p z)
  case Nil
  then show ?case by (simp add: move_wildcards_end)
next
  case (Cons x q)
  show ?case
  proof (cases "x = ''*''")
    case True
    then show ?thesis using Cons.IH [of p "z @ [x]"] by (subst move_wildcards_step) (simp_all add: nth_append)
  next
    case False
    then show ?thesis using Cons.IH [of "p @ [x]" z] by (subst move_wildcards_step) (simp_all add: nth_append)
  qed
qed

lemma move_wildcards_spec:
  "move_wildcards r 0 (length r) = filter (\<lambda>x. x \<noteq> ''*'') r @ filter (\<lambda>x. x = ''*'') r"
  using move_wildcards_parts [of "[]" r "[]"] by simp

text \<open>Records are compiled from their paths; the lists and maps agree.\<close>

definition record_ok :: "route_record \<Rightarrow> bool" where
  "record_ok u \<longleftrightarrow> rc_pieces u = parse_pattern (rc_path u) \<and> po_end (rc_options u)"

definition rows_ok :: "route_maps \<Rightarrow> bool" where
  "rows_ok m \<longleftrightarrow>
     distinct (path_list m) \<and> set (path_list m) = set (okeys (path_map m))
     \<and> (\<forall>p u. oget (path_map m) p = Some u \<longrightarrow> rc_path u = p \<and> record_ok u)
     \<and> (\<forall>s u. oget (name_map m) s = Some u \<longrightarrow> rc_name u = s \<and> s \<noteq> [] \<and> record_ok u \<and> oget (path_map m) (rc_path u) \<noteq> None)"

definition wildcard_last :: "string list \<Rightarrow> bool" where
  "wildcard_last ps \<longleftrightarrow> (''*'' \<in> set ps \<longrightarrow> last ps = ''*'')"

definition table_ok :: "route_maps \<Rightarrow> bool" where
  "table_ok m \<longleftrightarrow> rows_ok m \<and> wildcard_last (path_list m)"

text \<open>What is defined stays defined, and as it was.\<close>

definition keeps_routes :: "route_maps \<Rightarrow> route_maps \<Rightarrow> bool" where
  "keeps_routes m m' \<longleftrightarrow>
     (\<forall>p u. oget (path_map m) p = Some u \<longrightarrow> oget (path_map m') p = Some u)
     \<and> (\<forall>s u. oget (name_map m) s = Some u \<longrightarrow> oget (name_map m') s = Some u)
     \<and> (\<exists>ps. path_list m' = path_list m @ ps)"

lemma keeps_refl: "keeps_routes m m"
  by (simp add: keeps_routes_def)

lemma keeps_trans: "keeps_routes m m1 \<Longrightarrow> keeps_routes m1 m2 \<Longrightarrow> keeps_routes m m2"
  by (auto simp: keeps_routes_def)

lemma make_record_ok: "record_ok (make_record i r o' k)" "rc_name (make_record i r o' k) = cf_name i"
  by (simp_all add: make_record_def record_ok_def Let_def)

lemma list_record_ok:
  assumes "rows_ok m" and "record_ok u"
  shows "rows_ok (list_record u m) \<and> keeps_routes m (list_record u m) \<and> oget (path_map (list_record u m)) (rc_path u) \<noteq> None"
proof (cases "oget (path_map m) (rc_path u) = None")
  case True
  then have "rc_path u \<notin> set (path_list m)" using assms(1) by (simp add: rows_ok_def map_of_eq_None_iff)
  then show ?thesis using assms True
    by (auto simp: rows_ok_def list_record_def keeps_routes_def obj_simps split: if_splits)
next
  case False
  then show ?thesis using assms by (auto simp: list_record_def keeps_refl)
qed

lemma name_record_ok:
  assumes "rows_ok m" and "record_ok u" and "oget (path_map m) (rc_path u) \<noteq> None" and "rc_name u = s"
  shows "rows_ok (name_record s u m) \<and> keeps_routes m (name_record s u m)"
  using assms by (auto simp: rows_ok_def name_record_def keeps_routes_def obj_simps split: if_splits)

lemma fold_keeps:
  assumes "\<And>x m. x \<in> set xs \<Longrightarrow> rows_ok m \<Longrightarrow> rows_ok (f x m) \<and> keeps_routes m (f x m)" and "rows_ok m"
  shows "rows_ok (fold f xs m) \<and> keeps_routes m (fold f xs m)"
  using assms
proof (induction xs arbitrary: m)
  case Nil
  then show ?case by (simp add: keeps_refl)
next
  case (Cons x xs)
  have 1: "rows_ok (f x m) \<and> keeps_routes m (f x m)" using Cons.prems by simp
  have "rows_ok (fold f xs (f x m)) \<and> keeps_routes (f x m) (fold f xs (f x m))"
    using Cons.prems(1) 1 by (intro Cons.IH) simp_all
  with 1 show ?case using keeps_trans by (metis fold_simps(2))
qed

lemma add_route_ok: "rows_ok m \<Longrightarrow> rows_ok (add_route i r o' m) \<and> keeps_routes m (add_route i r o' m)"
proof (induction i r o' m rule: add_route.induct)
  case (1 i r o' m)
  define u where "u = make_record i r o' (rec_count m)"
  define m1 where "m1 = fold (\<lambda>c. add_route c (Some u) (if o' = [] then [] else clean_path (o' @ ''/'' @ cf_path c)))
    (cf_children i) (m\<lparr>rec_count := Suc (rec_count m)\<rparr>)"
  define m2 where "m2 = list_record u m1"
  define m3 where "m3 = fold (\<lambda>f. add_route (alias_config f (cf_children i)) r (if rc_path u = [] then ''/'' else rc_path u)) (cf_alias i) m2"
  have u: "record_ok u" "rc_name u = cf_name i" by (simp_all add: u_def make_record_ok)
  have m0: "rows_ok (m\<lparr>rec_count := Suc (rec_count m)\<rparr>) \<and> keeps_routes m (m\<lparr>rec_count := Suc (rec_count m)\<rparr>)"
    using 1(3) by (simp add: rows_ok_def keeps_routes_def)
  have m1: "rows_ok m1 \<and> keeps_routes (m\<lparr>rec_count := Suc (rec_count m)\<rparr>) m1"
    unfolding m1_def using "1.IH"(1) [OF u_def] m0 by (intro fold_keeps) simp_all
  have m2: "rows_ok m2 \<and> keeps_routes m1 m2 \<and> oget (path_map m2) (rc_path u) \<noteq> None"
    unfolding m2_def using m1 u by (intro list_record_ok) simp_all
  have m3: "rows_ok m3 \<and> keeps_routes m2 m3"
    unfolding m3_def using "1.IH"(2) [OF u_def m1_def m2_def] m2 by (intro fold_keeps) simp_all
  have "oget (path_map m3) (rc_path u) \<noteq> None" using m2 m3 by (auto simp: keeps_routes_def)
  then have "rows_ok (name_record (cf_name i) u m3) \<and> keeps_routes m3 (name_record (cf_name i) u m3)"
    using m3 u by (intro name_record_ok) simp_all
  moreover have "add_route i r o' m = name_record (cf_name i) u m3"
    by (subst add_route.simps) (simp only: u_def m1_def m2_def m3_def Let_def)
  ultimately show ?case using m0 m1 m2 m3 keeps_trans by metis
qed

lemma add_routes_ok:
  assumes "rows_ok m"
  shows "table_ok (add_routes es m)"
    and "oget (path_map m) p = Some u \<Longrightarrow> oget (path_map (add_routes es m)) p = Some u"
    and "oget (name_map m) s = Some u \<Longrightarrow> oget (name_map (add_routes es m)) s = Some u"
proof -
  let ?m = "fold (\<lambda>e. add_route e None []) es m"
  have m: "rows_ok ?m \<and> keeps_routes m ?m" using add_route_ok assms by (intro fold_keeps)
  have w: "wildcard_last (filter (\<lambda>x. x \<noteq> ''*'') xs @ filter (\<lambda>x. x = ''*'') xs)" for xs
  proof (cases "filter (\<lambda>x. x = ''*'') xs = []")
    case False
    then have "last (filter (\<lambda>x. x = ''*'') xs) \<in> set (filter (\<lambda>x. x = ''*'') xs)" by (rule last_in_set)
    with False show ?thesis by (simp add: wildcard_last_def)
  qed (auto simp: wildcard_last_def filter_empty_conv)
  have "rows_ok (?m\<lparr>path_list := filter (\<lambda>x. x \<noteq> ''*'') (path_list ?m) @ filter (\<lambda>x. x = ''*'') (path_list ?m)\<rparr>)"
    using m by (auto simp: rows_ok_def)
  then show "table_ok (add_routes es m)" using w by (simp add: table_ok_def add_routes_def Let_def move_wildcards_spec)
  show "oget (path_map m) p = Some u \<Longrightarrow> oget (path_map (add_routes es m)) p = Some u"
    and "oget (name_map m) s = Some u \<Longrightarrow> oget (name_map (add_routes es m)) s = Some u"
    using m by (simp_all add: add_routes_def Let_def keeps_routes_def)
qed

lemma no_routes_ok: "rows_ok no_routes"
  by (simp add: rows_ok_def no_routes_def)

text \<open>The first definition of a path is the one that counts.\<close>

lemma add_route_defines:
  assumes "cf_children i = []" and "rows_ok m" and u_def: "u = make_record i r o' (rec_count m)"
  shows "oget (path_map (add_route i r o' m)) (rc_path u) = Some (case oget (path_map m) (rc_path u) of None \<Rightarrow> u | Some v \<Rightarrow> v)"
proof -
  let ?m2 = "list_record u (m\<lparr>rec_count := Suc (rec_count m)\<rparr>)"
  let ?m3 = "fold (\<lambda>f. add_route (alias_config f []) r (if rc_path u = [] then ''/'' else rc_path u)) (cf_alias i) ?m2"
  have "rows_ok (m\<lparr>rec_count := Suc (rec_count m)\<rparr>)" using assms(2) by (simp add: rows_ok_def)
  then have m2: "rows_ok ?m2" using list_record_ok make_record_ok(1) u_def by blast
  then have "keeps_routes ?m2 ?m3" using add_route_ok fold_keeps [of "cf_alias i" "\<lambda>f. add_route (alias_config f []) r (if rc_path u = [] then ''/'' else rc_path u)"] by blast
  moreover have "oget (path_map ?m2) (rc_path u) = Some (case oget (path_map m) (rc_path u) of None \<Rightarrow> u | Some v \<Rightarrow> v)"
    by (auto simp: list_record_def obj_simps)
  moreover have "add_route i r o' m = name_record (cf_name i) u ?m3"
    using assms(1) by (subst add_route.simps) (simp add: u_def Let_def)
  ultimately show ?thesis by (simp add: keeps_routes_def name_record_def)
qed

end
