(* ===== verification/RouteMatch.thy ===== *)
theory RouteMatch
  imports RouteTable
begin

text \<open>
  The matcher of vue-router 3.1.3 (\<open>chunk-vendors.ddcb6f91.js\<close>, module \<open>8c4f\<close>): \<open>fe\<close> with its functions \<open>s\<close>
  (match), \<open>l\<close> (redirect), \<open>c\<close> (alias) and \<open>u\<close> (createRoute by record), \<open>Q\<close> (normalizeLocation), \<open>me\<close>
  (resolveRecordPath) and \<open>b\<close> (createRoute). Redirections may go round for ever, so the matcher has a
  depth. A route never stops at a redirection or an alias, and a location made from a name is matched
  back as the record of that name.
\<close>

section \<open>Routes\<close>

text \<open>\<open>b\<close>: a route with the records themselves, its full path and where it was redirected from. \<open>w\<close> is
  \<open>location_path\<close>, \<open>x\<close> is \<open>record_chain\<close>.\<close>

record matched = route +
  mt_records :: "route_record list"
  mt_full_path :: string
  mt_redirected :: "string option"

fun record_chain :: "route_record \<Rightarrow> route_record list" where
  "record_chain (RouteRecord k p ps op n r ma None) = [RouteRecord k p ps op n r ma None]"
| "record_chain (RouteRecord k p ps op n r ma (Some q)) = record_chain q @ [RouteRecord k p ps op n r ma (Some q)]"

definition or_empty :: "'a list option \<Rightarrow> 'a list" where
  "or_empty x = (case x of None \<Rightarrow> [] | Some y \<Rightarrow> y)"

definition location_path :: "raw_location \<Rightarrow> string" where
  "location_path e = full_path (lo_path e) (or_empty (lo_query e)) (or_empty (lo_hash e))"

definition create_route :: "route_record option \<Rightarrow> raw_location \<Rightarrow> raw_location option \<Rightarrow> matched" where
  "create_route e t n =
     (let us = (case e of None \<Rightarrow> [] | Some u \<Rightarrow> record_chain u) in
      \<lparr>rt_start = False,
       rt_name = (if lo_name t \<noteq> [] then lo_name t else case e of None \<Rightarrow> [] | Some u \<Rightarrow> rc_name u),
       rt_path = (if lo_path t = [] then ''/'' else lo_path t),
       rt_hash = or_empty (lo_hash t), rt_query = or_empty (lo_query t), rt_params = or_empty (lo_params t),
       rt_matched = map rc_id us, mt_records = us, mt_full_path = location_path t,
       mt_redirected = map_option location_path n\<rparr>)"

section \<open>Locations\<close>

definition assign_all :: "jv obj \<Rightarrow> jv obj \<Rightarrow> jv obj" where
  "assign_all e t = fold (\<lambda>(k, v). oset k v) t e"

definition normalized :: "string \<Rightarrow> string \<Rightarrow> jv obj option \<Rightarrow> string option \<Rightarrow> jv obj option \<Rightarrow> raw_location" where
  "normalized name path query hash params =
     \<lparr>lo_normalized = True, lo_name = name, lo_path = path, lo_query = query, lo_hash = hash, lo_params = params, lo_append = False\<rparr>"

text \<open>A location given as a text is one with that path.\<close>

definition at_path_text :: "string \<Rightarrow> raw_location" where
  "at_path_text p =
     \<lparr>lo_normalized = False, lo_name = [], lo_path = p, lo_query = None, lo_hash = None, lo_params = None, lo_append = False\<rparr>"

text \<open>\<open>Q(e, t, n)\<close>\<close>

definition normalize_location :: "raw_location \<Rightarrow> matched option \<Rightarrow> bool \<Rightarrow> raw_location" where
  "normalize_location r t n =
     (if lo_normalized r \<or> lo_name r \<noteq> [] then r
      else
        case (lo_path r, lo_params r, t) of
          ([], Some ps, Some c) \<Rightarrow>
            (let o' = assign_all (rt_params c) ps in
             if rt_name c \<noteq> [] then r\<lparr>lo_normalized := True, lo_name := rt_name c, lo_params := Some o'\<rparr>
             else if mt_records c \<noteq> []
             then r\<lparr>lo_normalized := True, lo_path := fill_params (rc_path (last (mt_records c))) o'\<rparr>
             else r\<lparr>lo_normalized := True\<rparr>)
        | _ \<Rightarrow>
            (let l = parse_path (lo_path r);
                 c = (case t of None \<Rightarrow> ''/'' | Some x \<Rightarrow> if rt_path x = [] then ''/'' else rt_path x);
                 u = (if pp_path l \<noteq> [] then resolve_path (pp_path l) c (n \<or> lo_append r) else c);
                 d = resolve_query (pp_query l) (or_empty (lo_query r));
                 h = (if or_empty (lo_hash r) \<noteq> [] then or_empty (lo_hash r) else pp_hash l)
             in normalized [] u (Some d) (Some (if h \<noteq> [] \<and> hd h \<noteq> CHR ''#'' then CHR ''#'' # h else h)) None))"

text \<open>\<open>me(e, t)\<close>\<close>

definition resolve_record_path :: "string \<Rightarrow> route_record \<Rightarrow> string" where
  "resolve_record_path e t = resolve_path e (case rc_parent t of None \<Rightarrow> ''/'' | Some p \<Rightarrow> rc_path p) True"

section \<open>The matcher\<close>

text \<open>Parameters that the present route has and the new location lacks, as far as the pattern needs
  them.\<close>

definition needed_params :: "route_record \<Rightarrow> string list" where
  "needed_params c =
     concat (map (\<lambda>t. case tk_name t of Named w \<Rightarrow> if tk_optional t then [] else [w] | Unnamed k \<Rightarrow> []) (pattern_keys (rc_pieces c)))"

definition inherit_params :: "route_record \<Rightarrow> matched option \<Rightarrow> jv obj \<Rightarrow> jv obj" where
  "inherit_params c n ps =
     (case n of
        None \<Rightarrow> ps
      | Some cur \<Rightarrow>
          fold (\<lambda>(h, v) ps. if h \<notin> set (okeys ps) \<and> h \<notin> set inherited_names \<and> h \<in> set (needed_params c) then oset h v ps else ps)
            (rt_params cur) ps)"

text \<open>The loop over the list: \<open>None\<close> is an error thrown on the way.\<close>

fun first_match :: "route_record obj \<Rightarrow> string list \<Rightarrow> string \<Rightarrow> (route_record \<times> jv obj) option option" where
  "first_match r [] path = Some None"
| "first_match r (p # ps) path =
     (case oget r p of
        None \<Rightarrow> None
      | Some u \<Rightarrow>
          (case match_route (rc_pieces u) (rc_options u) path [] of
             None \<Rightarrow> None
           | Some None \<Rightarrow> first_match r ps path
           | Some (Some params) \<Rightarrow> Some (Some (u, params))))"

text \<open>Where a redirection leads, if it names a route or a path: the first part of \<open>l\<close>.\<close>

definition redirect_target :: "route_record \<Rightarrow> raw_location \<Rightarrow> raw_location option" where
  "redirect_target e n =
     (case Option.bind (rc_redirect e) (\<lambda>g. g (route.truncate (create_route (Some e) n None))) of
        None \<Rightarrow> None
      | Some a \<Rightarrow>
          (let d = (if lo_query a = None then lo_query n else lo_query a);
               h = (if lo_hash a = None then lo_hash n else lo_hash a);
               ps = (if lo_params a = None then lo_params n else lo_params a)
           in if lo_name a \<noteq> [] then Some (normalized (lo_name a) [] d h ps)
              else if lo_path a \<noteq> []
              then Some (normalized [] (fill_params (resolve_record_path (lo_path a) e) (or_empty ps)) d h None)
              else None))"

text \<open>What a call gives: a route, an error thrown, or no answer within the depth.\<close>

datatype outcome = Found matched | Thrown | Exhausted

text \<open>\<open>s\<close>, \<open>u\<close>, \<open>l\<close> and \<open>c\<close>; the depth is spent by redirections and aliases.\<close>

function match_location :: "nat \<Rightarrow> route_maps \<Rightarrow> raw_location \<Rightarrow> matched option \<Rightarrow> raw_location option \<Rightarrow> outcome"
  and route_for :: "nat \<Rightarrow> route_maps \<Rightarrow> route_record option \<Rightarrow> raw_location \<Rightarrow> raw_location option \<Rightarrow> outcome"
  and redirect_route :: "nat \<Rightarrow> route_maps \<Rightarrow> route_record \<Rightarrow> raw_location \<Rightarrow> outcome"
  and alias_route :: "nat \<Rightarrow> route_maps \<Rightarrow> raw_location \<Rightarrow> string \<Rightarrow> outcome" where
  "match_location f m e n a =
     (let s = normalize_location e n False in
      if lo_name s \<noteq> [] then
        (case oget (name_map m) (lo_name s) of
           None \<Rightarrow> Found (create_route None s None)
         | Some c \<Rightarrow>
             (let ps = inherit_params c n (or_empty (lo_params s)) in
              route_for f m (Some c) (s\<lparr>lo_path := fill_params (rc_path c) ps, lo_params := Some (odel ''0'' ps)\<rparr>) a))
      else if lo_path s \<noteq> [] then
        (case first_match (path_map m) (path_list m) (lo_path s) of
           None \<Rightarrow> Thrown
         | Some None \<Rightarrow> Found (create_route None (s\<lparr>lo_params := Some []\<rparr>) None)
         | Some (Some (u, ps)) \<Rightarrow> route_for f m (Some u) (s\<lparr>lo_params := Some ps\<rparr>) a)
      else Found (create_route None s None))"
| "route_for f m e n i =
     (case e of
        None \<Rightarrow> Found (create_route None n i)
      | Some u \<Rightarrow>
          if rc_redirect u \<noteq> None then
            (case f of 0 \<Rightarrow> Exhausted | Suc g \<Rightarrow> redirect_route g m u (case i of None \<Rightarrow> n | Some j \<Rightarrow> j))
          else if rc_match_as u \<noteq> [] then (case f of 0 \<Rightarrow> Exhausted | Suc g \<Rightarrow> alias_route g m n (rc_match_as u))
          else Found (create_route (Some u) n i))"
| "redirect_route f m e n =
     (case redirect_target e n of
        None \<Rightarrow> Found (create_route None n None)
      | Some l \<Rightarrow> match_location f m l None (Some n))"
| "alias_route f m t n =
     (case match_location f m (normalized [] (fill_params n (or_empty (lo_params t))) None None None) None None of
        Found r \<Rightarrow>
          route_for f m (if mt_records r = [] then None else Some (last (mt_records r))) (t\<lparr>lo_params := Some (rt_params r)\<rparr>) None
      | Thrown \<Rightarrow> Thrown
      | Exhausted \<Rightarrow> Exhausted)"
  by pat_completeness auto
termination
  by (relation "measure (\<lambda>x. case x of
       Inl (Inl (f, m, e, n, a)) \<Rightarrow> 3 * f + 1 | Inl (Inr (f, m, e, n, i)) \<Rightarrow> 3 * f
     | Inr (Inl (f, m, e, n)) \<Rightarrow> 3 * f + 2 | Inr (Inr (f, m, t, n)) \<Rightarrow> 3 * f + 2)") auto

declare match_location.simps [simp del] route_for.simps [simp del] redirect_route.simps [simp del] alias_route.simps [simp del]

section \<open>Where a route stops\<close>

lemma record_chain_last: "record_chain u \<noteq> [] \<and> last (record_chain u) = u"
  by (induction u rule: record_chain.induct) simp_all

definition final_record :: "route_record \<Rightarrow> bool" where
  "final_record u \<longleftrightarrow> rc_redirect u = None \<and> rc_match_as u = []"

text \<open>The record a route was made for, if any, is one of the table's and no redirection or alias.\<close>

definition table_record :: "route_maps \<Rightarrow> route_record \<Rightarrow> bool" where
  "table_record m u \<longleftrightarrow> (\<exists>p. oget (path_map m) p = Some u) \<or> (\<exists>s. oget (name_map m) s = Some u)"

definition stops_well :: "route_maps \<Rightarrow> outcome \<Rightarrow> bool" where
  "stops_well m x \<longleftrightarrow>
     (case x of Found r \<Rightarrow> mt_records r = [] \<or> final_record (last (mt_records r)) \<and> table_record m (last (mt_records r)) | _ \<Rightarrow> True)"

lemma create_route_records: "mt_records (create_route e n i) = (case e of None \<Rightarrow> [] | Some u \<Rightarrow> record_chain u)"
  by (simp add: create_route_def Let_def)

lemma stops_well_simps:
  "stops_well m Thrown" "stops_well m Exhausted" "stops_well m (Found (create_route None x i))"
  "stops_well m (Found (create_route (Some u) x i)) \<longleftrightarrow> final_record u \<and> table_record m u"
  by (simp_all add: stops_well_def create_route_records record_chain_last)

lemma first_match_entry: "first_match r ps path = Some (Some (u, params)) \<Longrightarrow> \<exists>p. oget r p = Some u"
  by (induction ps) (auto split: option.splits)

lemma matcher_stops_well:
  shows "stops_well m (match_location f m e n a)"
    and "\<forall>u. e' = Some u \<longrightarrow> table_record m u \<Longrightarrow> stops_well m (route_for f m e' n' i)"
    and "stops_well m (redirect_route f m u n')"
    and "stops_well m (alias_route f m n' s)"
proof (induction f m e n a and f m e' n' i and f m u n' and f m n' s rule: match_location_route_for_redirect_route_alias_route.induct)
  case (1 f m e n a)
  define s where "s = normalize_location e n False"
  show ?case
  proof (cases "lo_name s \<noteq> []")
    case True
    have "stops_well m (route_for f m (Some c)
        (s\<lparr>lo_path := fill_params (rc_path c) ps, lo_params := Some (odel ''0'' ps)\<rparr>) a)"
      if "oget (name_map m) (lo_name s) = Some c" "ps = inherit_params c n (or_empty (lo_params s))" for c ps
      using that by (intro 1(1) [OF s_def True]) (auto simp: table_record_def)
    then show ?thesis using True
      by (subst match_location.simps) (simp add: s_def [symmetric] Let_def stops_well_simps split: option.split)
  next
    case False
    have "stops_well m (route_for f m (Some u) (s\<lparr>lo_params := Some ps\<rparr>) a)"
      if "first_match (path_map m) (path_list m) (lo_path s) = Some (Some (u, ps))" "lo_path s \<noteq> []" for u ps
      using that first_match_entry [OF that(1)] by (intro 1(2) [OF s_def False]) (auto simp: table_record_def)
    then show ?thesis using False
      by (subst match_location.simps) (auto simp: s_def [symmetric] Let_def stops_well_simps split: option.split)
  qed
next
  case (2 f m e n i)
  show ?case
  proof (cases e)
    case None
    then show ?thesis by (subst route_for.simps) (simp add: stops_well_simps)
  next
    case (Some u)
    with 2 show ?thesis
      by (subst route_for.simps)
        (auto simp: stops_well_simps final_record_def split: nat.split)
  qed
next
  case (3 f m e n)
  show ?case
    by (subst redirect_route.simps)
      (auto simp: Let_def stops_well_simps split: option.split intro: 3)
next
  case (4 f m t n)
  let ?x = "match_location f m (normalized [] (fill_params n (or_empty (lo_params t))) None None None) None None"
  show ?case
  proof (cases ?x)
    case (Found r)
    with 4(1) have "stops_well m (Found r)" by simp
    then have "stops_well m (route_for f m (if mt_records r = [] then None else Some (last (mt_records r)))
        (t\<lparr>lo_params := Some (rt_params r)\<rparr>) None)"
      by (intro 4(2) [OF Found]) (auto simp: stops_well_def)
    then show ?thesis by (subst alias_route.simps) (simp add: Found)
  qed (subst alias_route.simps, simp add: stops_well_simps)+
qed

section \<open>A location made from a name\<close>

lemma final_route_for: "final_record u \<Longrightarrow> route_for f m (Some u) n i = Found (create_route (Some u) n i)"
  by (subst route_for.simps) (simp add: final_record_def)

text \<open>Patterns whose filled-in paths can be read back.\<close>

definition readable_pattern :: "piece list \<Rightarrow> bool" where
  "readable_pattern ps \<longleftrightarrow>
     ps \<noteq> [] \<and> segmented ps \<and> \<not> ends_with_slash ps
     \<and> distinct (map (\<lambda>t. param_key (tk_name t)) (pattern_keys ps))
     \<and> (\<forall>p \<in> set ps. case p of Lit s \<Rightarrow> set s \<inter> set ''?#'' = {} | Param t \<Rightarrow> True)"

lemma inherit_nothing:
  assumes "set (needed_params c) \<subseteq> set (okeys ps)"
  shows "inherit_params c n ps = ps"
proof -
  have "fold (\<lambda>(h, v) ps. if h \<notin> set (okeys ps) \<and> h \<notin> set inherited_names \<and> h \<in> set (needed_params c) then oset h v ps else ps) xs ps = ps"
    for xs :: "jv obj"
  proof (induction xs)
    case (Cons x xs)
    have "(case x of (h, v) \<Rightarrow> \<lambda>ps. if h \<notin> set (okeys ps) \<and> h \<notin> set inherited_names \<and> h \<in> set (needed_params c) then oset h v ps else ps) ps = ps"
      using assms by (cases x) auto
    then show ?case using Cons.IH by (simp only: fold_simps)
  qed simp
  then show ?thesis by (simp add: inherit_params_def split: option.split)
qed

lemma needed_given:
  assumes "has_values (rc_pieces c) ps"
  shows "set (needed_params c) \<subseteq> set (okeys ps)"
proof
  fix w
  assume "w \<in> set (needed_params c)"
  then obtain t where t: "t \<in> set (pattern_keys (rc_pieces c))" "tk_name t = Named w"
    by (auto simp: needed_params_def split: param_name.splits if_splits)
  then obtain s where "getp ps w = Str s" using assms by (auto simp: has_values_def param_key_def)
  then have "map_of ps w = Some (Str s)" by (auto split: option.splits)
  then show "w \<in> set (okeys ps)" by (force dest: map_of_SomeD)
qed

text \<open>No pattern before that of a record matches a path.\<close>

definition no_earlier :: "route_maps \<Rightarrow> route_record \<Rightarrow> string \<Rightarrow> bool" where
  "no_earlier m u path \<longleftrightarrow>
     (\<forall>p \<in> set (takeWhile (\<lambda>p. p \<noteq> rc_path u) (path_list m)).
        case oget (path_map m) p of None \<Rightarrow> False | Some v \<Rightarrow> match_route (rc_pieces v) (rc_options v) path [] = Some None)"

lemma first_match_skip:
  assumes "\<forall>p \<in> set qs. case oget r p of None \<Rightarrow> False | Some v \<Rightarrow> match_route (rc_pieces v) (rc_options v) path [] = Some None"
  shows "first_match r (qs @ ps) path = first_match r ps path"
  using assms by (induction qs) (auto split: option.splits)

lemma first_match_found:
  assumes "no_earlier m u path" and "rc_path u \<in> set (path_list m)" and "oget (path_map m) (rc_path u) = Some u"
    and "match_route (rc_pieces u) (rc_options u) path [] = Some (Some ps)"
  shows "first_match (path_map m) (path_list m) path = Some (Some (u, ps))"
proof -
  let ?qs = "takeWhile (\<lambda>p. p \<noteq> rc_path u) (path_list m)" and ?ds = "dropWhile (\<lambda>p. p \<noteq> rc_path u) (path_list m)"
  have "?ds \<noteq> []" using assms(2) by (auto simp: dropWhile_eq_Nil_conv)
  then have "?ds = rc_path u # tl ?ds" by (cases ?ds) (auto dest!: dropWhile_eq_Cons_conv [THEN iffD1])
  then have l: "path_list m = ?qs @ rc_path u # tl ?ds" by (metis takeWhile_dropWhile_id)
  have "first_match (path_map m) (?qs @ rc_path u # tl ?ds) path = first_match (path_map m) (rc_path u # tl ?ds) path"
    using assms(1) by (intro first_match_skip) (simp add: no_earlier_def)
  then show ?thesis using assms(3,4) l by simp
qed

lemma path_text_location:
  "normalize_location (at_path_text p) t n =
     (let l = parse_path p; c = (case t of None \<Rightarrow> ''/'' | Some x \<Rightarrow> if rt_path x = [] then ''/'' else rt_path x)
      in normalized [] (if pp_path l \<noteq> [] then resolve_path (pp_path l) c n else c) (Some (resolve_query (pp_query l) []))
           (Some (if pp_hash l \<noteq> [] \<and> hd (pp_hash l) \<noteq> CHR ''#'' then CHR ''#'' # pp_hash l else pp_hash l)) None)"
  by (cases p) (simp_all add: normalize_location_def at_path_text_def or_empty_def Let_def)

lemma absolute_location:
  assumes "hd p = CHR ''/''" and "p \<noteq> []" and "set p \<inter> set ''?#'' = {}"
  shows "normalize_location (at_path_text p) cur n = normalized [] p (Some []) (Some []) None"
proof -
  have tw: "takeWhile (\<lambda>c. c \<noteq> CHR ''#'') p = p" "dropWhile (\<lambda>c. c \<noteq> CHR ''#'') p = []"
    "takeWhile (\<lambda>c. c \<noteq> CHR ''?'') p = p" "dropWhile (\<lambda>c. c \<noteq> CHR ''?'') p = []"
    using assms(3) by (auto simp: takeWhile_eq_all_conv dropWhile_eq_Nil_conv)
  have "parse_path p = \<lparr>pp_path = p, pp_query = [], pp_hash = []\<rparr>" by (simp only: parse_path_def Let_def tw list.sel(2))
  moreover have "resolve_path p c k = p" for c k using assms(1,2) by (simp add: resolve_path_def)
  moreover have "resolve_query [] [] = []" by (simp add: resolve_query_def parse_query_def strip_query_mark_def js_trim_def strip_left_def strip_right_def)
  ultimately show ?thesis using assms(2)
    by (simp add: path_text_location Let_def)
qed

lemma named_location:
  assumes name: "lo_name e \<noteq> []" and u: "oget (name_map m) (lo_name e) = Some u"
    and p: "lo_params e = Some ps" "has_values (rc_pieces u) ps" and fin: "final_record u"
  shows "match_location f m e cur a
    = Found (create_route (Some u) (e\<lparr>lo_path := fill_params (rc_path u) ps, lo_params := Some (odel ''0'' ps)\<rparr>) a)"
proof -
  have "normalize_location e cur False = e" using name by (simp add: normalize_location_def)
  moreover have "inherit_params u cur ps = ps" by (rule inherit_nothing [OF needed_given [OF p(2)]])
  ultimately show ?thesis using name u p(1)
    by (subst match_location.simps) (simp add: Let_def or_empty_def final_route_for [OF fin])
qed

lemma named_read_back:
  assumes ok: "table_ok m" and name: "lo_name e \<noteq> []" and u: "oget (name_map m) (lo_name e) = Some u"
    and mine: "oget (path_map m) (rc_path u) = Some u" and fin: "final_record u"
    and p: "lo_params e = Some ps" "has_values (rc_pieces u) ps" "\<not> truthy (getp ps ''pathMatch'')"
    and pat: "readable_pattern (rc_pieces u)" and first: "no_earlier m u (fill_params (rc_path u) ps)"
  shows "\<exists>r r'. match_location f m e cur a = Found r \<and> mt_records r = record_chain u
    \<and> match_location f m (at_path_text (rt_path r)) cur' a' = Found r' \<and> mt_records r' = record_chain u
    \<and> rt_path r' = rt_path r
    \<and> (\<forall>t \<in> set (pattern_keys (rc_pieces u)). oget (rt_params r') (param_key (tk_name t)) = Some (getp ps (param_key (tk_name t))))"
proof -
  have rows: "rows_ok m" using ok by (simp add: table_ok_def)
  then have "record_ok u" using mine unfolding rows_ok_def by blast
  then have row: "rc_pieces u = parse_pattern (rc_path u)" "po_end (rc_options u)" unfolding record_ok_def by blast+
  have "rc_path u \<in> set (okeys (path_map m))" using mine by (force dest: map_of_SomeD)
  then have listed: "rc_path u \<in> set (path_list m)" using rows unfolding rows_ok_def by blast
  have pat': "segmented (rc_pieces u)" "\<not> ends_with_slash (rc_pieces u)" using pat by (simp_all add: readable_pattern_def)
  from fill_then_match [OF pat'(1) p(2) row(2) pat'(2), of "[]"] obtain w qs where w: "fill_pieces (rc_pieces u) ps = Some w"
    and qs: "match_route (rc_pieces u) (rc_options u) w [] = Some (Some qs)"
      "qs = fold (\<lambda>t. oset (param_key (tk_name t)) (getp ps (param_key (tk_name t)))) (pattern_keys (rc_pieces u)) []"
    by blast
  have fp: "fill_params (rc_path u) ps = w" using w p(3) row(1) by (simp add: fill_params_def)
  have wne: "w \<noteq> []" "hd w = CHR ''/''"
    using fill_head [OF pat'(1) p(2) w] pat by (simp_all add: readable_pattern_def)
  have clean: "set w \<inter> set ''?#'' = {}"
    using fill_chars [OF pat'(1) p(2) w] pat by (simp add: readable_pattern_def)
  let ?r = "create_route (Some u) (e\<lparr>lo_path := w, lo_params := Some (odel ''0'' ps)\<rparr>) a"
  have r: "match_location f m e cur a = Found ?r" "rt_path ?r = w" "mt_records ?r = record_chain u"
    using named_location [OF name u p(1,2) fin] wne by (simp_all add: fp create_route_records) (simp add: create_route_def Let_def)
  let ?r' = "create_route (Some u) ((normalized [] w (Some []) (Some []) None)\<lparr>lo_params := Some qs\<rparr>) a'"
  have "first_match (path_map m) (path_list m) w = Some (Some (u, qs))"
    using first_match_found [OF _ listed mine qs(1)] first by (simp add: fp)
  then have r': "match_location f m (at_path_text w) cur' a' = Found ?r'"
    using absolute_location [OF wne(2,1) clean] wne
    by (subst match_location.simps) (simp add: Let_def normalized_def final_route_for [OF fin])
  have "rt_params ?r' = qs" "rt_path ?r' = w" "mt_records ?r' = record_chain u"
    using wne by (simp_all add: create_route_def Let_def normalized_def or_empty_def)
  moreover have "oget qs (param_key (tk_name t)) = Some (getp ps (param_key (tk_name t)))" if "t \<in> set (pattern_keys (rc_pieces u))" for t
    using pat that unfolding qs(2)
    by (intro fold_oset_get [where f = "\<lambda>t. param_key (tk_name t)" and g = "\<lambda>t. getp ps (param_key (tk_name t))"])
      (simp_all add: readable_pattern_def)
  ultimately show ?thesis using r r' by metis
qed

section \<open>The page's own table\<close>

text \<open>\<open>D\<close> in the page: one route, for the list. Its path becomes empty, and its expression matches the
  empty path and a slash.\<close>

definition page_routes :: "route_config list" where
  "page_routes = [RouteConfig ''/'' ''index'' None [] [] False False]"

definition page_table :: route_maps where
  "page_table = create_route_map page_routes"

definition index_record :: route_record where
  "index_record = RouteRecord 0 [] [] \<lparr>po_strict = False, po_end = True, po_sensitive = False\<rparr> ''index'' None [] None"

lemma page_table_simps:
  "path_list page_table = [[]]" "path_map page_table = [([], index_record)]" "name_map page_table = [(''index'', index_record)]"
proof -
  have e: "make_record (RouteConfig ''/'' ''index'' None [] [] False False) None [] 0 = index_record"
    by (simp add: make_record_def record_path_def drop_slash_def index_record_def parse_pattern_def parse_pattern_from.simps)
  show "path_list page_table = [[]]" "path_map page_table = [([], index_record)]" "name_map page_table = [(''index'', index_record)]"
    by (simp_all add: page_table_def create_route_map_def add_routes_def page_routes_def add_route.simps e no_routes_def
        list_record_def name_record_def move_wildcards_spec Let_def) (simp_all add: index_record_def)
qed

lemma index_match:
  "match_route (rc_pieces index_record) (rc_options index_record) p ps = Some (if p = [] \<or> p = ''/'' then Some ps else None)"
proof -
  have "rx_exec True (tokens_to_rx [] \<lparr>po_strict = False, po_end = True, po_sensitive = False\<rparr>) p
      = (if p = [] \<or> p = ''/'' then Some (\<lambda>_. None) else None)"
    by (auto simp: tokens_to_rx_def rx_exec_def ends_with_slash_def one_char_def same_slash split: list.splits)
  then show ?thesis by (simp add: match_route_def index_record_def)
qed

lemma page_location:
  assumes "p \<noteq> []" and "hd p = CHR ''/''"
  shows "\<exists>r. match_location f page_table (at_path_text p) cur a = Found r \<and> rt_path r = pp_path (parse_path p)
    \<and> mt_records r = (if pp_path (parse_path p) = ''/'' then [index_record] else [])"
proof -
  have l: "pp_path (parse_path p) \<noteq> [] \<and> hd (pp_path (parse_path p)) = CHR ''/''"
    using assms by (cases p) (simp_all add: parse_path_def Let_def)
  define s where "s = normalize_location (at_path_text p) cur False"
  have s: "lo_path s = pp_path (parse_path p)" "lo_name s = []"
    using l unfolding s_def path_text_location by (simp_all add: Let_def normalized_def resolve_path_def)
  have "first_match (path_map page_table) (path_list page_table) (lo_path s)
      = Some (if lo_path s = ''/'' then Some (index_record, []) else None)"
    using l s(1) by (simp add: page_table_simps index_match)
  moreover have "final_record index_record" "record_chain index_record = [index_record]"
    by (simp_all add: final_record_def index_record_def)
  ultimately show ?thesis using l s
    by (subst match_location.simps)
      (simp add: s_def [symmetric] Let_def final_route_for create_route_records create_route_def)
qed

section \<open>Depth\<close>

text \<open>A deeper search gives the same answer.\<close>

lemma depth_mono:
  shows "match_location f m e n a \<noteq> Exhausted \<Longrightarrow> match_location (Suc f) m e n a = match_location f m e n a"
    and "route_for f m e' n' i \<noteq> Exhausted \<Longrightarrow> route_for (Suc f) m e' n' i = route_for f m e' n' i"
    and "redirect_route f m u n' \<noteq> Exhausted \<Longrightarrow> redirect_route (Suc f) m u n' = redirect_route f m u n'"
    and "alias_route f m n' s \<noteq> Exhausted \<Longrightarrow> alias_route (Suc f) m n' s = alias_route f m n' s"
proof (induction f m e n a and f m e' n' i and f m u n' and f m n' s rule: match_location_route_for_redirect_route_alias_route.induct)
  case (1 f m e n a)
  then show ?case unfolding match_location.simps [of f] match_location.simps [of "Suc f"]
    by (auto simp: Let_def split: option.splits)
next
  case (2 f m e n i)
  then show ?case unfolding route_for.simps [of f] route_for.simps [of "Suc f"]
    by (auto split: option.splits nat.splits)
next
  case (3 f m e n)
  then show ?case unfolding redirect_route.simps [of f] redirect_route.simps [of "Suc f"]
    by (auto simp: Let_def split: option.splits)
next
  case (4 f m t n)
  then show ?case unfolding alias_route.simps [of f] alias_route.simps [of "Suc f"]
    by (auto split: outcome.splits)
qed

lemma deeper: "match_location f m e n a = x \<Longrightarrow> x \<noteq> Exhausted \<Longrightarrow> f \<le> g \<Longrightarrow> match_location g m e n a = x"
proof (induction g)
  case (Suc g)
  then show ?case using depth_mono(1) [of g m e n a] by (cases "f = Suc g") auto
qed simp

text \<open>Without redirections and aliases every location is answered at once.\<close>

lemma plain_table_answers:
  assumes "\<forall>u. table_record m u \<longrightarrow> final_record u"
  shows "match_location f m e n a \<noteq> Exhausted"
proof -
  have r: "route_for f m (Some u) x i \<noteq> Exhausted" if "table_record m u" for u x i
    using assms that by (simp add: final_route_for)
  show ?thesis
    by (subst match_location.simps) (auto simp: Let_def table_record_def dest: first_match_entry intro!: r split: option.split)
qed

section \<open>Redirections that go round\<close>

definition redirect_to :: "string \<Rightarrow> string \<Rightarrow> route_config" where
  "redirect_to p q = RouteConfig p [] (Some (\<lambda>r. Some (at_path_text q))) [] [] False False"

definition round_table :: route_maps where
  "round_table = create_route_map [redirect_to ''/a'' ''/b'', redirect_to ''/b'' ''/a'']"

definition round_record :: "nat \<Rightarrow> string \<Rightarrow> string \<Rightarrow> route_record" where
  "round_record k p q =
     RouteRecord k p [Lit p] \<lparr>po_strict = False, po_end = True, po_sensitive = False\<rparr> [] (Some (\<lambda>r. Some (at_path_text q))) [] None"

lemma round_table_simps:
  "path_list round_table = [''/a'', ''/b'']" "name_map round_table = []"
  "path_map round_table = [(''/a'', round_record 0 ''/a'' ''/b''), (''/b'', round_record 1 ''/b'' ''/a'')]"
proof -
  have p: "parse_pattern ''/a'' = [Lit ''/a'']" "parse_pattern ''/b'' = [Lit ''/b'']"
    by (simp_all add: parse_pattern_def parse_pattern_from.simps param_at_def bare_param_def)
  have e: "make_record (redirect_to ''/a'' ''/b'') None [] 0 = round_record 0 ''/a'' ''/b''"
    "make_record (redirect_to ''/b'' ''/a'') None [] 1 = round_record 1 ''/b'' ''/a''"
    by (simp_all add: make_record_def record_path_def drop_slash_def round_record_def redirect_to_def p Let_def)
  have c: "cf_children (redirect_to p q) = []" "cf_alias (redirect_to p q) = []" "cf_name (redirect_to p q) = []" for p q
    by (simp_all add: redirect_to_def)
  have k: "rc_path (round_record k p q) = p" for k p q by (simp add: round_record_def)
  show "path_list round_table = [''/a'', ''/b'']" "name_map round_table = []"
    "path_map round_table = [(''/a'', round_record 0 ''/a'' ''/b''), (''/b'', round_record 1 ''/b'' ''/a'')]"
    using e by (simp_all add: round_table_def create_route_map_def add_routes_def add_route.simps c k no_routes_def
        list_record_def name_record_def move_wildcards_spec Let_def)
qed

lemma round_match:
  "match_route [Lit ''/a''] \<lparr>po_strict = False, po_end = True, po_sensitive = False\<rparr> ''/a'' ps = Some (Some ps)"
  "match_route [Lit ''/a''] \<lparr>po_strict = False, po_end = True, po_sensitive = False\<rparr> ''/b'' ps = Some None"
  "match_route [Lit ''/b''] \<lparr>po_strict = False, po_end = True, po_sensitive = False\<rparr> ''/b'' ps = Some (Some ps)"
  by (simp_all add: match_route_def rx_exec_def tokens_to_rx_def ends_with_slash_def rx_lit_def one_char_def same_char_def
      canon_char_def upper_char_def)

lemma round_target:
  "redirect_target (round_record k p ''/a'') n = Some (normalized [] ''/a'' (lo_query n) (lo_hash n) None)"
  "redirect_target (round_record k p ''/b'') n = Some (normalized [] ''/b'' (lo_query n) (lo_hash n) None)"
  by (simp_all add: redirect_target_def round_record_def at_path_text_def resolve_record_path_def resolve_path_def
      fill_params_def parse_pattern_def parse_pattern_from.simps param_at_def bare_param_def or_empty_def Let_def)

lemma round_first:
  "first_match (path_map round_table) (path_list round_table) ''/a'' = Some (Some (round_record 0 ''/a'' ''/b'', []))"
  "first_match (path_map round_table) (path_list round_table) ''/b'' = Some (Some (round_record 1 ''/b'' ''/a'', []))"
  by (simp_all add: round_table_simps round_record_def round_match)

lemma round_for_ever:
  "match_location f round_table (normalized [] ''/a'' d h None) n a = Exhausted
   \<and> match_location f round_table (normalized [] ''/b'' d h None) n a = Exhausted"
proof (induction f arbitrary: d h n a)
  have l: "normalize_location (normalized [] p d h ps) n False = normalized [] p d h ps" for p d h ps n
    by (simp add: normalize_location_def normalized_def)
  have s: "lo_name (normalized [] p d h ps) = []" "lo_path (normalized [] p d h ps) = p" for p d h ps
    by (simp_all add: normalized_def)
  have r: "rc_redirect (round_record k p q) \<noteq> None" for k p q by (simp add: round_record_def)
  have m: "match_location f round_table (normalized [] ''/a'' d h None) n a
        = route_for f round_table (Some (round_record 0 ''/a'' ''/b'')) ((normalized [] ''/a'' d h None)\<lparr>lo_params := Some []\<rparr>) a"
    "match_location f round_table (normalized [] ''/b'' d h None) n a
        = route_for f round_table (Some (round_record 1 ''/b'' ''/a'')) ((normalized [] ''/b'' d h None)\<lparr>lo_params := Some []\<rparr>) a"
    for f d h n a
    by (subst match_location.simps, simp add: l s round_first Let_def)+
  {
    case 0
    show ?case unfolding m by (subst (1 2) route_for.simps) (simp add: r)
  next
    case (Suc f)
    have "redirect_route f round_table (round_record k p q) x = Exhausted" if "q = ''/a'' \<or> q = ''/b''" for k p q x
      using that Suc by (subst redirect_route.simps) (auto simp: round_target)
    then show ?case unfolding m by (subst (1 2) route_for.simps) (simp add: r)
  }
qed

lemma round_text: "match_location f round_table (at_path_text ''/a'') cur a = Exhausted"
proof -
  have n: "normalize_location (at_path_text ''/a'') cur False = normalized [] ''/a'' (Some []) (Some []) None"
    by (rule absolute_location) simp_all
  moreover have "normalize_location (normalized [] ''/a'' (Some []) (Some []) None) cur False = normalized [] ''/a'' (Some []) (Some []) None"
    by (simp add: normalize_location_def normalized_def)
  ultimately have "match_location f round_table (at_path_text ''/a'') cur a
      = match_location f round_table (normalized [] ''/a'' (Some []) (Some []) None) cur a"
    by (simp only: match_location.simps [of f])
  then show ?thesis using round_for_ever by simp
qed

end
