(* ===== verification/RouteHash.thy ===== *)
theory RouteHash
  imports RouteMatch
begin

text \<open>
  The hash history of vue-router 3.1.3 (\<open>chunk-vendors.ddcb6f91.js\<close>, module \<open>8c4f\<close>), the mode the page
  runs in: \<open>at\<close> (getHash), \<open>st\<close> (getUrl), \<open>ot\<close> (ensureSlash), \<open>lt\<close> and \<open>ct\<close> (pushHash, replaceHash), the
  class \<open>it\<close> with its listener, and \<open>transitionTo\<close> for a router without guards, whose transitions end at
  once. The browser supports \<open>pushState\<close>: the listener is one of \<open>popstate\<close>, and a replaced address fires
  no event. The browser is its list of entries; what it makes of an address, escaping some characters,
  is a parameter. Scroll positions are not modelled. \<open>RouterNav\<close> has the transitions with guards.
\<close>

section \<open>Addresses\<close>

text \<open>\<open>decodeURI\<close>: escapes of reserved characters stay.\<close>

fun decode_uri :: "string \<Rightarrow> string option" where
  "decode_uri [] = Some []"
| "decode_uri (c # s) =
     (if c \<noteq> CHR ''%'' then map_option ((#) c) (decode_uri s)
      else
        (case s of
           a # b # s' \<Rightarrow>
             (case hex_byte a b of
                None \<Rightarrow> None
              | Some n \<Rightarrow>
                if n < 128 then
                  (if char_of n \<in> set '';/?:@&=+$,#'' then map_option ((@) [c, a, b]) (decode_uri s')
                   else map_option ((#) (char_of n)) (decode_uri s'))
                else if n = 194 \<or> n = 195 then
                  (case s' of
                     p # d # e # s'' \<Rightarrow>
                       (if p \<noteq> CHR ''%'' then None
                        else
                          (case hex_byte d e of
                             None \<Rightarrow> None
                           | Some z \<Rightarrow>
                             if 128 \<le> z \<and> z < 192
                             then map_option ((#) (char_of (64 * (n - 192) + (z - 128)))) (decode_uri s'')
                             else None))
                   | _ \<Rightarrow> None)
                else None)
         | _ \<Rightarrow> None))"

text \<open>\<open>at\<close>: what follows the first \<open>#\<close>, decoded up to a query or a second \<open>#\<close>; \<open>None\<close> is a \<open>URIError\<close>.\<close>

definition get_hash :: "string \<Rightarrow> string option" where
  "get_hash href =
     (if CHR ''#'' \<notin> set href then Some []
      else
        let e = tl (dropWhile (\<lambda>c. c \<noteq> CHR ''#'') href);
            stop = (if CHR ''?'' \<in> set e then CHR ''?'' else CHR ''#'')
        in map_option (\<lambda>p. p @ dropWhile (\<lambda>c. c \<noteq> stop) e) (decode_uri (takeWhile (\<lambda>c. c \<noteq> stop) e)))"

text \<open>\<open>st(e)\<close> for the present address.\<close>

definition with_hash :: "string \<Rightarrow> string \<Rightarrow> string" where
  "with_hash href e = takeWhile (\<lambda>c. c \<noteq> CHR ''#'') href @ ''#'' @ e"

section \<open>The browser and the router\<close>

record hash_page =
  entries :: "string list"
  entry :: nat
  shown_route :: matched

definition here :: "hash_page \<Rightarrow> string" where
  "here st = entries st ! entry st"

text \<open>\<open>lt\<close> and \<open>ct\<close>: a new entry takes the place of those ahead.\<close>

definition push_hash :: "(string \<Rightarrow> string) \<Rightarrow> string \<Rightarrow> hash_page \<Rightarrow> hash_page" where
  "push_hash br e st =
     st\<lparr>entries := take (Suc (entry st)) (entries st) @ [br (with_hash (here st) e)], entry := Suc (entry st)\<rparr>"

definition replace_hash :: "(string \<Rightarrow> string) \<Rightarrow> string \<Rightarrow> hash_page \<Rightarrow> hash_page" where
  "replace_hash br e st = st\<lparr>entries := (entries st)[entry st := br (with_hash (here st) e)]\<rparr>"

text \<open>\<open>ensureURL()\<close>; an address that cannot be read ends in an error.\<close>

definition ensure_url :: "(string \<Rightarrow> string) \<Rightarrow> hash_page \<Rightarrow> hash_page" where
  "ensure_url br st =
     (case get_hash (here st) of
        None \<Rightarrow> st
      | Some h \<Rightarrow> if h \<noteq> mt_full_path (shown_route st) then replace_hash br (mt_full_path (shown_route st)) st else st)"

text \<open>\<open>transitionTo(e, t)\<close> without guards. An error of the matcher leaves everything as it was.\<close>

definition transition_to ::
  "(string \<Rightarrow> string) \<Rightarrow> nat \<Rightarrow> route_maps \<Rightarrow> raw_location \<Rightarrow> (string \<Rightarrow> hash_page \<Rightarrow> hash_page) \<Rightarrow> hash_page \<Rightarrow> hash_page" where
  "transition_to br f m e t st =
     (case match_location f m e (Some (shown_route st)) None of
        Found r \<Rightarrow>
          (if is_same_route (route.truncate r) (route.truncate (shown_route st))
              \<and> length (rt_matched r) = length (rt_matched (shown_route st))
           then ensure_url br st
           else ensure_url br (t (mt_full_path r) (st\<lparr>shown_route := r\<rparr>)))
      | _ \<Rightarrow> st)"

text \<open>\<open>ot\<close>, and the listener.\<close>

definition ensure_slash :: "(string \<Rightarrow> string) \<Rightarrow> string \<Rightarrow> hash_page \<Rightarrow> bool \<times> hash_page" where
  "ensure_slash br h st =
     (if h \<noteq> [] \<and> hd h = CHR ''/'' then (True, st) else (False, replace_hash br (''/'' @ h) st))"

definition on_popstate :: "(string \<Rightarrow> string) \<Rightarrow> nat \<Rightarrow> route_maps \<Rightarrow> hash_page \<Rightarrow> hash_page" where
  "on_popstate br f m st =
     (case get_hash (here st) of
        None \<Rightarrow> st
      | Some h \<Rightarrow>
          (case ensure_slash br h st of
             (False, st1) \<Rightarrow> st1
           | (True, st1) \<Rightarrow> transition_to br f m (at_path_text h) (\<lambda>_ st. st) st1))"

text \<open>The router calls \<open>push\<close> or \<open>replace\<close>, the user writes an address with another hash, or goes some
  entries back or forth.\<close>

datatype page_event = PushTo raw_location | ReplaceWith raw_location | UserHash string | Traverse int

fun page_step :: "(string \<Rightarrow> string) \<Rightarrow> nat \<Rightarrow> route_maps \<Rightarrow> page_event \<Rightarrow> hash_page \<Rightarrow> hash_page" where
  "page_step br f m (PushTo e) st = transition_to br f m e (push_hash br) st"
| "page_step br f m (ReplaceWith e) st = transition_to br f m e (replace_hash br) st"
| "page_step br f m (UserHash h) st = on_popstate br f m (push_hash br h st)"
| "page_step br f m (Traverse n) st =
     (let i = int (entry st) + n in
      if 0 \<le> i \<and> i < int (length (entries st)) then on_popstate br f m (st\<lparr>entry := nat i\<rparr>) else st)"

text \<open>The start: the constructor looks after the slash, and \<open>init\<close> goes to the present address.\<close>

definition start_matched :: matched where
  "start_matched = (create_route None (at_path_text ''/'') None)\<lparr>rt_start := True\<rparr>"

definition page_start :: "(string \<Rightarrow> string) \<Rightarrow> nat \<Rightarrow> route_maps \<Rightarrow> string \<Rightarrow> hash_page option" where
  "page_start br f m href =
     (let st = \<lparr>entries = [href], entry = 0, shown_route = start_matched\<rparr> in
      case get_hash href of
        None \<Rightarrow> None
      | Some h \<Rightarrow>
          (let st1 = snd (ensure_slash br h st) in
           case get_hash (here st1) of
             None \<Rightarrow> None
           | Some h1 \<Rightarrow> Some (transition_to br f m (at_path_text h1) (\<lambda>_ st. st) st1)))"

section \<open>Address and route\<close>

text \<open>The address stands for the route: it reads as its full path, or is what the browser makes of it.\<close>

definition address_agrees :: "(string \<Rightarrow> string) \<Rightarrow> hash_page \<Rightarrow> bool" where
  "address_agrees br st \<longleftrightarrow>
     entry st < length (entries st)
     \<and> (get_hash (here st) = Some (mt_full_path (shown_route st))
        \<or> (\<exists>u. here st = br (with_hash u (mt_full_path (shown_route st)))))"

text \<open>An address that can be read and has its slash.\<close>

definition readable :: "string \<Rightarrow> bool" where
  "readable href \<longleftrightarrow> (case get_hash href of None \<Rightarrow> False | Some h \<Rightarrow> h \<noteq> [] \<and> hd h = CHR ''/'')"

fun readable_event :: "(string \<Rightarrow> string) \<Rightarrow> page_event \<Rightarrow> hash_page \<Rightarrow> bool" where
  "readable_event br (PushTo e) st = True"
| "readable_event br (ReplaceWith e) st = True"
| "readable_event br (UserHash h) st = readable (br (with_hash (here st) h))"
| "readable_event br (Traverse n) st =
     (let i = int (entry st) + n in 0 \<le> i \<and> i < int (length (entries st)) \<longrightarrow> readable (entries st ! nat i))"

inductive page_reachable :: "(string \<Rightarrow> string) \<Rightarrow> nat \<Rightarrow> route_maps \<Rightarrow> hash_page \<Rightarrow> bool" for br f m where
  page_first: "readable href \<Longrightarrow> page_start br f m href = Some st \<Longrightarrow> page_reachable br f m st"
| page_next: "page_reachable br f m st \<Longrightarrow> readable_event br ev st \<Longrightarrow> page_reachable br f m (page_step br f m ev st)"

lemma replace_agrees:
  assumes "entry st < length (entries st)"
  shows "address_agrees br (replace_hash br (mt_full_path (shown_route st)) st)"
  using assms by (auto simp: address_agrees_def replace_hash_def here_def)

lemma ensure_url_agrees:
  assumes "entry st < length (entries st)" and "get_hash (here st) \<noteq> None \<or> address_agrees br st"
  shows "address_agrees br (ensure_url br st)"
  using assms replace_agrees [OF assms(1), of br]
  by (auto simp: ensure_url_def address_agrees_def split: option.split)

lemma push_entry: "entry st < length (entries st) \<Longrightarrow> here (push_hash br e st) = br (with_hash (here st) e)"
  by (simp add: here_def push_hash_def nth_append)

lemma push_agrees:
  "entry st < length (entries st) \<Longrightarrow> address_agrees br (push_hash br (mt_full_path (shown_route st)) st)"
  using push_entry [of st br "mt_full_path (shown_route st)"] by (auto simp: address_agrees_def push_hash_def min_def)

text \<open>The matcher of the page's table always gives a route.\<close>

lemma page_found: "\<exists>r. match_location f page_table e cur a = Found r"
proof -
  have fin: "final_record index_record" by (simp add: final_record_def index_record_def)
  have first: "first_match (path_map page_table) (path_list page_table) p
      = Some (if p = [] \<or> p = ''/'' then Some (index_record, []) else None)" for p
    by (simp add: page_table_simps index_match)
  show ?thesis
    by (subst match_location.simps)
      (auto simp: Let_def first final_route_for [OF fin] page_table_simps index_match split: option.split if_split)
qed

lemma transition_agrees:
  assumes "entry st < length (entries st)"
    and "address_agrees br st \<or> get_hash (here st) \<noteq> None"
    and "\<And>r. let st' = t (mt_full_path r) (st\<lparr>shown_route := r\<rparr>)
       in entry st' < length (entries st') \<and> (address_agrees br st' \<or> get_hash (here st') \<noteq> None)"
  shows "address_agrees br (transition_to br f page_table e t st)"
proof -
  obtain r where "match_location f page_table e (Some (shown_route st)) None = Found r" using page_found by blast
  then show ?thesis using assms(1,2) assms(3) [of r] ensure_url_agrees by (auto simp: transition_to_def Let_def)
qed

lemma transition_pop:
  assumes "entry st < length (entries st)" and "readable (here st)"
  shows "address_agrees br (on_popstate br f page_table st)"
proof -
  obtain h where h: "get_hash (here st) = Some h" "h \<noteq> []" "hd h = CHR ''/''"
    using assms(2) by (auto simp: readable_def split: option.splits)
  have "address_agrees br (transition_to br f page_table (at_path_text h) (\<lambda>_ st. st) st)"
    using assms(1) h by (intro transition_agrees) (simp_all add: here_def)
  then show ?thesis using h by (simp add: on_popstate_def ensure_slash_def)
qed

lemma page_step_agrees:
  assumes "address_agrees br st" and "readable_event br ev st"
  shows "address_agrees br (page_step br f page_table ev st)"
proof (cases ev)
  case (PushTo e)
  have "address_agrees br (transition_to br f page_table e (push_hash br) st)"
    using assms(1) push_agrees [of "st\<lparr>shown_route := r\<rparr>" br for r]
    by (intro transition_agrees) (auto simp: Let_def address_agrees_def)
  then show ?thesis using PushTo by simp
next
  case (ReplaceWith e)
  have "address_agrees br (transition_to br f page_table e (replace_hash br) st)"
    using assms(1) replace_agrees [of "st\<lparr>shown_route := r\<rparr>" br for r]
    by (intro transition_agrees) (auto simp: Let_def address_agrees_def)
  then show ?thesis using ReplaceWith by simp
next
  case (UserHash h)
  have "entry st < length (entries st)" using assms(1) by (simp add: address_agrees_def)
  then show ?thesis using assms(2) UserHash push_entry [of st br h]
    by (auto intro!: transition_pop simp: push_hash_def)
next
  case (Traverse n)
  then show ?thesis using assms by (auto simp: Let_def here_def intro!: transition_pop)
qed

lemma page_reachable_agrees: "page_reachable br f page_table st \<Longrightarrow> address_agrees br st"
proof (induction rule: page_reachable.induct)
  case (page_first href st)
  then obtain h where h: "get_hash href = Some h" "h \<noteq> []" "hd h = CHR ''/''"
    by (auto simp: readable_def split: option.splits)
  let ?st = "\<lparr>entries = [href], entry = 0, shown_route = start_matched\<rparr>"
  have "address_agrees br (transition_to br f page_table (at_path_text h) (\<lambda>_ st. st) ?st)"
    using h by (intro transition_agrees) (simp_all add: here_def)
  then show ?case using page_first h by (auto simp: page_start_def ensure_slash_def here_def Let_def)
next
  case (page_next st ev)
  then show ?case using page_step_agrees by blast
qed

section \<open>A hash without a slash\<close>

text \<open>The listener corrects the address and leaves the route alone.\<close>

lemma no_slash_ignored:
  assumes "entry st < length (entries st)" and "get_hash (br (with_hash (here st) h)) = Some h'"
    and "h' = [] \<or> hd h' \<noteq> CHR ''/''"
  shows "shown_route (page_step br f m (UserHash h) st) = shown_route st
    \<and> here (page_step br f m (UserHash h) st) = br (with_hash (br (with_hash (here st) h)) (''/'' @ h'))"
  using assms push_entry [OF assms(1), of br h]
  by (auto simp: on_popstate_def ensure_slash_def push_hash_def replace_hash_def here_def nth_append min_def split: option.split)

text \<open>An address that is written is read back, if nothing in it is escaped or ends the path.\<close>

lemma decode_uri_plain: "CHR ''%'' \<notin> set s \<Longrightarrow> decode_uri s = Some s"
  by (induction s) auto

lemma get_with_hash:
  assumes "set e \<inter> set ''%?#'' = {}"
  shows "get_hash (with_hash u e) = Some e"
proof -
  let ?b = "takeWhile (\<lambda>c. c \<noteq> CHR ''#'') u"
  have b: "CHR ''#'' \<notin> set ?b" by (auto dest: set_takeWhileD)
  have d: "dropWhile (\<lambda>c. c \<noteq> CHR ''#'') (with_hash u e) = CHR ''#'' # e"
    unfolding with_hash_def using dropWhile_sep [OF b, of e] by simp
  have m: "CHR ''#'' \<in> set (with_hash u e)" by (simp add: with_hash_def)
  have q: "CHR ''?'' \<notin> set e" and dec: "decode_uri e = Some e" using assms by (auto intro: decode_uri_plain)
  have tw: "takeWhile (\<lambda>c. c \<noteq> CHR ''#'') e = e" "dropWhile (\<lambda>c. c \<noteq> CHR ''#'') e = []"
    using assms by (auto simp: takeWhile_eq_all_conv dropWhile_eq_Nil_conv)
  show ?thesis
    by (simp only: get_hash_def Let_def d list.sel m q if_False simp_thms tw dec option.map append_Nil2)
qed

lemma found_created: "match_location f page_table e cur a = Found r \<Longrightarrow> \<not> rt_start r"
proof -
  have fin: "final_record index_record" by (simp add: final_record_def index_record_def)
  have n: "\<not> rt_start (create_route x t i)" for x t i by (simp add: create_route_def Let_def)
  assume "match_location f page_table e cur a = Found r"
  then show ?thesis unfolding match_location.simps [of f]
    by (auto simp: Let_def final_route_for [OF fin] page_table_simps index_match n split: option.splits if_splits)
qed

lemma ensure_url_shown: "shown_route (ensure_url br st) = shown_route st"
  by (simp add: ensure_url_def replace_hash_def split: option.split)

text \<open>Loading the page at an address shows the route of that address.\<close>

lemma page_start_shows:
  assumes "get_hash href = Some h" and "h \<noteq> []" and "hd h = CHR ''/''"
  shows "\<exists>st. page_start br f page_table href = Some st \<and> rt_path (shown_route st) = pp_path (parse_path h)
    \<and> mt_records (shown_route st) = (if pp_path (parse_path h) = ''/'' then [index_record] else [])"
proof -
  obtain r where r: "match_location f page_table (at_path_text h) (Some start_matched) None = Found r"
    "rt_path r = pp_path (parse_path h)" "mt_records r = (if pp_path (parse_path h) = ''/'' then [index_record] else [])"
    using page_location [OF assms(2,3)] by blast
  have "\<not> is_same_route (route.truncate r) (route.truncate start_matched)"
    using found_created [OF r(1)] by (simp add: is_same_route_def start_matched_def route.truncate_def create_route_def Let_def)
  then have "shown_route (transition_to br f page_table (at_path_text h) (\<lambda>_ st. st)
      \<lparr>entries = [href], entry = 0, shown_route = start_matched\<rparr>) = r"
    using r(1) by (simp add: transition_to_def ensure_url_shown)
  then show ?thesis using assms r(2,3) by (simp add: page_start_def ensure_slash_def here_def Let_def)
qed

end
