(* ===== verification/Spec2Isabelle.thy ===== *)
theory Spec2Isabelle
  imports Samples PathNames Probes VuePage TodoScreen ElMessage RouteHash
begin

text \<open>
  The todo list of the repository and the JavaScript it ships to the browser.

  The repository is a collection of separate programs in C++, Go and JavaScript. The JavaScript is
  the front end of \<open>src/bubble\<close>: \<open>static/js/app.007f9690.js\<close>, one line that holds the module loader,
  the todo page, its requests and its routes, and \<open>static/js/chunk-vendors.ddcb6f91.js\<close>, the bundle
  of the libraries it runs on (axios, vue-router, Vue, core-js and the shims of Node). The page
  speaks with the server of \<open>src/bubble/main.go\<close>, which keeps the list in a database. This
  development models the page, the loader, the parts of axios, vue-router, Vue and core-js that the page
  rests on, and the handlers of the server.

  The parts and their theories, from below.

  \<^item> \<open>Prelude\<close>: texts (joining, splitting, replacing, trimming, hexadecimal and decimal numbers), lists
    of entries, the rule sets \<open>str_simps\<close> and \<open>obj_simps\<close>, and the locale \<open>codec\<close> of a parser that reads
    back what an emitter writes.
  \<^item> \<open>JsArray\<close>: JavaScript arrays with holes and the polyfill of \<open>splice\<close> (module \<open>a434\<close>) with its
    loops, and the locale \<open>row_table\<close> of what the page needs of an array of rows. \<open>JsValue\<close>: values,
    \<open>merge\<close> and \<open>deepMerge\<close> of axios (module \<open>c532\<close>). \<open>Json\<close>: \<open>JSON.stringify\<close> and \<open>JSON.parse\<close>.
    \<open>UriCodec\<close>: \<open>encodeURIComponent\<close> and its inverse. \<open>AxiosUrl\<close>: \<open>buildURL\<close> and the joining of
    addresses. \<open>AxiosHeaders\<close>: header names and the parser of header blocks.
  \<^item> \<open>AxiosCore\<close>: the interceptor registry, the chain of a request, the dispatch, the default
    transformations, the browser's adapter as a machine on the events of \<open>XMLHttpRequest\<close>, and
    cancellation. \<open>JsPromise\<close>: the promises of core-js (module \<open>e6cf\<close>) with their microtask queue.
  \<^item> \<open>TodoServer\<close>: the handlers of \<open>main.go\<close> over a store, whose operations are parameters with the
    laws \<open>store_laws\<close> (a table with unique keys that is read as it was written). \<open>TodoClient\<close>: the
    component of the page with its four methods and the requests they send. \<open>TodoSystem\<close>: page,
    server and the requests in flight as a machine whose events are clicks, the handling of a
    request, and the arrival or loss of its answer. \<open>TodoRaces\<close>: gestures that overlap.
    \<open>TodoScreen\<close>: the page's variables as the observed cells of \<open>VueObserver\<close>, the writes of its callbacks,
    and the relation between the two.
  \<^item> \<open>Webpack\<close>: the loader of \<open>app.007f9690.js\<close>, with chunks, deferred entries and \<open>require\<close>.
  \<^item> \<open>RouterUrl\<close> and \<open>RouterNav\<close>: vue-router (module \<open>8c4f\<close>), its queries, paths and the comparison of
    routes, and navigation with its guards as a machine, and the stack of the abstract history.
    \<open>RoutePattern\<close>: the patterns of routes (path-to-regexp), the expressions made of them, with a matcher
    by backtracking, and the filling in of parameters; \<open>RouteTable\<close>: the table of records made of the routes
    with their children and aliases; \<open>RouteMatch\<close>: the matcher with redirections and aliases, and the
    table of the page; \<open>RouteHash\<close>: the hash history, by which the page keeps its route in the address.
  \<^item> \<open>VueDom\<close> and \<open>VuePatch\<close>: virtual nodes of Vue (module \<open>2b0e\<close>), the document as trees whose nodes have
    identities, the attribute module, \<open>createElm\<close>, and the patch of one tree to another with its loop
    over keyed children; \<open>VueChildren\<close> and \<open>VueRender\<close> hold the proofs, by an invariant of the loop and
    by induction on the depth. \<open>VueReactive\<close>: dependencies, watchers, the scheduler and \<open>nextTick\<close>;
    \<open>VueFlush\<close> holds the proofs. A render function is a reader of properties, a callback a function that
    writes some. \<open>VuePage\<close> joins the two: the updates that the runs of a component's watcher make.
    \<open>VueObserver\<close>: the observation of nested objects and arrays, kept as cells with addresses, what a read
    depends on and what a write notifies; \<open>VueNotice\<close> joins it with the scheduler.
  \<^item> \<open>ElMessage\<close>: the messages of element-ui, by which the page reports what it has done: their stack on
    the window and their timers, as a machine on what the page, the pointer and the keyboard do.
  \<^item> \<open>NodePath\<close> and \<open>PathNames\<close>: the shim of Node's \<open>path\<close> (module \<open>df7c\<close>). \<open>Probes\<close>: two feature tests.
  \<^item> \<open>Samples\<close>: concrete states on which the properties are applied.

  What is shown. The page and the database agree after every gesture that settles, and after every
  sequence of them (C1, C2); under every interleaving of gestures, answers and losses the structure
  of page and table is kept and the table changes only as it was asked to (C3, C4). Two quick
  deletes, a double click and a refused request make the page differ from the database, and the
  theorems say how (C5 to C8). The server does what each request asks, on all its error paths too
  (C9), and the requests on the wire are the ones it understands (C10). In every reachable world, the
  write of the next event is one that Vue notices, and leaves what the page's variables should be (C11). A component shows what
  its render function gives on the present data (C12), and a change of nested data that it has read
  queues it (C13); the element shows what is rendered last (\<open>page_shows_the_last_render\<close>), keyed nodes
  keep their document nodes (C14), and a key that names an inherited property throws
  (\<open>inherited_key_throws\<close>); once no microtask is left every watcher is up to date, a flush runs the watchers in order
  and ends if callbacks go forward only, and need not end otherwise, and the queue is bounded (C15 to
  C18). Messages of one height stand evenly (C19), those
  of different heights are moved wrongly when one is closed (C20), and every message goes, once (C21).
  The table of routes stays well formed, a route never stops at a redirection or an alias, the page has one
  route, address and route agree but for a hash without its slash, which is not followed
  (\<open>hash_without_slash_is_not_followed\<close>), and a location made from a name is read back (C22 to C26). The
  libraries' routines do what they are used for (C27 to C32), the loader runs each module once and in
  either order of the scripts (C33 to C35), the router reads back the queries it writes and completes
  only the navigation that is pending (C36 to C39), and relative paths and the parts of a path lead
  back (C40).

  Bounds and fuel. \<open>require\<close>, the JSON reader, the patch and the flush take fuel; C35, the height
  of the new tree (C14), the number of objects and arrays (\<open>observing_ends\<close>), the number of watchers (C16) and \<open>json_parse\<close>'s own definition
  (fuel above the length of the text) give enough. The matcher of routes takes a depth that only
  redirections and aliases spend; \<open>deeper\<close> shows that more depth gives the same answer, and
  \<open>plain_table_answers\<close> that none is needed without them. Numbers are integers: identifiers and lengths stay
  below \<open>max_safe\<close>, the largest integer a double counts exactly, where a statement needs it, and
  \<open>table_limit\<close> bounds the rows.

  Not modelled. Of Vue, components and slots, directives, events, transitions, classes and styles,
  computed properties, and data that are frozen or have accessors of their own; the other widgets of element-ui; the rest of core-js; request bodies
  that are blobs or forms, HTTP authentication and progress events; code units above 255 in texts; the
  property \<open>__proto__\<close>; fractions and numbers beyond \<open>max_safe\<close>; guards of the router that call \<open>next\<close>
  twice; patterns of routes with parentheses; the HTML5 history and what a browser escapes in an address, which is a parameter; the SQL that gorm sends, which the store's laws stand for; and the
  C++ and Go programs of the other directories, which share no code with this one.
\<close>

section \<open>The todo list, one gesture at a time\<close>

text \<open>C1: From a page that shows the database, any gesture whose requests settle before the next
  one, on a database that does not fail, ends in a page that shows the database, and the table
  changed as the user expects: the clicked row toggled or removed, the typed title appended, or
  nothing.\<close>

theorem gesture_keeps_page_and_database_together:
  assumes "store_laws g rows ok" and "store_up g rows ok" and "cookie env ''XSRF-TOKEN'' = None"
    and "settled_world rows ok w" and "in_range x (length (rows (db w)))"
    and "length (rows (db w)) < table_limit"
  shows "\<exists>w'. gesture env g x w = Some w' \<and> settled_world rows ok w'
     \<and> expected x (newTitle (page w)) (rows (db w)) (rows (db w'))"
  by (rule gesture_settles [OF assms])

lemma gesture_witness:
  "\<exists>w'. gesture sample_env list_store (ClickDelete 1) sample_world = Some w'
     \<and> settled_world (\<lambda>d. d) ids_distinct w' \<and> db w' = take 1 sample_rows @ drop 2 sample_rows"
  using gesture_keeps_page_and_database_together
    [OF list_store_laws list_store_up sample_cookie sample_settled, of "ClickDelete 1"]
  by (simp add: in_range_def sample_world_def sample_rows_def table_limit_def)

text \<open>C2: Opening the page and then any sequence of gestures on rows that are there, each settling
  before the next: all of them go through, the page shows the database at the end, and the table
  is what the gestures, one by one, make of it.\<close>

theorem session_shows_database:
  assumes "store_laws g rows ok" and "store_up g rows ok" and "cookie env ''XSRF-TOKEN'' = None"
    and "ok d" and "length (rows d) + length xs \<le> table_limit" and "clickable xs [] (length (rows d))"
  shows "\<exists>w w'. run_world env g [Serve 0, Deliver 0] (open_page d) = Some w \<and> session env g xs w = Some w'
     \<and> settled_world rows ok w' \<and> transcript xs [] (rows d) (rows (db w'))"
proof -
  have "ok (db (open_page d))" "flights (open_page d) = launch [getTodoList]"
    using assms(4) by (simp_all add: open_page_def)
  from settle_list [OF assms(1-3) this]
  obtain w where r: "run_world env g [Serve 0, Deliver 0] (open_page d) = Some w"
    and w: "settled_world rows ok w" "rows (db w) = rows d" by (auto simp: open_page_def)
  have "newTitle (page w) = []" using run_title [OF r] by (simp add: open_page_def init_client_def)
  then show ?thesis using session_settles [OF assms(1-3) w(1)] assms(5,6) w(2) r by auto
qed

lemma session_witness:
  "\<exists>w w'. run_world sample_env list_store [Serve 0, Deliver 0] (open_page sample_rows) = Some w
     \<and> session sample_env list_store [TypeTitle ''jam'', ClickAdd, ClickDelete 0, ClickEdit 2] w = Some w'
     \<and> settled_world (\<lambda>d. d) ids_distinct w' \<and> map Title (db w') = [''bread'', ''milk'', ''jam'']"
proof -
  let ?xs = "[TypeTitle ''jam'', ClickAdd, ClickDelete 0, ClickEdit 2]"
  have "clickable ?xs [] (length sample_rows)" "length sample_rows + length ?xs \<le> table_limit"
    by (simp_all add: sample_rows_def in_range_def title_after_def length_after_def table_limit_def)
  from session_shows_database [OF list_store_laws list_store_up sample_cookie sample_ok this(2,1)]
  obtain w w' where w: "run_world sample_env list_store [Serve 0, Deliver 0] (open_page sample_rows) = Some w"
    "session sample_env list_store ?xs w = Some w'" "settled_world (\<lambda>d. d) ids_distinct w'"
    "transcript ?xs [] sample_rows (db w')" by blast
  then have "map Title (db w') = [''bread'', ''milk'', ''jam'']"
    by (auto simp: title_after_def sample_rows_def)
  then show ?thesis using w(1-3) by (intro exI [of _ w] exI [of _ w'] conjI)
qed

section \<open>Overlapping requests\<close>

text \<open>C3: Whatever the order in which clicks, the handling of requests, the delivery of replies and
  losses interleave, and whatever the database refuses: the keys stay distinct, the row objects of
  the page are rows of the server (with a status), the table lists each of them once, and every
  request in flight is one of the page's four and names a row object the page knows.\<close>

theorem any_interleaving_keeps_the_world:
  assumes "reachable env g d0 w" and "store_laws g rows ok" and "cookie env ''XSRF-TOKEN'' = None" and "ok d0"
  shows "world_ok ok w \<and> distinct (ids (rows (db w)))"
  using reachable_world_ok [OF assms] store_lawsD(1) [OF assms(2)] by (auto simp: world_ok_def)

lemma interleaving_witness:
  "\<exists>w. step_world sample_env list_store (Lose 0) (open_page sample_rows) = Some w
     \<and> world_ok ids_distinct w \<and> distinct (ids (db w))"
proof -
  obtain t where "wire_settled sample_env (fst (sent_for AskList)) [NetworkError] = Some (Err t)"
    using settled_lost [of sample_env AskList] by blast
  then obtain w where s: "step_world sample_env list_store (Lose 0) (open_page sample_rows) = Some w"
    by (simp add: open_page_def launch_def settle_flight_def getTodoList_def)
  have "reachable sample_env list_store sample_rows w" by (rule reach_step [OF reach_open s])
  then have "world_ok ids_distinct w \<and> distinct (ids (db w))"
    using any_interleaving_keeps_the_world [OF _ list_store_laws sample_cookie sample_ok] by blast
  then show ?thesis using s by blast
qed

text \<open>C4: In every reachable world, only the server's handling of a request changes the database,
  and then exactly as one of the page's requests asks (one title appended, one row's status set,
  one key removed) or not at all.\<close>

theorem database_changes_as_asked:
  assumes "reachable env g d0 w" and "store_laws g rows ok" and "cookie env ''XSRF-TOKEN'' = None" and "ok d0"
    and "step_world env g ev w = Some w'"
  shows "case ev of
      Serve k \<Rightarrow> \<exists>it. (fl_config (flights w ! k), fl_then (flights w ! k)) = sent_for it
        \<and> (db w' = db w \<or> asked it (rows (db w)) (rows (db w')))
    | _ \<Rightarrow> db w' = db w"
  by (rule step_world_db [OF assms(2,3) reachable_world_ok [OF assms(1-4)] assms(5)])

lemma changes_witness:
  "\<exists>w. step_world sample_env list_store (Act (TypeTitle ''x'')) (open_page sample_rows) = Some w
     \<and> db w = sample_rows"
  using database_changes_as_asked [OF reach_open list_store_laws sample_cookie sample_ok,
      where ev = "Act (TypeTitle ''x'')"]
  by (force simp: open_page_def)



text \<open>C6: Clicking a row's button twice before the first reply: both requests ask for the same
  status, so the database is toggled once, and the page twice: it shows the status as before.\<close>

theorem double_click_shows_the_old_status:
  assumes "store_laws g rows ok" and "store_up g rows ok" and "cookie env ''XSRF-TOKEN'' = None"
    and "settled_world rows ok w" and "i < length (rows (db w))"
  shows "\<exists>w'. run_world env g (overlap (ClickEdit i) (ClickEdit i)) w = Some w' \<and> flights w' = []
     \<and> rows (db w') = (rows (db w))[i := (rows (db w) ! i)\<lparr>Status := \<not> Status (rows (db w) ! i)\<rparr>]
     \<and> shows_rows (page w') (rows (db w)) \<and> \<not> shows_rows (page w') (rows (db w'))"
proof -
  let ?u = "(rows (db w) ! i)\<lparr>Status := \<not> Status (rows (db w) ! i)\<rparr>"
  have "Status ?u \<noteq> Status (rows (db w) ! i)" by simp
  then have "(rows (db w))[i := ?u] \<noteq> rows (db w)" using assms(5) by (metis nth_list_update_eq)
  then show ?thesis using double_edit [OF assms] shows_rows_unique by metis
qed

lemma double_click_witness:
  "\<exists>w'. run_world sample_env list_store (overlap (ClickEdit 0) (ClickEdit 0)) sample_world = Some w'
     \<and> Status (db w' ! 0) \<and> shows_rows (page w') sample_rows"
  using double_click_shows_the_old_status
    [OF list_store_laws list_store_up sample_cookie sample_settled, of 0]
  by (auto simp: sample_world_def sample_rows_def)

section \<open>Errors of the server\<close>

text \<open>C7: When the database refuses to save, the server says so in a reply with status 200, and the
  page toggles the row nevertheless: it shows a status the database does not have.\<close>

theorem refused_edit_is_shown_as_done:
  assumes "cookie env ''XSRF-TOKEN'' = None" and "settled_world rows ok w" and "i < length (rows (db w))"
    and "\<And>t d. db_save g t d = Inl e"
  shows "\<exists>w'. gesture env g (ClickEdit i) w = Some w' \<and> db w' = db w
     \<and> shows_rows (page w') ((rows (db w))[i := (rows (db w) ! i)\<lparr>Status := \<not> Status (rows (db w) ! i)\<rparr>])"
  using soft_error_edit [OF assms] by blast

lemma refused_edit_witness:
  "\<exists>w'. gesture sample_env read_only_store (ClickEdit 2) sample_world = Some w' \<and> db w' = sample_rows
     \<and> shows_rows (page w') (sample_rows[2 := (sample_rows ! 2)\<lparr>Status := True\<rparr>])"
  using refused_edit_is_shown_as_done [OF sample_cookie sample_settled, of 2 read_only_store "''read-only''"]
  by (auto simp: sample_world_def sample_rows_def read_only_store_def)



section \<open>The server and the wire\<close>

text \<open>C9: The server's handlers on the page's requests: a reply that is an error and an unchanged
  database, or the table changed as asked; the state of the database stays good.\<close>

theorem server_does_what_is_asked:
  assumes "store_laws g rows ok" and "ok d"
    and "serve g (rq_method (request_for it)) (rq_url (request_for it)) (rq_body (request_for it)) d = (r, d')"
  shows "ok d' \<and> ((is_error_reply r \<and> d' = d) \<or> asked it (rows d) (rows d'))"
  using serve_intent [OF assms] by blast

lemma server_witness:
  "\<exists>r d'. serve list_store ''DELETE'' (todo_prefix @ ''/'' @ show_int 2) None sample_rows = (r, d')
     \<and> ids_distinct d' \<and> ((is_error_reply r \<and> d' = sample_rows) \<or> d' = remove_row_id 2 sample_rows)"
proof -
  obtain r d' where s: "serve list_store (rq_method (request_for (AskDelete 1 2)))
      (rq_url (request_for (AskDelete 1 2))) (rq_body (request_for (AskDelete 1 2))) sample_rows = (r, d')"
    by fastforce
  from server_does_what_is_asked [OF list_store_laws sample_ok s] s show ?thesis
    unfolding request_for.simps http_request.select_convs asked.simps by blast
qed



section \<open>The page on the screen\<close>

text \<open>Evaluation of small runs.\<close>

lemmas reactive_simps = new_watcher_def reactive_init_def watcher_get_def push_target_def pop_target_def depend_def add_dep_def
  add_sub_def set_watcher_def cleanup_deps_def Let_def set_prop_def set_props_def notify_subs_def queue_watcher_def next_tick_def
  flush_callbacks_def flush_queue_def flush_loop.simps watcher_run_def reset_scheduler_def no_watcher_def

text \<open>Small trees: a list whose items carry keys, and a place on a page.\<close>

definition text_node :: "string \<Rightarrow> unit vnode" where
  "text_node s = VNode () \<lparr>lb_key = None, lb_tag = None, lb_comment = False, lb_data = None, lb_text = Some s\<rparr> None"

definition item :: "int \<Rightarrow> string \<Rightarrow> unit vnode" where
  "item k s = VNode () \<lparr>lb_key = Some (KNum k), lb_tag = Some ''li'', lb_comment = False,
     lb_data = Some (Some [(''title'', AText s)]), lb_text = None\<rparr> (Some [text_node s])"

definition item_list :: "unit vnode list \<Rightarrow> unit vnode" where
  "item_list cs = VNode () \<lparr>lb_key = None, lb_tag = Some ''ul'', lb_comment = False, lb_data = None, lb_text = None\<rparr> (Some cs)"

definition mount_point :: view where
  "mount_point = \<lparr>siblings = [TextNode 0 ''head'', Element 1 ''div'' [] [], TextNode 2 ''foot''], vnode_of = None, el = 1,
     next_node = 3\<rparr>"

text \<open>C11: The todo page, its server and Vue together. In every world that can be reached, with the observed
  data that have followed the page so far, the write of the next event, a gesture, the handling of a
  request, the arrival of an answer or its loss, returns; Vue intercepts it; and the data then hold
  what the page's variables should be. A component that has rendered the data is queued if its render
  function would give something else now. A list that arrives is given as the cells it is parsed to.\<close>

theorem page_reaches_the_screen:
  assumes "store_laws g rows ok" and "cookie env ''XSRF-TOKEN'' = None" and "ok d0" and "reachable env g d0 w"
    and "page_cells f (page w) st" and "step_world env g ev w = Some w'" and "list_parsed t env ev w st"
    and "in_scope r {0} st" and "run_oreader h r st = Some (x, ds)" and "revent_run i es (reactive_init s) = Some rs"
  shows "\<exists>st'. perform f (event_write t env ev w st) st = Some st' \<and> page_cells f (page w') st' \<and> holds (page w') st'
    \<and> (\<forall>u. event_write t env ev w st = Some u \<longrightarrow> intercepted st u) \<and> o_eval r st = x
    \<and> (o_eval r st' \<noteq> x \<longrightarrow>
        has (announce (drop (length (told st)) (told st')) (mount_component (dep_reader ds x) rs)) (Suc (uid rs)))"
proof -
  have "world_ok ok w" by (rule reachable_world_ok [OF assms(4,1,2,3)])
  from event_followed [OF this assms(5-7)] obtain st' where
    st': "perform f (event_write t env ev w st) st = Some st'" "page_cells f (page w') st'" "holds (page w') st'"
    "\<forall>u. event_write t env ev w st = Some u \<longrightarrow> intercepted st u" by blast
  have ok: "page_ok f (page w) st" by (rule page_cells_ok [OF assms(5)])
  have rs: "reactive_ok [] rs" using revent_run_ok [OF _ _ assms(10)] reactive_init_ok by blast
  have "has (announce (drop (length (told st)) (told st')) (mount_component (dep_reader ds x) rs)) (Suc (uid rs))"
    if "o_eval r st' \<noteq> x"
    by (rule write_noticed [OF ok _ st'(1) assms(8,9) that rs]) (use st'(4) in blast)
  then show ?thesis using st' run_oreader_eval [OF assms(9)] by blast
qed

lemma page_reaches_witness:
  "\<exists>st w' st'. step_world sample_env list_store (Act (TypeTitle ''x'')) (open_page sample_rows) = Some w'
    \<and> page_cells 5 (page w') (st' :: ostate) \<and> o_eval (OGet 0 ''newTitle'' ODone) st' = OText ''x''
    \<and> has (announce (drop (length (told (st :: ostate))) (told st'))
        (mount_component (dep_reader [3] (OText [])) (reactive_init (\<lambda>d. VUndefined)))) 1"
proof -
  let ?r = "OGet 0 ''newTitle'' ODone" and ?ev = "Act (TypeTitle ''x'')" and ?w = "open_page sample_rows" and ?rs = "reactive_init (\<lambda>d. VUndefined)"
  obtain st where st: "screen_seen = Some st" "page_cells 5 init_client st" using screen_start by blast
  have rd: "run_oreader 9 ?r st = Some (OText [], [3])" "in_scope ?r {0} st"
    using title_evals(1,2) unfolding st(1) option.sel .
  obtain w' where w': "step_world sample_env list_store ?ev ?w = Some w'" by (simp add: open_page_def)
  have p: "page_cells 5 (page ?w) st" using st(2) by (simp add: open_page_def)
  have l: "list_parsed 4 sample_env ?ev ?w st" by (simp add: list_parsed_def)
  have e: "revent_run 0 [] ?rs = Some ?rs" by simp
  obtain st' where st': "perform 5 (event_write 4 sample_env ?ev ?w st) st = Some st'" "page_cells 5 (page w') st'"
    "o_eval ?r st' \<noteq> OText [] \<longrightarrow>
       has (announce (drop (length (told st)) (told st')) (mount_component (dep_reader [3] (OText [])) ?rs)) (Suc (uid ?rs))"
    using page_reaches_the_screen [OF list_store_laws sample_cookie sample_ok reach_open p w' l rd(2,1) e] by blast
  have "o_eval ?r st' = OText ''x''" using title_evals(3) st'(1) unfolding st(1) option.sel by simp
  moreover from this st'(3) have "has (announce (drop (length (told st)) (told st')) (mount_component (dep_reader [3] (OText [])) ?rs)) 1"
    by (simp add: reactive_init_def)
  ultimately show ?thesis using w' st'(2) by blast
qed

text \<open>The todo page and Vue together. Whatever gestures and replies have come so far, the callback of
  a further reply makes at most one write to the observed data, and Vue intercepts it; it returns, and
  the data then hold what the page's variables should be. A component that has rendered the data is
  queued if its render function would give something else now. Objects that a list reply is parsed
  to are given as cells.\<close>

theorem replies_reach_the_screen:
  assumes "page_cells f c st" and "on_reply k s c = (c', ss)" and "reply_fits t k s c st"
    and "in_scope r {0} st" and "run_oreader h r st = Some (x, ds)" and "revent_run g es (reactive_init i) = Some rs"
  shows "\<exists>st'. perform f (reply_write t k s st) st = Some st' \<and> page_cells f c' st' \<and> holds c' st' \<and> o_eval r st = x
    \<and> (o_eval r st' \<noteq> x \<longrightarrow>
        has (announce (drop (length (told st)) (told st')) (mount_component (dep_reader ds x) rs)) (Suc (uid rs)))"
proof -
  have ok: "page_ok f c st" by (rule page_cells_ok [OF assms(1)])
  then have c: "client_ok c" "holds c st" by (simp_all add: page_ok_def)
  note w = reply_holds [OF c assms(2,3)]
  obtain st' where st': "perform f (reply_write t k s st) st = Some st'" "page_ok f c' st'"
    using page_step_ok [OF ok client_ok_reply [OF c(1) assms(2,3)] w] by blast
  have x: "o_eval r st = x" by (rule run_oreader_eval [OF assms(5)])
  have "reactive_ok [] rs" using revent_run_ok [OF _ _ assms(6)] reactive_init_ok by blast
  then have "has (announce (drop (length (told st)) (told st')) (mount_component (dep_reader ds x) rs)) (Suc (uid rs))"
    if "o_eval r st' \<noteq> x"
    using write_noticed [OF ok _ st'(1) assms(4,5) that] w by (auto split: option.splits)
  moreover have "page_cells f c' st'" by (rule page_cells.page_reply [OF assms(1-3) st'(1)])
  ultimately show ?thesis using st' x by (auto simp: page_ok_def)
qed

lemma replies_reach_witness:
  "\<exists>st st' ds. page_cells 5 init_client (st :: ostate) \<and> run_oreader 9 count_rows st = Some (0, ds)
    \<and> perform 5 (reply_write 4 KList (Ok two_rows) st) st = Some st'
    \<and> has (announce (drop (length (told st)) (told (st' :: ostate))) (mount_component (dep_reader ds (0::nat)) (reactive_init (\<lambda>d. VUndefined)))) 1"
proof -
  obtain st where st: "screen_seen = Some st" "page_cells 5 init_client st" "reply_fits 4 KList (Ok two_rows) init_client st"
    using screen_start by blast
  have rd: "run_oreader 9 count_rows st = Some (0, [1, 2])" "in_scope count_rows {0} st"
    using screen_evals(1,2) unfolding st(1) option.sel .
  have a: "on_reply KList (Ok two_rows) init_client = (set_table (getv two_rows ''data'') init_client, [])" by simp
  have e: "revent_run 0 [] (reactive_init (\<lambda>d. VUndefined)) = Some (reactive_init (\<lambda>d. VUndefined))" by simp
  from replies_reach_the_screen [OF st(2) a st(3) rd(2,1) e] obtain st' where st': "perform 5 (reply_write 4 KList (Ok two_rows) st) st = Some st'"
    "o_eval count_rows st' \<noteq> 0 \<longrightarrow> has (announce (drop (length (told st)) (told st'))
        (mount_component (dep_reader [1, 2] (0 :: nat)) (reactive_init (\<lambda>d. VUndefined)))) (Suc (uid (reactive_init (\<lambda>d. VUndefined))))"
    by (elim exE conjE) (rule that)
  have "o_eval count_rows st' = 2" using screen_evals(3) st'(1) unfolding st(1) option.sel by simp
  then have "has (announce (drop (length (told st)) (told st'))
        (mount_component (dep_reader [1, 2] (0 :: nat)) (reactive_init (\<lambda>d. VUndefined)))) 1" using st'(2) by (simp add: reactive_init_def)
  then show ?thesis using st(2) rd(1) st'(1) by blast
qed

text \<open>C12: A component whose render function reads reactive data shows them: whatever the page does,
  once no microtask is left, the updates that the runs of its watcher have made bring its element to
  what the render function gives on the present data, and leave its surroundings alone.\<close>

theorem component_shows_the_data:
  assumes "revent_run f es (reactive_init s) = Some st" and "host_jobs st = 0"
    and "is_active (watchers st w)" and "getter (watchers st w) = component_getter r"
    and "\<forall>s. wf_vnode (r_eval r s)"
    and "siblings vw = X @ d # Y" and "el vw = dom_id d" and "vnode_of vw = None" and "ids_ok (next_node vw) (X @ d # Y)"
  shows "\<exists>vw' d' y'. screen r w st vw = Some vw' \<and> siblings vw' = X @ d' # Y \<and> renders d' y'
    \<and> unrendered y' = r_eval r (rstore st)"
proof -
  have k: "reactive_ok [] st" "\<not> flushing st" using revent_run_ok [OF _ _ assms(1)] reactive_init_ok by blast+
  have "up_to_date st w"
    using k quiet [OF k assms(2)] assms(3) by (auto simp: reactive_ok_def nothing_missed_def)
  moreover have "view_ok X Y None vw" using assms(6-9) by (simp add: view_ok_def)
  ultimately obtain vw' where "screen r w st vw = Some vw'" "view_ok X Y (Some (r_eval r (rstore st))) vw'"
    using screen_shows [OF k(1) _ assms(3,4)] assms(5) by blast
  then show ?thesis by (auto simp: view_ok_def)
qed

definition greeting :: "unit vnode reader" where
  "greeting = Read 0 (\<lambda>v. case v of
       VText t \<Rightarrow> Read 2 (\<lambda>u. Give (item_list [item 1 t, item 2 (case u of VText t' \<Rightarrow> t' | _ \<Rightarrow> ''?'')]))
     | _ \<Rightarrow> Give (item_list []))"

lemma shows_the_data_witness:
  "\<exists>st vw' d' y'. revent_run 5 [Watch (component_getter greeting) (\<lambda>s e t. []), Assign 2 (VText ''b''), Assign 0 (VText ''a''), HostJob]
      (reactive_init (\<lambda>_. VUndefined)) = Some st
    \<and> screen greeting 1 st mount_point = Some vw' \<and> siblings vw' = [TextNode 0 ''head''] @ d' # [TextNode 2 ''foot'']
    \<and> renders d' y' \<and> unrendered y' = item_list [item 1 ''a'', item 2 ''b'']"
proof -
  let ?es = "[Watch (component_getter greeting) (\<lambda>s e t. []), Assign 2 (VText ''b''), Assign 0 (VText ''a''), HostJob]"
  have "(case revent_run 5 ?es (reactive_init (\<lambda>_. VUndefined)) of None \<Rightarrow> False
      | Some st \<Rightarrow> host_jobs st = 0 \<and> is_active (watchers st 1) \<and> getter (watchers st 1) = component_getter greeting
          \<and> rstore st 0 = VText ''a'' \<and> rstore st 2 = VText ''b'')"
    by (simp add: reactive_simps component_getter_def greeting_def)
  then obtain st where st: "revent_run 5 ?es (reactive_init (\<lambda>_. VUndefined)) = Some st" "host_jobs st = 0"
    "is_active (watchers st 1)" "getter (watchers st 1) = component_getter greeting"
    "rstore st 0 = VText ''a''" "rstore st 2 = VText ''b''"
    by (auto split: option.splits)
  have "show_int 1 = ''1''" "show_int 2 = ''2''" by code_simp+
  then have "wf_vnode (item_list [])" "wf_vnode (item_list [item 1 t, item 2 u])" for t u
    by (simp_all add: item_list_def item_def text_node_def wf_label_def keys_ok_def child_keys_def attrs_of_def inherited_names_def)
  then have wf: "\<forall>s. wf_vnode (r_eval greeting s)" by (simp add: greeting_def split: vval.split)
  have e: "r_eval greeting (rstore st) = item_list [item 1 ''a'', item 2 ''b'']" using st(5,6) by (simp add: greeting_def)
  show ?thesis
    using component_shows_the_data [OF st(1-4) wf, of mount_point "[TextNode 0 ''head'']" "Element 1 ''div'' [] []" "[TextNode 2 ''foot'']"]
      st(1) unfolding e by (simp add: mount_point_def ids_ok_def)
qed



text \<open>However often a component is rendered, on whatever trees of elements, texts and comments, with
  keys, attributes, insertions, removals and moves: no update throws, the component's element shows
  exactly the tree rendered last, and the nodes before and after it are untouched.\<close>

theorem page_shows_the_last_render:
  assumes "siblings vw = X @ d # Y" and "el vw = dom_id d" and "vnode_of vw = None" and "ids_ok (next_node vw) (X @ d # Y)"
    and "list_all wf_vnode ys" and "ys \<noteq> []"
  shows "\<exists>vw' d' y'. vue_updates ys vw = Some vw' \<and> siblings vw' = X @ d' # Y \<and> el vw' = dom_id d'
    \<and> vnode_of vw' = Some y' \<and> unrendered y' = last ys \<and> renders d' y'"
proof -
  have "view_ok X Y None vw" using assms(1-4) by (simp add: view_ok_def)
  from vue_updates_ok [OF this assms(5)] assms(6) obtain vw' where
    u: "vue_updates ys vw = Some vw'" "view_ok X Y (Some (last ys)) vw'" by auto
  then obtain d' y' where "siblings vw' = X @ d' # Y" "el vw' = dom_id d'" "vnode_of vw' = Some y'" "unrendered y' = last ys"
    "renders d' y'"
    by (auto simp: view_ok_def)
  with u(1) show ?thesis by blast
qed

lemma last_render_witness:
  "\<exists>vw' d' y'. vue_updates [item_list [item 1 ''a'', item 2 ''b''], item_list [item 3 ''c'', item 2 ''b'', item 1 ''d'']] mount_point
      = Some vw'
    \<and> siblings vw' = [TextNode 0 ''head''] @ d' # [TextNode 2 ''foot''] \<and> el vw' = dom_id d' \<and> vnode_of vw' = Some y'
    \<and> unrendered y' = last [item_list [item 1 ''a'', item 2 ''b''], item_list [item 3 ''c'', item 2 ''b'', item 1 ''d'']]
    \<and> renders d' y'"
  by (rule page_shows_the_last_render [of mount_point "[TextNode 0 ''head'']" "Element 1 ''div'' [] []" "[TextNode 2 ''foot'']"
        "[item_list [item 1 ''a'', item 2 ''b''], item_list [item 3 ''c'', item 2 ''b'', item 1 ''d'']]"])
    (code_simp)+

text \<open>C14: When an element is patched, it keeps its document node, and so does every child with a key
  whose key is given to a new child that it may be patched to, wherever that one stands.\<close>

theorem keyed_children_keep_their_nodes:
  assumes "wf_vnode v" and "wf_vnode y" and "same_vnode (label v) (label y)" and "renders d v" and "sound c d"
    and "children v = Some p" and "children y = Some m"
  shows "\<exists>d' y' c' ys. patch_vnode (height y) v y d c = Some (d', y', c') \<and> renders d' y' \<and> dom_id d' = dom_id d
    \<and> children y' = Some ys \<and> map unrendered ys = m
    \<and> (\<forall>t \<in> set p. \<forall>s \<in> set ys. lb_key (label s) \<noteq> None \<longrightarrow> same_vnode (label t) (label s) \<longrightarrow> elm s = elm t)"
proof -
  obtain d' y' c' ys where r: "patch_vnode (height y) v y d c = Some (d', y', c')" "children y' = Some ys" "reused p ys"
    using patch_reuses [OF assms] by blast
  then have "renders d' y'" "dom_id d' = dom_id d" "unrendered y' = y"
    using patch_vnode_ok [OF order_refl assms(2)] assms(1,3-5) unfolding pt_ok_def by force+
  moreover from this(3) have "map unrendered ys = m"
    using r(2) assms(7) unrendered_fields(2) [of "\<lambda>_. ()" y'] by simp
  ultimately show ?thesis using r unfolding reused_def by blast
qed

definition shown_list :: dom where
  "shown_list = fst (create_elm 0 (item_list [item 1 ''a'', item 2 ''b'']))"

definition shown_vnode :: "nat vnode" where
  "shown_vnode = fst (snd (create_elm 0 (item_list [item 1 ''a'', item 2 ''b''])))"

lemma keyed_witness:
  "\<exists>d' y' c' ys. patch_vnode (height (item_list [item 2 ''b'', item 3 ''c'', item 1 ''a''])) shown_vnode
      (item_list [item 2 ''b'', item 3 ''c'', item 1 ''a'']) shown_list 9 = Some (d', y', c')
    \<and> renders d' y' \<and> dom_id d' = dom_id shown_list \<and> children y' = Some ys
    \<and> map unrendered ys = [item 2 ''b'', item 3 ''c'', item 1 ''a'']
    \<and> (\<forall>t \<in> set (the (children shown_vnode)). \<forall>s \<in> set ys.
          lb_key (label s) \<noteq> None \<longrightarrow> same_vnode (label t) (label s) \<longrightarrow> elm s = elm t)"
proof -
  have wf: "wf_vnode (item_list [item 1 ''a'', item 2 ''b''])" by code_simp
  have r: "renders shown_list shown_vnode"
    using create_spec(1) [of "item_list [item 1 ''a'', item 2 ''b'']" 0 shown_list shown_vnode
        "snd (snd (create_elm 0 (item_list [item 1 ''a'', item 2 ''b''])))"]
    by (simp add: shown_list_def shown_vnode_def wf)
  show ?thesis
    by (rule keyed_children_keep_their_nodes [OF _ _ _ r]) code_simp+
qed

text \<open>A single new child whose key is the name of a property that every object inherits, such as
  \<open>constructor\<close>, makes the patch throw when the old children have no such keys.\<close>

theorem inherited_key_throws:
  assumes "lb_text (label y) = None" and "children v = Some p" and "p \<noteq> []"
    and "set (child_keys p) \<inter> set inherited_names = {}" and "children y = Some [x]"
    and "lb_key (label x) = Some k" and "key_string k \<in> set inherited_names"
  shows "patch_vnode f v y d c = None"
proof (cases f)
  case (Suc g)
  show ?thesis
    using inherited_key_throws_step [OF assms(3,4,6,7)] assms(1,2,5) by (simp add: Suc Let_def)
qed simp

lemma inherited_key_witness:
  "patch_vnode 9 shown_vnode
     (item_list [VNode () \<lparr>lb_key = Some (KText ''constructor''), lb_tag = Some ''li'', lb_comment = False, lb_data = None,
        lb_text = None\<rparr> None]) shown_list 9 = None"
  by (rule inherited_key_throws [where p = "the (children shown_vnode)" and k = "KText ''constructor''"])
    (code_simp | simp add: item_list_def)+

section \<open>Reactive data\<close>

text \<open>C15: Whatever the page does, creating and removing watchers, writing properties, in callbacks and
  in functions it gives to \<open>nextTick\<close>: at any time the subscribers of a property are, each once, the
  active watchers that have read it; a queued watcher has a microtask coming; and once no microtask
  is left, every active watcher has the value its getter gives on the present data.\<close>

theorem quiet_page_is_up_to_date:
  assumes "revent_run f es (reactive_init s) = Some st"
  shows "distinct (subs st d) \<and> set (subs st d) = {w. is_active (watchers st w) \<and> d \<in> set (deps (watchers st w))}
    \<and> (queue st \<noteq> [] \<longrightarrow> 0 < host_jobs st)
    \<and> (is_active (watchers st w) \<longrightarrow> w \<in> set (queue st) \<or> up_to_date st w)
    \<and> (host_jobs st = 0 \<longrightarrow> is_active (watchers st w) \<longrightarrow> up_to_date st w)"
proof -
  have r: "reactive_ok [] st" "\<not> flushing st"
    using revent_run_ok [OF _ _ assms] reactive_init_ok by blast+
  have l: "linked st" and m: "nothing_missed st" and h: "has st u \<longleftrightarrow> u \<in> set (queue st)" for u
    using r by (simp_all add: reactive_ok_def queue_ok_def to_run_def)
  have q: "\<not> has st u" if "host_jobs st = 0" for u using quiet [OF r that] .
  then have "queue st \<noteq> [] \<longrightarrow> 0 < host_jobs st" using h by (metis last_in_set neq0_conv)
  then show ?thesis using l m h q unfolding linked_def nothing_missed_def by blast
qed

lemma up_to_date_witness:
  "let st = the (revent_run 5 [Watch (Read 0 Give) (\<lambda>s e t. [(1, e)]), Watch (Read 1 Give) (\<lambda>s e t. []), Assign 0 (VNum 7), HostJob]
       (reactive_init (\<lambda>_. VUndefined)))
   in is_active (watchers st 2) \<and> host_jobs st = 0 \<and> up_to_date st 2 \<and> rstore st 1 = VNum 7"
proof -
  let ?es = "[Watch (Read 0 Give) (\<lambda>s e t. [(1, e)]), Watch (Read 1 Give) (\<lambda>s e t. []), Assign 0 (VNum 7), HostJob]"
  let ?s = "reactive_init (\<lambda>_. VUndefined)"
  have "(case revent_run 5 ?es ?s of None \<Rightarrow> False | Some st \<Rightarrow> is_active (watchers st 2) \<and> host_jobs st = 0 \<and> rstore st 1 = VNum 7)"
    by (simp add: reactive_simps)
  then obtain st where st: "revent_run 5 ?es ?s = Some st" "is_active (watchers st 2)" "host_jobs st = 0" "rstore st 1 = VNum 7"
    by (auto split: option.splits)
  with quiet_page_is_up_to_date [OF st(1), of 0 2] show ?thesis by simp
qed

text \<open>C16: If callbacks write only what later watchers may read, the microtask ends after at most as
  many rounds as there are watchers, calling each watcher at most once, in the order of their
  creation, and every queued one.\<close>

theorem flush_ends_in_order:
  assumes "revent_run f es (reactive_init s) = Some st" and "forward_callbacks st"
  shows "\<exists>st' rs. revent_step (uid st) HostJob st = Some st' \<and> befores st' = befores st @ rs \<and> sorted_wrt (<) rs
    \<and> (\<forall>w \<in> set (queue st). w \<in> set rs)"
proof -
  have "reactive_ok [] st" "\<not> flushing st" using revent_run_ok [OF _ _ assms(1)] reactive_init_ok by blast+
  from host_job_ends [OF this assms(2)] show ?thesis .
qed

lemma flush_witness:
  "let es = [Watch (Read 0 Give) (\<lambda>s e t. [(1, e)]), Watch (Read 1 Give) (\<lambda>s e t. []), Assign 0 (VNum 7)]
   in \<exists>st st' rs. revent_run 5 es (reactive_init (\<lambda>_. VUndefined)) = Some st \<and> queue st = [1]
     \<and> revent_step (uid st) HostJob st = Some st' \<and> befores st' = befores st @ rs \<and> sorted_wrt (<) rs
     \<and> (\<forall>w \<in> set (queue st). w \<in> set rs)"
proof -
  let ?es = "[Watch (Read 0 Give) (\<lambda>s e t. [(1, e)]), Watch (Read 1 Give) (\<lambda>s e t. []), Assign 0 (VNum 7)]"
  let ?s = "reactive_init (\<lambda>_. VUndefined)"
  have "(case revent_run 5 ?es ?s of None \<Rightarrow> False | Some st \<Rightarrow> forward_callbacks st \<and> queue st = [1])"
    by (simp add: reactive_simps forward_callbacks_def run_adds_def)
  then obtain st where st: "revent_run 5 ?es ?s = Some st" "forward_callbacks st" "queue st = [1]"
    by (auto split: option.splits)
  from flush_ends_in_order [OF st(1,2)] st(1,3) show ?thesis unfolding Let_def by blast
qed




section \<open>Routes\<close>



text \<open>C20: What closing a message does when heights differ. If all messages are stacked without gap, and
  one is closed, those above it stay, and each below it stands too low by the height of the closed
  one less that of the next: the code reads the height of the message that has taken its place.\<close>

theorem closing_moves_by_the_next_height:
  assumes "st = message_run es messages_init" and "stacked st" and "k < length (msg_stack st)"
    and "st' = close_component (msg_stack st ! k) st" and "j < length (msg_stack st')"
  shows "top_px (comps st' (msg_stack st' ! j)) = msg_place st' j
    + (if k \<le> j then int (msg_height (comps st (msg_stack st ! k))) - int (msg_height (comps st (msg_stack st ! Suc k))) else 0)"
  using close_stacked [OF message_run_ok [OF messages_init_ok, of es, folded assms(1)] assms(2,3)] assms(4,5) by simp

text \<open>A message of one line is closed above one of two lines, which leaves the window.\<close>

lemma closing_moves_witness:
  "top_px (comps (close_component 1 (message_run [MOpen 48 1500 False None, MOpen 70 1500 False None] messages_init)) 2) = - 2"
proof -
  let ?es = "[MOpen 48 1500 False None, MOpen 70 1500 False None]" and ?s = "message_run [MOpen 48 1500 False None, MOpen 70 1500 False None] messages_init"
  have s: "msg_stack ?s = [1, 2]" "msg_height (comps ?s 1) = 48" "msg_height (comps ?s 2) = 70" "msg_stack (close_component 1 ?s) = [2]"
    "top_px (comps ?s 1) = 20" "top_px (comps ?s 2) = 84"
    by code_simp+
  note s = s [unfolded One_nat_def]
  have "stacked ?s" by (simp add: stacked_def s msg_place_def less_Suc_eq)
  from closing_moves_by_the_next_height [OF HOL.refl this _ HOL.refl, of 0 0] show ?thesis
    by (simp add: s msg_place_def)
qed

text \<open>C21: Every message goes, and goes once. The page hears of the closing of a message at most once, and
  of just those that are closed; one that is shown, has a duration and is not under the pointer has a timeout
  that will close it; and the escape key and \<open>closeAll\<close> leave none.\<close>

theorem every_message_goes_once:
  assumes "st = message_run es messages_init"
  shows "distinct (user_calls st)
    \<and> (\<forall>i. i \<in> set (user_calls st) \<longleftrightarrow> 0 < i \<and> i < seed st \<and> i \<notin> set (msg_stack st) \<and> user_close (comps st i))
    \<and> (\<forall>i \<in> set (msg_stack st). duration (comps st i) > 0 \<longrightarrow> \<not> pointer_in (comps st i) \<longrightarrow> timeouts (comps st i) \<noteq> [])
    \<and> msg_stack (message_step MEscape st) = [] \<and> msg_stack (message_step MCloseAll st) = []"
proof -
  have ok: "messages_ok st" using message_run_ok [OF messages_init_ok, of es] assms by simp
  have "msg_stack (message_step MEscape st) = []" using escape_empties [OF ok] by blast
  moreover have "msg_stack (message_step MCloseAll st) = []" using close_all_ok [OF ok HOL.refl] by (simp add: close_all_def)
  ultimately show ?thesis using ok unfolding messages_but_def by auto
qed

lemma goes_once_witness:
  "distinct (user_calls (message_run [MOpen 48 1500 True None, MButton 1, MEscape, MButton 1] messages_init))
    \<and> 1 \<in> set (user_calls (message_run [MOpen 48 1500 True None, MButton 1, MEscape, MButton 1] messages_init))
    \<and> timeouts (comps (message_run [MOpen 48 1500 True None, MEnter 1, MLeave 1] messages_init) 1) \<noteq> []"
proof -
  let ?a = "message_run [MOpen 48 1500 True None, MButton 1, MEscape, MButton 1] messages_init"
  let ?b = "message_run [MOpen 48 1500 True None, MEnter 1, MLeave 1] messages_init"
  have a: "seed ?a = 2" "msg_stack ?a = []" "user_close (comps ?a 1)" by code_simp+
  have b: "msg_stack ?b = [1]" "duration (comps ?b 1) = 1500" "\<not> pointer_in (comps ?b 1)" by code_simp+
  have "distinct (user_calls ?a) \<and> 1 \<in> set (user_calls ?a)"
    using every_message_goes_once [OF HOL.refl, of "[MOpen 48 1500 True None, MButton 1, MEscape, MButton 1]"] a by simp
  moreover have "timeouts (comps ?b 1) \<noteq> []"
    using every_message_goes_once [OF HOL.refl, of "[MOpen 48 1500 True None, MEnter 1, MLeave 1]"] b by simp
  ultimately show ?thesis by blast
qed

text \<open>C22: The table of routes is well formed, whatever is added to it: paths are distinct, each is the path
  of its record, whose expression is compiled from it, names lead to records of that name, and the
  wildcard is the last path. What was defined before is kept as it was.\<close>

theorem route_table_stays_well_formed:
  assumes "table_ok m"
  shows "table_ok (add_routes es m)
    \<and> (oget (path_map m) p = Some u \<longrightarrow> oget (path_map (add_routes es m)) p = Some u)
    \<and> (oget (name_map m) s = Some v \<longrightarrow> oget (name_map (add_routes es m)) s = Some v)"
  using add_routes_ok assms by (simp add: table_ok_def)

lemma table_witness:
  "table_ok (add_routes [RouteConfig ''*'' [] None [] [] False False, RouteConfig ''/'' ''again'' None [] [] False False] page_table)
   \<and> oget (path_map (add_routes [RouteConfig ''*'' [] None [] [] False False, RouteConfig ''/'' ''again'' None [] [] False False] page_table)) []
     = Some index_record"
proof -
  have "table_ok page_table" using add_routes_ok(1) [OF no_routes_ok] by (simp add: page_table_def create_route_map_def)
  from route_table_stays_well_formed [OF this] show ?thesis by (simp add: page_table_simps)
qed

text \<open>C23: A route never stops at a redirection or at an alias: its last record is one of the table that is
  neither.\<close>

theorem route_stops_at_a_real_record:
  assumes "match_location f m e cur a = Found r" and "mt_records r \<noteq> []"
  shows "rc_redirect (last (mt_records r)) = None \<and> rc_match_as (last (mt_records r)) = []
    \<and> ((\<exists>p. oget (path_map m) p = Some (last (mt_records r))) \<or> (\<exists>s. oget (name_map m) s = Some (last (mt_records r))))"
  using matcher_stops_well(1) [of m f e cur a] assms by (simp add: stops_well_def final_record_def table_record_def)

lemma stops_witness:
  "\<exists>r. match_location 0 page_table (at_path_text ''/'') None None = Found r \<and> rc_match_as (last (mt_records r)) = []"
proof -
  have "pp_path (parse_path ''/'') = ''/''" by (simp add: parse_path_def)
  then obtain r where r: "match_location 0 page_table (at_path_text ''/'') None None = Found r" "mt_records r \<noteq> []"
    using page_location [of "''/''" 0 None None] by auto
  with route_stops_at_a_real_record [OF r] show ?thesis by blast
qed



text \<open>C25: The page keeps its address and its route together. Wherever it was loaded, and whatever the router
  and the user do then, the address reads as the full path of the route that is shown, or is what the
  browser makes of it, as long as the addresses the user goes to can be decoded and have their slash.\<close>

theorem page_address_agrees:
  assumes "page_reachable br f page_table st"
  shows "entry st < length (entries st)
    \<and> (get_hash (here st) = Some (mt_full_path (shown_route st))
       \<or> (\<exists>u. here st = br (with_hash u (mt_full_path (shown_route st)))))"
  using page_reachable_agrees [OF assms] by (simp add: address_agrees_def)

lemma agrees_witness:
  "\<exists>st. page_start (\<lambda>u. u) 0 page_table ''h/#/'' = Some st
     \<and> (let st' = page_step (\<lambda>u. u) 0 page_table (UserHash ''/about'') st in
        get_hash (here st') = Some (mt_full_path (shown_route st')) \<or> (\<exists>u. here st' = with_hash u (mt_full_path (shown_route st'))))"
proof -
  have h: "get_hash ''h/#/'' = Some ''/''" by (simp add: get_hash_def Let_def)
  obtain st where st: "page_start (\<lambda>u. u) 0 page_table ''h/#/'' = Some st" using page_start_shows [OF h] by auto
  have "readable ''h/#/''" using h by (simp add: readable_def)
  from page_first [OF this st] have "page_reachable (\<lambda>u. u) 0 page_table st" .
  moreover have "readable_event (\<lambda>u. u) (UserHash ''/about'') st" by (simp add: readable_def get_with_hash)
  ultimately have "page_reachable (\<lambda>u. u) 0 page_table (page_step (\<lambda>u. u) 0 page_table (UserHash ''/about'') st)"
    by (rule page_next)
  from page_address_agrees [OF this] st show ?thesis by (simp only: Let_def) blast
qed

text \<open>A hash without its slash is not followed: the listener writes the slash into the address and leaves
  the route as it is, although the page, loaded at the new address, shows the route of it.\<close>

theorem hash_without_slash_is_not_followed:
  assumes "entry st < length (entries st)" and "set h \<inter> set ''%?#'' = {}" and "h = [] \<or> hd h \<noteq> CHR ''/''"
  shows "let st' = page_step (\<lambda>u. u) f page_table (UserHash h) st in
      shown_route st' = shown_route st \<and> get_hash (here st') = Some (''/'' @ h)
      \<and> (\<exists>st2. page_start (\<lambda>u. u) f page_table (here st') = Some st2 \<and> rt_path (shown_route st2) = ''/'' @ h)"
proof -
  let ?st' = "page_step (\<lambda>u. u) f page_table (UserHash h) st"
  have g: "get_hash (with_hash u h) = Some h" "get_hash (with_hash u (''/'' @ h)) = Some (''/'' @ h)" for u
    using assms(2) by (simp_all add: get_with_hash)
  have s: "shown_route ?st' = shown_route st" "get_hash (here ?st') = Some (''/'' @ h)"
    using no_slash_ignored [where br = "\<lambda>u. u", OF assms(1) g(1) assms(3)] g(2) by simp_all
  have tw: "takeWhile (\<lambda>c. c \<noteq> CHR ''#'') h = h" "takeWhile (\<lambda>c. c \<noteq> CHR ''?'') h = h"
    using assms(2) by (auto simp: takeWhile_eq_all_conv)
  have "takeWhile (\<lambda>c. c \<noteq> CHR ''?'') (takeWhile (\<lambda>c. c \<noteq> CHR ''#'') h) = h" by (simp only: tw)
  then have "pp_path (parse_path (''/'' @ h)) = ''/'' @ h" by (simp add: parse_path_def Let_def)
  then show ?thesis using page_start_shows [OF s(2), of "\<lambda>u. u" f] s by auto
qed

lemma without_slash_witness:
  "\<exists>st. page_start (\<lambda>u. u) 0 page_table ''h/#/'' = Some st
     \<and> shown_route (page_step (\<lambda>u. u) 0 page_table (UserHash ''about'') st) = shown_route st
     \<and> get_hash (here (page_step (\<lambda>u. u) 0 page_table (UserHash ''about'') st)) = Some ''/about''"
proof -
  have h: "get_hash ''h/#/'' = Some ''/''" by (simp add: get_hash_def Let_def)
  obtain st where st: "page_start (\<lambda>u. u) 0 page_table ''h/#/'' = Some st" using page_start_shows [OF h] by auto
  have "readable ''h/#/''" using h by (simp add: readable_def)
  from page_reachable_agrees [OF page_first [OF this st]] have "entry st < length (entries st)" by (simp add: address_agrees_def)
  from hash_without_slash_is_not_followed [OF this, of "''about''" 0] st show ?thesis by (simp add: Let_def)
qed







text \<open>Two routes that redirect to each other are never answered: no depth is enough.\<close>

theorem redirections_go_round:
  "match_location f (create_route_map [redirect_to ''/a'' ''/b'', redirect_to ''/b'' ''/a'']) (at_path_text ''/a'') cur a = Exhausted"
  using round_text by (simp add: round_table_def)

section \<open>Arrays, values and their texts\<close>

text \<open>C27: The loops of \<open>splice\<close> compute, on arrays without holes, the list function of the language
  standard, for every kind of argument list: the elements removed, and the array with the new ones
  in their place.\<close>

theorem splice_is_list_splice:
  assumes "length xs + length (splice_items args) \<le> max_safe"
  shows "js_splice (of_list xs) args = Inr
    (of_list (take (splice_start args (length xs)) xs @ splice_items args
       @ drop (splice_start args (length xs) + splice_count args (length xs)) xs),
     of_list (take (splice_count args (length xs)) (drop (splice_start args (length xs)) xs)))"
  by (rule js_splice_dense [OF assms])

lemma splice_witness:
  "js_splice (of_list [1, 2, 3, 4, 5 :: nat]) (StartCount (Fin (-3)) (Fin 2) [9])
     = Inr (of_list [1, 2, 9, 5], of_list [3, 4])"
  using splice_is_list_splice [of "[1, 2, 3, 4, 5 :: nat]" "StartCount (Fin (-3)) (Fin 2) [9]"]
  by (simp add: max_safe_def)

text \<open>Removing a row of the table by its index removes exactly this row object, when rows are
  listed once each.\<close>

theorem remove_row_by_index:
  assumes "proper_array t" and "distinct (to_list t)" and "i < length (to_list t)"
  shows "to_list (splice_one i t) = filter (\<lambda>x. x \<noteq> to_list t ! i) (to_list t) \<and> proper_array (splice_one i t)"
  using js_rows.remove_exact [OF assms] js_rows.wf_remove [OF assms(1)] by blast

lemma remove_row_witness: "to_list (splice_one 1 (of_list [10, 20, 30 :: nat])) = [10, 30]"
  using remove_row_by_index [of "of_list [10, 20, 30 :: nat]" 1] by (simp add: max_safe_def)





section \<open>URLs and headers of axios\<close>

text \<open>A query string built from parameters splits back into exactly the pairs it was built from,
  decoded.\<close>

theorem parameters_read_back: "read_query (serialize_params params) = map Some (query_pairs params)"
  by (rule read_serialize)

text \<open>Joining a base and a relative address gives the base without its final slashes, one slash,
  and the address without its leading ones; only the empty address leaves the base as it is.\<close>

theorem combine_one_slash:
  assumes "b = [] \<or> last b \<noteq> CHR ''/''" and "t = [] \<or> hd t \<noteq> CHR ''/''"
  shows "combine_urls (b @ replicate m (CHR ''/'')) (replicate n (CHR ''/'') @ t)
    = (if n = 0 \<and> t = [] then b @ replicate m (CHR ''/'') else b @ ''/'' @ t)"
  using strip_slashes(1) [OF assms(2)] strip_slashes(2) [OF assms(1)] by (simp add: combine_urls_def)

lemma combine_witness: "combine_urls ''http://h//'' ''//v1/todo'' = ''http://h/v1/todo''"
  using combine_one_slash [of "''http://h''" "''v1/todo''" 2 2] by (simp add: numeral_2_eq_2)

text \<open>The parsed header block gives, for every name, all values of \<open>set-cookie\<close> in order, the
  first value of the headers that must not be repeated, and the values of any other joined by
  commas.\<close>

theorem parsed_header:
  assumes "e \<noteq> []"
  shows "oget (parse_headers e) k = header_result k (header_values k (map header_line (split_on newline e)))"
proof -
  have "parse_headers e = fold add_header (map header_line (split_on newline e)) []"
    using assms by (simp add: parse_headers_def fold_map o_def)
  then show ?thesis by (simp only: oget_fold_headers)
qed

lemma header_witness:
  "oget (parse_headers (''Vary: a'' @ [newline] @ ''vary: b'')) ''vary'' = Some (Str ''a, b'')"
proof -
  have "header_result ''vary'' (header_values ''vary'' (map header_line (split_on newline (''Vary: a'' @ [newline] @ ''vary: b''))))
      = Some (Str ''a, b'')" by code_simp
  then show ?thesis using parsed_header [of "''Vary: a'' @ [newline] @ ''vary: b''" "''vary''"] by simp
qed

text \<open>After normalising a header name, every other spelling is gone, the name itself holds the last
  of the values that were spelled otherwise (or what it held), and other headers are untouched.\<close>

theorem one_spelling:
  "oget (normalize_header_name e t) k =
     (if k = t then (if variants t e = [] then oget e t else Some (last (variants t e)))
      else if same_name k t then None else oget e k)"
proof -
  have "same_name k t \<Longrightarrow> k \<noteq> t \<Longrightarrow> oget (normalize_header_name e t) k = None"
    unfolding normalize_header_name_def
    using normalize_fold_removed [of k t e e] normalize_fold_absent [of k t e e]
    by (cases "k \<in> set (okeys e)") (auto simp: map_of_eq_None_iff)
  then show ?thesis
    unfolding normalize_header_name_def
    by (auto simp: normalize_fold_target normalize_fold_other)
qed

section \<open>The request pipeline\<close>

text \<open>C30: A request passes the request interceptors, latest registered first, then the dispatch, then
  the response interceptors in the order of registration, each link catching what the one before
  rejected.\<close>

theorem interceptor_order:
  "axios_request env tk0 tk1 adapter ax e =
     fold then_link (active (resp_interceptors ax))
       (then_link (Some (dispatch_request env tk0 tk1 adapter), None)
         (fold then_link (rev (active (req_interceptors ax))) (Ok (request_config ax e))))"
  by (simp add: axios_request_def run_build_chain)

text \<open>Registering an interceptor and ejecting it by the number it got leaves requests as they were,
  whatever was registered and ejected before.\<close>

theorem eject_undoes_use:
  "axios_request env tk0 tk1 adapter
     (ax\<lparr>req_interceptors := im_eject (fst (im_use h (req_interceptors ax))) (snd (im_use h (req_interceptors ax)))\<rparr>) e
   = axios_request env tk0 tk1 adapter ax e"
proof -
  have "active (im_eject (fst (im_use h (req_interceptors ax))) (snd (im_use h (req_interceptors ax))))
      = active (req_interceptors ax)"
    by (simp only: interceptors.register_id interceptors.eject_registered)
  then show ?thesis by (simp add: axios_request_def run_build_chain request_config_def)
qed

text \<open>The first event of a request that settles it decides: later ones, of any kind, change
  nothing.\<close>

theorem first_event_decides: "x_result (xhr_run env e evs) = first_result env e evs"
  by (rule xhr_run_first)

text \<open>A token keeps the reason of its first cancellation, and a request made with it is rejected
  with this reason without reaching the adapter.\<close>

theorem cancelled_request_not_sent:
  "dispatch_request env (Some (fold token_cancel (m # ms) None)) tk1 adapter config = Err (new_cancel m)"
proof -
  have "fold token_cancel ms (Some r) = Some r" for r
    by (induction ms) (simp_all add: token_cancel_def)
  then have "fold token_cancel (m # ms) None = Some (new_cancel m)" by (simp add: token_cancel_def)
  then show ?thesis by (simp add: dispatch_request_def dispatch_prepare_def throw_if_requested_def)
qed

section \<open>Promises\<close>

text \<open>C31: In every run of scripts, callbacks and the event loop, a promise that is settled keeps its
  status and its value.\<close>

theorem promise_settles_once:
  assumes "js_run env init_js s" and "js_run env s t" and "status (heap s e) \<noteq> Pending"
  shows "status (heap t e) = status (heap s e) \<and> pvalue (heap t e) = pvalue (heap s e)"
  using assms evolves_js_run credit_inv_init unfolding evolves_def by blast

lemma settles_witness:
  "pvalue (heap (exec_cmd (CReject 0 (V 6)) (exec_cmd (CResolve 0 (V 5)) (exec_cmd CNew init_js))) 0) = V (5 :: nat)"
proof -
  let ?env = "\<lambda>k v. ([], Return v)"
  let ?a = "exec_cmd CNew init_js" let ?s = "exec_cmd (CResolve 0 (V (5 :: nat))) ?a"
  let ?t = "exec_cmd (CReject 0 (V 6)) ?s"
  have r: "running ?a = None" "running ?s = None"
    by (simp_all add: new_promise_def init_js_def internal_resolve_def notify_def Let_def)
  have "js_run ?env init_js ?s"
    by (rule js_run.trans [OF js_run.trans [OF js_run.refl]]; rule js_step.script)
       (simp_all add: init_js_def new_promise_def)
  moreover have "js_run ?env ?s ?t" by (rule js_run.trans [OF js_run.refl]) (rule js_step.script [OF r(2)])
  moreover have "status (heap ?s 0) = Fulfilled \<and> pvalue (heap ?s 0) = V 5"
    by (simp add: new_promise_def init_js_def internal_resolve_def notify_def Let_def fresh_promise_def settle_def heap_upd)
  ultimately show ?thesis using promise_settles_once [of ?env ?s ?t 0] by simp
qed



section \<open>Loading the page's scripts\<close>



text \<open>As long as the vendor chunk is missing, whatever other chunks arrive before or after the
  application script, no module runs and the application stays in the list of deferred entries.\<close>

theorem nothing_before_vendors:
  assumes "list_all plain_chunk ds" and "list_all plain_chunk ds'"
  shows "\<exists>st. runtime (load_page (map ChunkScript ds @ [AppScript e] @ map ChunkScript ds')) = Some st
    \<and> app_waiting st \<and> entered st = []"
  using not_before_vendors assms by (simp add: list_all_iff)

lemma nothing_before_vendors_witness:
  "\<exists>st. runtime (load_page [ChunkScript other_chunk, AppScript sample_app, ChunkScript other_chunk]) = Some st
    \<and> app_waiting st \<and> entered st = []"
  using nothing_before_vendors [of "[other_chunk]" "[other_chunk]" sample_app]
  by (simp add: plain_chunk_def other_chunk_def)

text \<open>C34: The two scripts of the page may run in either order: the program that results is the
  same, module by module and effect by effect.\<close>

theorem scripts_in_either_order:
  assumes "chunk_ids d = [''chunk-vendors'']" and "execute d = []"
  shows "runtime (load_page [ChunkScript d, AppScript e]) = runtime (load_page [AppScript e, ChunkScript d])
    \<and> failed (load_page [ChunkScript d, AppScript e]) = failed (load_page [AppScript e, ChunkScript d])"
  using either_order [OF assms] by blast

lemma either_order_witness:
  "runtime (load_page [ChunkScript sample_vendors, AppScript sample_app])
     = runtime (load_page [AppScript sample_app, ChunkScript sample_vendors])"
  using scripts_in_either_order [of sample_vendors sample_app] by (simp add: sample_vendors_def)

text \<open>C35: Requiring a module ends, cyclic requires included: calls nest no deeper than there are
  modules that are not yet in the cache.\<close>

theorem require_ends:
  assumes "finite (dom (mods st))" and "card (uncached st) < n"
  shows "fst (require n t st) \<noteq> NoFuel"
  by (rule require_fuel [OF assms])

lemma require_ends_witness:
  "fst (require 3 ''a'' (new_runtime [(''a'', [Req ''b'']), (''b'', [Req ''a''])])) \<noteq> NoFuel"
proof (rule require_ends)
  have d: "dom (mods (new_runtime [(''a'', [Req ''b'']), (''b'', [Req ''a''])])) = {''a'', ''b''}"
    by (auto simp: new_runtime_def split: if_splits)
  then show "finite (dom (mods (new_runtime [(''a'', [Req ''b'']), (''b'', [Req ''a''])])))" by simp
  show "card (uncached (new_runtime [(''a'', [Req ''b'']), (''b'', [Req ''a''])])) < 3"
    unfolding uncached_def d by (simp add: new_runtime_def)
qed

section \<open>Addresses of the router\<close>

text \<open>C36: A query of texts, nulls and lists of at least two of them, under names that are not
  members of every object, is read back from its text as it was, order included.\<close>

theorem query_read_back:
  assumes "plain_query q"
  shows "parse_query (stringify_query q) = Some q"
  by (rule query_round_trip(1) [OF assms])

lemma query_witness:
  "parse_query (stringify_query [(''q'', Str ''a b&c''), (''tag'', Arr [Str ''x'', Null])])
     = Some [(''q'', Str ''a b&c''), (''tag'', Arr [Str ''x'', Null])]"
  by (rule query_read_back) (simp add: plain_query_def scalar_def inherited_names_def)

text \<open>The full path of a route splits into the path, query and hash it was built from.\<close>

theorem location_read_back:
  assumes "path \<noteq> []" and "CHR ''?'' \<notin> set path" and "CHR ''#'' \<notin> set path" and "plain_query q"
    and "hash = [] \<or> hd hash = CHR ''#''"
  shows "pp_path (parse_path (full_path path q hash)) = path
    \<and> resolve_query (pp_query (parse_path (full_path path q hash))) [] = q
    \<and> pp_hash (parse_path (full_path path q hash)) = hash"
  by (rule location_round_trip [OF assms])

lemma location_witness:
  "pp_hash (parse_path (full_path ''/todo'' [(''page'', Str ''2'')] ''#end'')) = ''#end''"
  using location_read_back [of "''/todo''" "[(''page'', Str ''2'')]" "''#end''"]
  by (simp add: plain_query_def scalar_def inherited_names_def)

text \<open>A relative path is resolved by walking the directories of the base, one up for every
  \<open>..\<close>, and the result has no dot segment left.\<close>

theorem relative_path_is_a_walk:
  assumes "relative_to e segs t ds" and "''..'' \<notin> set ds" and "''.'' \<notin> set ds"
  shows "resolve_path e t False = (if walk segs ds = [] then [] else absolute (walk segs ds))
    \<and> ''..'' \<notin> set (walk segs ds) \<and> ''.'' \<notin> set (walk segs ds)"
  using resolve_relative [OF assms(1)] walk_no_dots [of ds segs] assms(2,3) by metis

lemma relative_witness: "resolve_path ''../x/./y'' ''/a/b/c'' False = ''/a/x/y''"
proof -
  have "relative_to ''../x/./y'' [''..'', ''x'', ''.'', ''y''] ''/a/b/c'' [''a'', ''b'']"
    by (auto simp: relative_to_def absolute_def join_with_Cons intro!: exI [of _ "''c''"])
  then show ?thesis
    using relative_path_is_a_walk [of "''../x/./y''" "[''..'', ''x'', ''.'', ''y'']" "''/a/b/c''" "[''a'', ''b'']"]
    by (simp add: walk_def resolve_segment_def absolute_def join_with_Cons)
qed

text \<open>Two queries of texts are equal for the router exactly if every name has the same entry in
  both, in whatever order; the text \<open>undefined\<close> is left out, which equals an absent entry.\<close>

theorem query_equality:
  assumes "text_query q" and "text_query r"
  shows "obj_equal (Obj q) (Obj r) \<longleftrightarrow> (\<forall>k. oget q k = oget r k)"
  by (rule obj_equal_lookups [OF assms])

lemma query_equality_witness:
  "obj_equal (Obj [(''a'', Str ''1''), (''b'', Str ''2'')]) (Obj [(''b'', Str ''2''), (''a'', Str ''1'')])"
  by (subst query_equality) (auto simp: text_query_def)

section \<open>Navigation\<close>



text \<open>The current route changes only when the navigation that is pending passes its last guard,
  and then it becomes this navigation's target.\<close>

theorem only_the_pending_one_arrives:
  assumes "nav_reachable gt h" and "nav_step gt ev h = Some h'" and "current h' \<noteq> current h"
  shows "\<exists>k nv. pending h = Some k \<and> waiting h k = Some nv \<and> ev = Next k Proceed
     \<and> endings h' = endings h @ [(k, Completed)] \<and> current h' = nv_target nv \<and> pending h' = None"
  using nav_step_current [OF nav_reachable_ok [OF assms(1)] assms(2)] assms(3) by blast

lemma arrives_witness:
  "\<exists>h h'. nav_step sample_guards (Next 0 Proceed) h = Some h' \<and> rt_path (current h') = ''/a'' \<and> pending h' = None"
proof -
  obtain h where h: "nav_reachable sample_guards h" "pending h = Some 0" "current h = start_route"
    "waiting h 0 = Some \<lparr>nv_target = sample_route ''/a'' [1], nv_queues = resolve_queue [] [1], nv_todo = [Enter 1], nv_stage = Second\<rparr>"
    using one_at_its_last_guard by blast
  then obtain h' where s: "nav_step sample_guards (Next 0 Proceed) h = Some h'" "rt_path (current h') = ''/a''"
    by (simp add: guard_next_def advance_def finish_nav_def Let_def sample_route_def)
  then have "current h' \<noteq> current h" using h(3) by (auto simp: start_route_def)
  from only_the_pending_one_arrives [OF h(1) s(1) this] s show ?thesis by blast
qed

text \<open>C38: A navigation that another one has superseded never completes, however its guards and
  those of the others answer from then on.\<close>

theorem superseded_navigation_never_arrives:
  assumes "nav_reachable gt h" and "k < next_nav h" and "pending h \<noteq> Some k"
    and "(k, Completed) \<notin> set (endings h)" and "nav_run gt evs h = Some h'"
  shows "(k, Completed) \<notin> set (endings h')"
  by (rule superseded_never_completes [OF nav_reachable_ok [OF assms(1)] assms(2-)])

lemma superseded_witness:
  "\<exists>h h'. pending h = Some 1 \<and> nav_run sample_guards [Next 0 Proceed] h = Some h' \<and> (0, Completed) \<notin> set (endings h')"
proof -
  obtain h where h: "nav_reachable sample_guards h" "next_nav h = 2" "pending h = Some 1" "endings h = []"
    "waiting h 0 \<noteq> None" using two_at_their_first_guard by blast
  then obtain h' where r: "nav_run sample_guards [Next 0 Proceed] h = Some h'"
    by (auto simp: guard_next_def Let_def)
  have "(0, Completed) \<notin> set (endings h')"
    by (rule superseded_navigation_never_arrives [OF h(1) _ _ _ r]) (simp_all add: h)
  then show ?thesis using h(3) r by blast
qed

text \<open>C39: A navigation to another route, all of whose guards let it pass, where \<open>S\<close> are the records
  that both routes share, \<open>A\<close> those that are left and \<open>B\<close> those that are entered: the guards are called
  in the order leave (innermost component first), \<open>beforeEach\<close>, update, \<open>beforeEnter\<close>, loading of the
  components, enter, \<open>beforeResolve\<close>, each once, and then the route is the current one.\<close>

theorem guards_in_order:
  assumes "nav_reachable gt h"
    and "is_same_route r (current h) \<longrightarrow> length (rt_matched r) \<noteq> length (rt_matched (current h))"
    and "rt_matched (current h) = S @ A" and "rt_matched r = S @ B" and "A \<noteq> [] \<longrightarrow> B \<noteq> [] \<longrightarrow> hd A \<noteq> hd B"
  defines "gs \<equiv> map Leave (concat (rev (concat (map (leave_of gt) A)))) @ map BeforeEach (before_hooks gt)
      @ map Update (concat (concat (map (update_of gt) S)))
      @ concat (map (\<lambda>x. case before_enter_of gt x of None \<Rightarrow> [] | Some g \<Rightarrow> [BeforeEnter g]) B) @ [AsyncComponents]
      @ map Enter (concat (concat (map (enter_of gt) B))) @ map BeforeResolve (resolve_hooks gt)"
  shows "nav_run gt (Navigate r # replicate (length gs) (Next (next_nav h) Proceed)) h
     = Some (h\<lparr>next_nav := Suc (next_nav h), pending := None, current := r,
          endings := endings h @ [(next_nav h, Completed)], calls := calls h @ map (Pair (next_nav h)) gs\<rparr>)"
proof -
  have "resolve_queue (rt_matched (current h)) (rt_matched r) = \<lparr>updated = S, activated = B, deactivated = A\<rparr>"
    unfolding assms(3,4) using assms(5) by (intro resolve_queue_split) blast
  then have "gs = first_queue gt (resolve_queue (rt_matched (current h)) (rt_matched r))
      @ second_queue gt (resolve_queue (rt_matched (current h)) (rt_matched r))"
    by (simp add: gs_def first_queue_def second_queue_def extract_guards_def Let_def)
  then show ?thesis using undisturbed [OF nav_reachable_ok [OF assms(1)], of r] assms(2) by blast
qed

lemma guards_witness:
  "\<exists>h. nav_run sample_guards (Navigate (sample_route ''/a'' [1]) # replicate 3 (Next 0 Proceed)) nav_init = Some h
     \<and> calls h = [(0, BeforeEach 7), (0, AsyncComponents), (0, Enter 1)] \<and> rt_path (current h) = ''/a''"
  using guards_in_order [OF nav_start, of "sample_route ''/a'' [1]" "[]" "[]" "[1]" sample_guards]
  by (simp add: nav_init_def start_route_def sample_route_def sample_guards_def eval_nat_numeral)

text \<open>A guard of a navigation that has been superseded can still redirect: its late answer
  starts a navigation that takes the place of the newer one.\<close>

theorem late_redirect_takes_over:
  assumes "waiting h k = Some nv"
    and "is_same_route r (current h) \<longrightarrow> length (rt_matched r) \<noteq> length (rt_matched (current h))"
  shows "\<exists>h'. nav_step gt (Next k (Redirect r)) h = Some h' \<and> pending h' = Some (next_nav h)
     \<and> (\<exists>nv'. waiting h' (next_nav h) = Some nv' \<and> nv_target nv' = r)"
  using stale_redirect assms by blast

lemma late_redirect_witness:
  "\<exists>h h'. pending h = Some 1 \<and> nav_step sample_guards (Next 0 (Redirect (sample_route ''/c'' [3]))) h = Some h' \<and> pending h' = Some 2"
proof -
  obtain h where h: "nav_reachable sample_guards h" "next_nav h = 2" "pending h = Some 1" "current h = start_route"
    "waiting h 0 \<noteq> None" using two_at_their_first_guard by blast
  then obtain nv where "waiting h 0 = Some nv" by blast
  from late_redirect_takes_over [OF this, of "sample_route ''/c'' [3]" sample_guards] h show ?thesis
    by (auto simp: start_route_def sample_route_def)
qed

text \<open>On the abstract history, pushing a route makes it the current one, forgets what was ahead,
  and going back by one returns to the route that was current.\<close>

theorem push_and_back:
  assumes "ab_ok b"
  shows "ab_here (ab_push e b) = e \<and> ab_stack (ab_push e b) = take (Suc (nat (ab_index b))) (ab_stack b) @ [e]
    \<and> ab_target (-1) (ab_push e b) = Some (ab_here b) \<and> ab_ok (ab_push e b)"
  using ab_push_ok [OF assms] ab_push_back [OF assms] by blast

lemma push_witness:
  "ab_target (-1) (ab_push (sample_route ''/b'' []) (ab_push (sample_route ''/a'' []) ab_init)) = Some (sample_route ''/a'' [])"
  using push_and_back [of "ab_push (sample_route ''/a'' []) ab_init" "sample_route ''/b'' []"] ab_push_first by simp

section \<open>Paths of files\<close>

text \<open>The scan of a path from its end, which counts the \<open>..\<close> it has seen, gives what walking the
  segments from the start gives, and paths that are normal already stay as they are.\<close>

theorem normal_paths:
  "normalize_array e t = (case fold walk_step e (0, []) of (m, zs) \<Rightarrow> if t then replicate m dotdot @ zs else zs)
    \<and> normalize_path (normalize_path p) = normalize_path p"
  using normalize_array_walk normalize_path_idem by blast

text \<open>C40: Paths lead where they should: the relative path from one place to another, taken from the first,
  leads to the second; the directory and the name of a path lead to the path; and a name is its stem
  and its extension.\<close>

theorem path_parts_lead_back:
  assumes "is_absolute cwd"
  shows "path_resolve cwd [e, path_relative cwd e n] = path_resolve cwd [n]
    \<and> path_resolve cwd [dir_name e, base_name e []] = path_resolve cwd [e]
    \<and> base_name e (ext_name e) @ ext_name e = base_name e []"
  using relative_leads_there [OF assms] dir_and_name [OF assms] base_and_extension by blast

lemma lead_back_witness:
  "path_resolve ''/home'' [''a/b'', path_relative ''/home'' ''a/b'' ''/home/c.txt''] = ''/home/c.txt''
   \<and> path_relative ''/home'' ''a/b'' ''/home/c.txt'' = ''../../c.txt''"
proof -
  have "is_absolute ''/home''" by (simp add: is_absolute_def)
  from path_parts_lead_back [OF this, of "''a/b''" "''/home/c.txt''"]
  have "path_resolve ''/home'' [''a/b'', path_relative ''/home'' ''a/b'' ''/home/c.txt''] = path_resolve ''/home'' [''/home/c.txt'']"
    by (rule conjunct1)
  moreover have "path_resolve ''/home'' [''/home/c.txt''] = ''/home/c.txt''" "path_relative ''/home'' ''a/b'' ''/home/c.txt'' = ''../../c.txt''"
    by code_simp+
  ultimately show ?thesis by simp
qed

end
